(* ===== verification/Prelude.thy ===== *)
theory Prelude
  imports Complex_Main "HOL-Library.Multiset"
begin

text \<open>
  Shared vocabulary of the development: the HTTP status codes of \<^verbatim>\<open>net/http\<close> that the
  programs use, iteration over a Go map, decimal printing (\<^verbatim>\<open>fmt.Sprintf("%d")\<close>), and the
  generic lemmas on lists, options and maps that the component theories rest on.

  A Go \<^verbatim>\<open>string\<close> is a byte sequence, which is what a HOL \<^typ>\<open>string\<close> is. A Go map is a
  partial function. Its iteration order is unspecified, so every \<^verbatim>\<open>range\<close> loop over a map takes
  the visited key sequence as an argument; \<open>range_ok\<close> says which sequences a loop over a map that
  nobody changes meanwhile can produce: every key once.
\<close>

named_theorems store_laws \<open>equations of the lock stores' operations, branch by branch\<close>
named_theorems http_simps \<open>equations that evaluate requests, responses and JSON decoding\<close>

subsection \<open>Status codes\<close>

abbreviation StatusOK :: nat where "StatusOK \<equiv> 200"
abbreviation StatusBadRequest :: nat where "StatusBadRequest \<equiv> 400"
abbreviation StatusForbidden :: nat where "StatusForbidden \<equiv> 403"
abbreviation StatusNotFound :: nat where "StatusNotFound \<equiv> 404"
abbreviation StatusMethodNotAllowed :: nat where "StatusMethodNotAllowed \<equiv> 405"
abbreviation StatusConflict :: nat where "StatusConflict \<equiv> 409"

subsection \<open>Iterating over a Go map\<close>

definition range_values :: "('k \<rightharpoonup> 'v) \<Rightarrow> 'k list \<Rightarrow> 'v list" where
  "range_values m ord = List.map_filter m ord"

definition range_ok :: "('k \<rightharpoonup> 'v) \<Rightarrow> 'k list \<Rightarrow> bool" where
  "range_ok m ord \<longleftrightarrow> distinct ord \<and> set ord = dom m"

subsection \<open>Decimal printing and reading\<close>

definition digit_char :: "nat \<Rightarrow> char" where
  "digit_char d = char_of (48 + d)"

fun itoa :: "nat \<Rightarrow> string" where
  "itoa n = (if n < 10 then [digit_char n] else itoa (n div 10) @ [digit_char (n mod 10)])"

definition atoi_nat :: "string \<Rightarrow> nat" where
  "atoi_nat s = foldl (\<lambda>a c. 10 * a + (of_char c - 48)) 0 s"

declare itoa.simps [simp del]

definition fmt_d :: "int \<Rightarrow> string" where
  "fmt_d i = (if i < 0 then ''-'' @ itoa (nat (- i)) else itoa (nat i))"

subsection \<open>Effectful calls that may fail\<close>

text \<open>
  A call that changes the world \<open>'w\<close> and returns a value or an error. \<open>bind_io\<close> is sequencing with
  the early return on error that Go writes as \<^verbatim>\<open>if err != nil { return ... }\<close>.
\<close>

type_synonym ('w, 'e, 'a) io = "'w \<Rightarrow> 'w \<times> ('e + 'a)"

definition return_io :: "'a \<Rightarrow> ('w, 'e, 'a) io" where
  "return_io a w = (w, Inr a)"

definition fail_io :: "'e \<Rightarrow> ('w, 'e, 'a) io" where
  "fail_io e w = (w, Inl e)"

definition bind_io :: "('w, 'e, 'a) io \<Rightarrow> ('a \<Rightarrow> ('w, 'e, 'b) io) \<Rightarrow> ('w, 'e, 'b) io" where
  "bind_io m f w = (case m w of (w', Inl e) \<Rightarrow> (w', Inl e) | (w', Inr a) \<Rightarrow> f a w')"

definition map_err :: "('e \<Rightarrow> 'f) \<Rightarrow> ('w, 'e, 'a) io \<Rightarrow> ('w, 'f, 'a) io" where
  "map_err g m w = (case m w of (w', Inl e) \<Rightarrow> (w', Inl (g e)) | (w', Inr a) \<Rightarrow> (w', Inr a))"

definition check_io :: "bool \<Rightarrow> 'e \<Rightarrow> ('w, 'e, unit) io" where
  "check_io b e = (if b then return_io () else fail_io e)"

subsection \<open>Lemmas on effectful calls\<close>

lemma return_io_apply [simp]: "return_io a w = (w, Inr a)"
  by (simp add: return_io_def)

lemma fail_io_apply [simp]: "fail_io e w = (w, Inl e)"
  by (simp add: fail_io_def)

lemma bind_io_simps [simp]:
  "m w = (w', Inl e) \<Longrightarrow> bind_io m f w = (w', Inl e)"
  "m w = (w', Inr a) \<Longrightarrow> bind_io m f w = f a w'"
  by (simp_all add: bind_io_def)

lemma bind_io_Inr:
  "bind_io m f w = (w'', Inr b) \<longleftrightarrow> (\<exists>w' a. m w = (w', Inr a) \<and> f a w' = (w'', Inr b))"
  by (auto simp: bind_io_def split: prod.splits sum.splits)

lemma map_err_simps [simp]:
  "m w = (w', Inl e) \<Longrightarrow> map_err g m w = (w', Inl (g e))"
  "m w = (w', Inr a) \<Longrightarrow> map_err g m w = (w', Inr a)"
  by (simp_all add: map_err_def)

lemma map_err_Inr: "map_err g m w = (w', Inr a) \<longleftrightarrow> m w = (w', Inr a)"
  by (auto simp: map_err_def split: prod.splits sum.splits)

lemma map_err_fst: "fst (map_err g m w) = fst (m w)"
  by (simp add: map_err_def split: prod.splits sum.splits)

lemma check_io_simps [simp]:
  "check_io True e = return_io ()" "check_io False e = fail_io e"
  by (simp_all add: check_io_def)

lemma check_io_Inr: "check_io b e w = (w', Inr u) \<longleftrightarrow> b \<and> w' = w"
  by (auto simp: check_io_def)

subsection \<open>Lemmas on map iteration\<close>

lemma range_values_Nil [simp]: "range_values m [] = []"
  by (simp add: range_values_def map_filter_simps)

lemma range_values_Cons [simp]:
  "range_values m (k # ks) = (case m k of None \<Rightarrow> range_values m ks | Some v \<Rightarrow> v # range_values m ks)"
  by (simp add: range_values_def map_filter_simps split: option.split)

lemma range_values_append [simp]:
  "range_values m (ks @ ks') = range_values m ks @ range_values m ks'"
  by (induction ks) (auto split: option.split)

lemma range_values_concat: "range_values m (concat kss) = concat (map (range_values m) kss)"
  by (induction kss) auto

lemma range_values_cong: "(\<And>k. k \<in> set ks \<Longrightarrow> m k = m' k) \<Longrightarrow> range_values m ks = range_values m' ks"
  by (induction ks) (simp_all split: option.split)

lemma range_values_dom:
  "set ord \<subseteq> dom m \<Longrightarrow> range_values m ord = map (\<lambda>k. the (m k)) ord"
  by (induction ord) auto

lemma range_okD:
  assumes "range_ok m ord"
  shows range_ok_distinct: "distinct ord" and range_ok_set: "set ord = dom m"
  using assms by (simp_all add: range_ok_def)

lemma range_ok_values:
  "range_ok m ord \<Longrightarrow> range_values m ord = map (\<lambda>k. the (m k)) ord"
  by (simp add: range_ok_def range_values_dom)

lemma set_range_values: "range_ok m ord \<Longrightarrow> set (range_values m ord) = ran m"
  by (force simp: range_ok_values range_ok_set ran_def)

lemma range_ok_finite: "range_ok m ord \<Longrightarrow> finite (dom m)"
  by (metis range_ok_def List.finite_set)

lemma length_range_values: "range_ok m ord \<Longrightarrow> length (range_values m ord) = card (dom m)"
  by (metis distinct_card length_map range_ok_def range_ok_values)

lemma range_ok_exists: "finite (dom m) \<Longrightarrow> \<exists>ord. range_ok m ord"
  by (metis finite_distinct_list range_ok_def)

subsection \<open>Lemmas on decimal printing\<close>

lemma of_char_digit [simp]: "d < 10 \<Longrightarrow> of_char (digit_char d) = 48 + d"
  by (simp add: digit_char_def)

lemma atoi_nat_snoc [simp]: "atoi_nat (s @ [c]) = 10 * atoi_nat s + (of_char c - 48)"
  by (simp add: atoi_nat_def)

lemma atoi_nat_itoa [simp]: "atoi_nat (itoa n) = n"
proof (induction n rule: itoa.induct)
  case (1 n)
  show ?case
  proof (cases "n < 10")
    case True
    then show ?thesis by (simp add: itoa.simps [of n] atoi_nat_def)
  next
    case False
    with 1 have "atoi_nat (itoa (n div 10)) = n div 10" by simp
    with False show ?thesis by (simp add: itoa.simps [of n])
  qed
qed

lemma itoa_inject [simp]: "itoa m = itoa n \<longleftrightarrow> m = n"
  by (metis atoi_nat_itoa)

lemma itoa_nonempty [simp]: "itoa n \<noteq> []"
  by (simp add: itoa.simps [of n])

end
