(* ===== verification/Go_Time.thy ===== *)
theory Go_Time
  imports Prelude
begin

text \<open>
  The servers stamp a lock with \<^verbatim>\<open>time.Now().UTC()\<close> and print the stamp with
  \<^verbatim>\<open>Format(time.RFC3339)\<close>. A \<^verbatim>\<open>time.Time\<close> is an instant, the number of nanoseconds since
  1970-01-01T00:00:00Z, and the offset of its location from UTC in seconds: \<^verbatim>\<open>time.Now\<close> reads the clock in
  the local zone (the reading is an argument of the operations that call it), \<^verbatim>\<open>UTC\<close> changes the
  location and keeps the instant. The layout prints whole seconds of the proleptic Gregorian calendar
  in the time's zone, and the zone as \<open>Z\<close> or as hours and minutes. (Local dates before 1970 are cut off
  at its first second; a clock that is set does not show them.)

  \<open>parseRFC3339\<close> reads back a text in the UTC form and nothing else; it is the reference against which
  the printer is verified.
\<close>

record time =
  nanos :: nat
  zone :: int

definition UTC :: "time \<Rightarrow> time" where
  "UTC t = t\<lparr>zone := 0\<rparr>"

abbreviation utc :: "nat \<Rightarrow> time" where
  "utc n \<equiv> \<lparr>nanos = n, zone = 0\<rparr>"

definition nsPerSec :: nat where
  "nsPerSec = 1000000000"

definition leap :: "nat \<Rightarrow> bool" where
  "leap y \<longleftrightarrow> y mod 4 = 0 \<and> (y mod 100 \<noteq> 0 \<or> y mod 400 = 0)"

definition year_len :: "nat \<Rightarrow> nat" where
  "year_len y = (if leap y then 366 else 365)"

definition month_lens :: "nat \<Rightarrow> nat list" where
  "month_lens y = [31, if leap y then 29 else 28, 31, 30, 31, 30, 31, 31, 30, 31, 30, 31]"

text \<open>The year of a day count from January 1st of year \<open>y\<close>, and the day within that year.\<close>

function year_of :: "nat \<Rightarrow> nat \<Rightarrow> nat \<times> nat" where
  "year_of y d = (if d < year_len y then (y, d) else year_of (Suc y) (d - year_len y))"
  by pat_completeness auto
termination
  by (relation "measure snd") (auto simp: year_len_def split: if_splits)

declare year_of.simps [simp del]

fun month_of :: "nat list \<Rightarrow> nat \<Rightarrow> nat \<Rightarrow> nat \<times> nat" where
  "month_of [] m d = (m, d)"
| "month_of (l # ls) m d = (if d < l then (m, d) else month_of ls (Suc m) (d - l))"

record civil =
  year :: nat
  month :: nat
  day :: nat
  hour :: nat
  minute :: nat
  second :: nat

definition civil_of :: "nat \<Rightarrow> civil" where
  "civil_of secs =
     (let sod = secs mod 86400;
          (y, yd) = year_of 1970 (secs div 86400);
          (m, md) = month_of (month_lens y) 1 yd
      in \<lparr>year = y, month = m, day = Suc md,
          hour = sod div 3600, minute = sod mod 3600 div 60, second = sod mod 60\<rparr>)"

text \<open>Zero padding to a width, as the layout's elements do.\<close>

definition pad :: "nat \<Rightarrow> nat \<Rightarrow> string" where
  "pad w n = replicate (w - length (itoa n)) CHR ''0'' @ itoa n"

definition print_civil :: "civil \<Rightarrow> string" where
  "print_civil c = pad 4 (year c) @ ''-'' @ pad 2 (month c) @ ''-'' @ pad 2 (day c) @ ''T'' @
     pad 2 (hour c) @ '':'' @ pad 2 (minute c) @ '':'' @ pad 2 (second c)"

definition print_zone :: "int \<Rightarrow> string" where
  "print_zone z =
     (if z = 0 then ''Z''
      else (if z \<le> - 60 then ''-'' else ''+'') @
           (let m = nat \<bar>z\<bar> div 60 in pad 2 (m div 60) @ '':'' @ pad 2 (m mod 60)))"

definition local_secs :: "time \<Rightarrow> nat" where
  "local_secs t = nat (int (nanos t div nsPerSec) + zone t)"

definition formatRFC3339 :: "time \<Rightarrow> string" where
  "formatRFC3339 t = print_civil (civil_of (local_secs t)) @ print_zone (zone t)"

subsection \<open>The reference reader\<close>

definition days_before_year :: "nat \<Rightarrow> nat" where
  "days_before_year y = (\<Sum>k = 1970..<y. year_len k)"

definition secs_of_civil :: "civil \<Rightarrow> nat" where
  "secs_of_civil c =
     (days_before_year (year c) + sum_list (take (month c - 1) (month_lens (year c))) + (day c - 1))
        * 86400 + hour c * 3600 + minute c * 60 + second c"

definition parse_civil :: "string \<Rightarrow> civil" where
  "parse_civil s =
     \<lparr>year = atoi_nat (take 4 s), month = atoi_nat (take 2 (drop 5 s)),
      day = atoi_nat (take 2 (drop 8 s)), hour = atoi_nat (take 2 (drop 11 s)),
      minute = atoi_nat (take 2 (drop 14 s)), second = atoi_nat (take 2 (drop 17 s))\<rparr>"

definition is_digit :: "char \<Rightarrow> bool" where
  "is_digit c \<longleftrightarrow> 48 \<le> (of_char c :: nat) \<and> (of_char c :: nat) \<le> 57"

definition rfc3339_form :: "string \<Rightarrow> bool" where
  "rfc3339_form s \<longleftrightarrow> map (\<lambda>c. if is_digit c then CHR ''0'' else c) s = ''0000-00-00T00:00:00Z''"

definition civil_ok :: "civil \<Rightarrow> bool" where
  "civil_ok c \<longleftrightarrow> 1970 \<le> year c \<and> 1 \<le> month c \<and> month c \<le> 12 \<and>
     1 \<le> day c \<and> day c \<le> month_lens (year c) ! (month c - 1) \<and> hour c < 24 \<and> minute c < 60 \<and> second c < 60"

definition parseRFC3339 :: "string \<Rightarrow> nat option" where
  "parseRFC3339 s =
     (if rfc3339_form s \<and> civil_ok (parse_civil s) then Some (secs_of_civil (parse_civil s)) else None)"

subsection \<open>Padding\<close>

lemma atoi_nat_zeros: "atoi_nat (replicate k CHR ''0'' @ s) = atoi_nat s"
  by (induction k) (simp_all add: atoi_nat_def)

lemma atoi_pad [simp]: "atoi_nat (pad w n) = n"
  by (simp add: pad_def atoi_nat_zeros)

lemma length_itoa_le: "n < 10 ^ k \<Longrightarrow> 0 < k \<Longrightarrow> length (itoa n) \<le> k"
proof (induction n arbitrary: k rule: itoa.induct)
  case (1 n)
  show ?case
  proof (cases "n < 10")
    case True
    with 1 show ?thesis by (simp add: itoa.simps [of n])
  next
    case False
    from "1.prems" obtain j where k: "k = Suc j" by (cases k) simp_all
    with False "1.prems" have "0 < j" by (cases j) simp_all
    from k "1.prems" have "n div 10 < 10 ^ j" by (simp add: less_mult_imp_div_less mult.commute)
    with False \<open>0 < j\<close> k "1.IH" show ?thesis by (simp add: itoa.simps [of n])
  qed
qed

lemma length_pad: "n < 10 ^ w \<Longrightarrow> 0 < w \<Longrightarrow> length (pad w n) = w"
  using length_itoa_le [of n w] by (simp add: pad_def)

lemma length_pad4 [simp]: "n < 10000 \<Longrightarrow> length (pad 4 n) = 4"
  by (rule length_pad) simp_all

lemma length_pad2 [simp]: "n < 100 \<Longrightarrow> length (pad 2 n) = 2"
  by (rule length_pad) simp_all

lemma is_digit_char [simp]: "d < 10 \<Longrightarrow> is_digit (digit_char d)"
  by (simp add: is_digit_def)

lemma itoa_digits: "c \<in> set (itoa n) \<Longrightarrow> is_digit c"
proof (induction n rule: itoa.induct)
  case (1 n)
  then show ?case by (cases "n < 10") (auto simp: itoa.simps [of n])
qed

lemma form_pad: "n < 10 ^ w \<Longrightarrow> 0 < w \<Longrightarrow>
    map (\<lambda>c. if is_digit c then CHR ''0'' else c) (pad w n) = replicate w CHR ''0''"
proof -
  assume n: "n < 10 ^ w" "0 < w"
  have "is_digit CHR ''0''" by (simp add: is_digit_def)
  then have "map (\<lambda>c. if is_digit c then CHR ''0'' else c) (pad w n) = map (\<lambda>c. CHR ''0'') (pad w n)"
    by (auto simp: pad_def dest: itoa_digits)
  then show ?thesis using length_pad [OF n] by (simp add: map_replicate_const)
qed

lemma separators:
  "\<not> is_digit CHR ''-''" "\<not> is_digit CHR ''T''" "\<not> is_digit CHR '':''" "\<not> is_digit CHR ''Z''"
  by (simp_all add: is_digit_def)

lemma form_pads [simp]:
  "n < 10000 \<Longrightarrow> map (\<lambda>c. if is_digit c then CHR ''0'' else c) (pad 4 n) = ''0000''"
  "n < 100 \<Longrightarrow> map (\<lambda>c. if is_digit c then CHR ''0'' else c) (pad 2 n) = ''00''"
proof -
  have r: "replicate 4 CHR ''0'' = ''0000''" "replicate 2 CHR ''0'' = ''00''" by (simp_all add: numeral_eq_Suc)
  show "n < 10000 \<Longrightarrow> map (\<lambda>c. if is_digit c then CHR ''0'' else c) (pad 4 n) = ''0000''"
    using form_pad [of n 4] by (simp only: r) simp
  show "n < 100 \<Longrightarrow> map (\<lambda>c. if is_digit c then CHR ''0'' else c) (pad 2 n) = ''00''"
    using form_pad [of n 2] by (simp only: r) simp
qed

lemma UTC_sel [simp]: "nanos (UTC t) = nanos t" "zone (UTC t) = 0" "UTC (UTC t) = UTC t"
  by (simp_all add: UTC_def)

lemma UTC_utc [simp]: "UTC (utc n) = utc n"
  by (simp add: UTC_def)

subsection \<open>The calendar\<close>

lemma sum_month_lens: "sum_list (month_lens y) = year_len y"
  by (simp add: month_lens_def year_len_def)

lemma length_month_lens [simp]: "length (month_lens y) = 12"
  by (simp add: month_lens_def)

lemma year_of_days:
  "year_of y d = (y', d') \<Longrightarrow>
     y \<le> y' \<and> d' < year_len y' \<and> (\<Sum>k = y..<y'. year_len k) + d' = d"
proof (induction y d rule: year_of.induct)
  case (1 y d)
  show ?case
  proof (cases "d < year_len y")
    case True
    with "1.prems" show ?thesis by (simp add: year_of.simps [of y d])
  next
    case False
    with "1.prems" have "year_of (Suc y) (d - year_len y) = (y', d')"
      by (simp add: year_of.simps [of y d])
    with False "1.IH" have "Suc y \<le> y'" "d' < year_len y'"
      and "(\<Sum>k = Suc y..<y'. year_len k) + d' = d - year_len y" by auto
    with False show ?thesis by (simp add: sum.atLeast_Suc_lessThan)
  qed
qed

lemma month_of_days:
  "month_of ls m d = (m', d') \<Longrightarrow> d < sum_list ls \<Longrightarrow>
     m \<le> m' \<and> m' < m + length ls \<and> d' < ls ! (m' - m) \<and> sum_list (take (m' - m) ls) + d' = d"
proof (induction ls m d rule: month_of.induct)
  case (1 m d)
  then show ?case by simp
next
  case (2 l ls m d)
  show ?case
  proof (cases "d < l")
    case True
    with "2.prems" show ?thesis by auto
  next
    case False
    with "2.prems" have "month_of ls (Suc m) (d - l) = (m', d')" and "d - l < sum_list ls" by auto
    with False "2.IH" have IH: "Suc m \<le> m'" "m' < Suc m + length ls" "d' < ls ! (m' - Suc m)"
      "sum_list (take (m' - Suc m) ls) + d' = d - l" by auto
    from IH(1) have "m' - m = Suc (m' - Suc m)" by simp
    with False IH show ?thesis by simp
  qed
qed

lemma month_lens_le: "i < 12 \<Longrightarrow> month_lens y ! i \<le> 31"
proof -
  assume "i < 12"
  then have "month_lens y ! i \<in> set (month_lens y)" by simp
  moreover have "\<forall>l \<in> set (month_lens y). l \<le> 31" by (simp add: month_lens_def)
  ultimately show ?thesis by blast
qed

lemma clock_split: "x div 3600 * 3600 + x mod 3600 div 60 * 60 + x mod 60 = (x :: nat)"
proof -
  have "x mod 60 = x mod 3600 mod 60" by (simp add: mod_mod_cancel)
  then have "x mod 3600 div 60 * 60 + x mod 60 = x mod 3600" by (metis div_mult_mod_eq)
  then show ?thesis by (simp add: add.assoc)
qed

lemma civil_of_fields:
  fixes secs :: nat
  defines "c \<equiv> civil_of secs"
  shows civil_of_ok: "civil_ok c" and civil_of_day: "day c \<le> 31"
    and secs_of_civil_of: "secs_of_civil c = secs"
proof -
  obtain y yd where y: "year_of 1970 (secs div 86400) = (y, yd)" by fastforce
  obtain m md where m: "month_of (month_lens y) 1 yd = (m, md)" by fastforce
  from year_of_days [OF y] have yd: "yd < year_len y" and y70: "1970 \<le> y"
    and ysum: "(\<Sum>k = 1970..<y. year_len k) + yd = secs div 86400" by auto
  from month_of_days [OF m] yd have md: "1 \<le> m" "m \<le> 12" "md < month_lens y ! (m - 1)"
    and msum: "sum_list (take (m - 1) (month_lens y)) + md = yd"
    by (auto simp: sum_month_lens)
  have c: "c = \<lparr>year = y, month = m, day = Suc md, hour = secs mod 86400 div 3600,
      minute = secs mod 86400 mod 3600 div 60, second = secs mod 86400 mod 60\<rparr>"
    using m by (simp add: c_def civil_of_def Let_def y)
  from md have "m - 1 < 12" by simp
  then have "month_lens y ! (m - 1) \<le> 31" by (rule month_lens_le)
  with md show "day c \<le> 31" by (simp add: c)
  show "civil_ok c" using md y70 by (simp add: c civil_ok_def less_mult_imp_div_less)
  have "days_before_year y + sum_list (take (m - 1) (month_lens y)) + md = secs div 86400"
    using ysum msum by (simp add: days_before_year_def)
  moreover have "secs mod 86400 div 3600 * 3600 + secs mod 86400 mod 3600 div 60 * 60 + secs mod 86400 mod 60
      = secs mod 86400" by (rule clock_split)
  ultimately show "secs_of_civil c = secs"
    using div_mult_mod_eq [of secs 86400]
    by (simp only: c secs_of_civil_def civil.simps diff_Suc_1 add.assoc)
qed

subsection \<open>Reading back what the layout prints\<close>

lemma take_drop_field: "length xs = n \<Longrightarrow> length ys = k \<Longrightarrow> take k (drop n (xs @ ys @ zs)) = ys"
  by simp

lemma parse_print_civil:
  assumes "year c < 10000" "month c < 100" "day c < 100" "hour c < 100" "minute c < 100" "second c < 100"
  shows "parse_civil (print_civil c @ ''Z'') = c" and "length (print_civil c @ ''Z'') = 20"
    and "rfc3339_form (print_civil c @ ''Z'')"
  using assms by (simp_all add: parse_civil_def print_civil_def rfc3339_form_def separators)

lemma formatRFC3339_UTC:
  assumes "year (civil_of (nanos t div nsPerSec)) < 10000"
  shows "parseRFC3339 (formatRFC3339 (UTC t)) = Some (nanos t div nsPerSec)"
    and "length (formatRFC3339 (UTC t)) = 20"
proof -
  let ?c = "civil_of (nanos t div nsPerSec)"
  have ok: "civil_ok ?c" by (rule civil_of_ok)
  then have small: "month ?c < 100" "day ?c < 100" "hour ?c < 100" "minute ?c < 100" "second ?c < 100"
    using civil_of_day [of "nanos t div nsPerSec"] by (auto simp: civil_ok_def)
  have f: "formatRFC3339 (UTC t) = print_civil ?c @ ''Z''"
    by (simp add: formatRFC3339_def local_secs_def print_zone_def)
  show "parseRFC3339 (formatRFC3339 (UTC t)) = Some (nanos t div nsPerSec)"
    unfolding f parseRFC3339_def by (simp add: parse_print_civil assms small ok secs_of_civil_of)
  show "length (formatRFC3339 (UTC t)) = 20"
    unfolding f using parse_print_civil(2) [OF assms small] .
qed

end
