(* ===== verification/Lock_Table.thy ===== *)
theory Lock_Table
  imports Go_Time
begin

text \<open>
  The lock record that both servers store, and the contract of a lock store: what
  \<^verbatim>\<open>acquire\<close>, \<^verbatim>\<open>release\<close> and \<^verbatim>\<open>list\<close> promise to the HTTP handlers, in terms of the table of held
  locks (\<^verbatim>\<open>spec.md\<close>: a lock is held by at most one lockee; a lockee may lock again what it holds;
  \<open>force\<close> takes a lock over; only the holder releases).

  The locale \<open>lock_store\<close> is that contract. A store is a state with an invariant and a table; its
  operations return \<^const>\<open>None\<close> where the Go code would panic, which the contract rules out. It is
  interpreted by the single-map store (\<open>Go_Inmemory\<close>) and by the sharded store (\<open>Go_Sharded\<close>).
\<close>

record Lock =
  Key :: string
  Lockee :: string
  Since :: time

type_synonym lock_table = "string \<rightharpoonup> Lock"

definition holder :: "lock_table \<Rightarrow> string \<Rightarrow> string option" where
  "holder T k = map_option Lockee (T k)"

definition may_lock :: "lock_table \<Rightarrow> string \<Rightarrow> string \<Rightarrow> bool \<Rightarrow> bool" where
  "may_lock T k w force = (case holder T k of None \<Rightarrow> True | Some h \<Rightarrow> h = w \<or> force)"

text \<open>The table after a request to lock \<open>k\<close>, and the status of a request to release it.\<close>

definition lock_entry :: "lock_table \<Rightarrow> string \<Rightarrow> string \<Rightarrow> bool \<Rightarrow> time \<Rightarrow> lock_table" where
  "lock_entry T k w force now =
     (if may_lock T k w force \<and> holder T k \<noteq> Some w
      then T(k \<mapsto> \<lparr>Key = k, Lockee = w, Since = UTC now\<rparr>) else T)"

definition release_status :: "lock_table \<Rightarrow> string \<Rightarrow> string \<Rightarrow> nat" where
  "release_status T k w =
     (case holder T k of
        None \<Rightarrow> StatusNotFound
      | Some h \<Rightarrow> if h = w then StatusOK else StatusForbidden)"

definition release_msg :: "nat \<Rightarrow> string" where
  "release_msg status =
     (if status = StatusNotFound then ''not found''
      else if status = StatusForbidden then ''lockee mismatch'' else [])"

definition release_entry :: "lock_table \<Rightarrow> string \<Rightarrow> string \<Rightarrow> lock_table" where
  "release_entry T k w = (if holder T k = Some w then T(k := None) else T)"

locale lock_store =
  fixes tbl :: "'s \<Rightarrow> lock_table"
    and inv :: "'s \<Rightarrow> bool"
    and acq :: "'s \<Rightarrow> string \<Rightarrow> string \<Rightarrow> bool \<Rightarrow> time \<Rightarrow> ('s \<times> Lock \<times> bool) option"
    and rel :: "'s \<Rightarrow> string \<Rightarrow> string \<Rightarrow> ('s \<times> nat \<times> string) option"
    and lst :: "'s \<Rightarrow> 'o \<Rightarrow> Lock list"
    and ord_ok :: "'s \<Rightarrow> 'o \<Rightarrow> bool"
  assumes tbl_key: "inv s \<Longrightarrow> tbl s k = Some l \<Longrightarrow> Key l = k"
    and acq_returns: "inv s \<Longrightarrow> \<exists>s' l.
          acq s k w force now = Some (s', l, may_lock (tbl s) k w force) \<and> inv s' \<and>
          tbl s' = lock_entry (tbl s) k w force now \<and> tbl s' k = Some l"
    and rel_returns: "inv s \<Longrightarrow> \<exists>s'.
          rel s k w = Some (s', release_status (tbl s) k w, release_msg (release_status (tbl s) k w)) \<and>
          inv s' \<and> tbl s' = release_entry (tbl s) k w"
    and lst_set: "inv s \<Longrightarrow> ord_ok s ord \<Longrightarrow> set (lst s ord) = ran (tbl s)"
    and lst_distinct: "inv s \<Longrightarrow> ord_ok s ord \<Longrightarrow> distinct (map Key (lst s ord))"

subsection \<open>The table\<close>

lemma holder_simps [simp]:
  "holder (T(k \<mapsto> l)) k' = (if k' = k then Some (Lockee l) else holder T k')"
  "holder (T(k := None)) k' = (if k' = k then None else holder T k')"
  by (simp_all add: holder_def)

lemma holder_None [simp]: "holder T k = None \<longleftrightarrow> T k = None"
  by (simp add: holder_def)

lemma holder_eq_Some: "holder T k = Some h \<longleftrightarrow> (\<exists>l. T k = Some l \<and> Lockee l = h)"
  by (auto simp: holder_def)

lemma holder_lock_entry:
  "holder (lock_entry T k w force now) k' =
     (if k' = k \<and> may_lock T k w force then Some w else holder T k')"
  by (auto simp: lock_entry_def)

lemma holder_release_entry:
  "holder (release_entry T k w) k' = (if k' = k \<and> holder T k = Some w then None else holder T k')"
  by (auto simp: release_entry_def)

text \<open>A lock request never disturbs other keys, and keeps the stamp of a lock its holder re-locks.\<close>

lemma lock_entry_other: "k' \<noteq> k \<Longrightarrow> lock_entry T k w force now k' = T k'"
  by (simp add: lock_entry_def)

lemma lock_entry_again: "holder T k = Some w \<Longrightarrow> lock_entry T k w force now = T"
  by (simp add: lock_entry_def)

lemma release_entry_other: "k' \<noteq> k \<Longrightarrow> release_entry T k w k' = T k'"
  by (simp add: release_entry_def)

lemma may_lock_simps [simp]:
  "T k = None \<Longrightarrow> may_lock T k w force"
  "holder T k = Some w \<Longrightarrow> may_lock T k w force"
  "may_lock T k w True"
  "holder T k = Some h \<Longrightarrow> may_lock T k w force \<longleftrightarrow> h = w \<or> force"
  by (auto simp: may_lock_def holder_def split: option.split)

context lock_store
begin

lemma acqE:
  assumes "inv s"
  obtains s' l where "acq s k w force now = Some (s', l, may_lock (tbl s) k w force)" "inv s'"
    "tbl s' = lock_entry (tbl s) k w force now" "tbl s' k = Some l"
  using acq_returns [OF assms] by blast

lemma relE:
  assumes "inv s"
  obtains s' where
    "rel s k w = Some (s', release_status (tbl s) k w, release_msg (release_status (tbl s) k w))"
    "inv s'" "tbl s' = release_entry (tbl s) k w"
  using rel_returns [OF assms] by blast

text \<open>The lock that \<open>acquire\<close> returns is the one now in the table, under the requested key.\<close>

lemma acq_lock_fields:
  assumes "inv s" and "acq s k w force now = Some (s', l, ok)"
  shows "Key l = k" and "holder (tbl s') k = Some (Lockee l)" and "ok \<Longrightarrow> Lockee l = w"
proof -
  obtain s'' l'' where *: "acq s k w force now = Some (s'', l'', may_lock (tbl s) k w force)" "inv s''"
    "tbl s'' = lock_entry (tbl s) k w force now" "tbl s'' k = Some l''"
    by (rule acqE [OF assms(1)])
  then have eqs: "s'' = s'" "l'' = l" "ok = may_lock (tbl s) k w force" using assms(2) by simp_all
  show "Key l = k" using * eqs tbl_key by simp
  show hold: "holder (tbl s') k = Some (Lockee l)" using * eqs by (simp add: holder_eq_Some)
  show "ok \<Longrightarrow> Lockee l = w" using hold * eqs by (simp add: holder_lock_entry)
qed

end

end
