(* ===== verification/Go_Json.thy ===== *)
theory Go_Json
  imports Prelude
begin

text \<open>
  JSON values, and how \<^verbatim>\<open>encoding/json\<close> stores a value into a struct: the two lock servers
  decode their request bodies with it, the benchmark runner its responses and manifests.

  A member name selects the struct field with exactly that tag, otherwise the first field whose tag
  is equal under case folding (\<open>foldName\<close>); a member that selects no field is ignored; \<open>null\<close> leaves
  a field as it is; a value of another kind than the field's is an error, reported after the whole
  object has been read; members are taken in order, so the last of several for one field wins.
  A \<^verbatim>\<open>json.Number\<close> literal is kept as its text.

  A message body is classified by what the decoder finds in it: nothing, text that does not start
  with a JSON value, or a first value and the bytes that follow it. \<^verbatim>\<open>Decoder.Decode\<close> takes the
  first value of the stream; \<^verbatim>\<open>json.Unmarshal\<close> also insists that nothing follows.
\<close>

datatype json =
    JNull
  | JBool bool
  | JNum string
  | JStr string
  | JArr "json list"
  | JObj "(string \<times> json) list"

datatype body = Empty | Text string | Json json string

definition decode_stream :: "body \<Rightarrow> json option" where
  "decode_stream b = (case b of Json v _ \<Rightarrow> Some v | _ \<Rightarrow> None)"

definition unmarshal :: "body \<Rightarrow> json option" where
  "unmarshal b = (case b of Json v rest \<Rightarrow> (if rest = [] then Some v else None) | _ \<Rightarrow> None)"

subsection \<open>Field names\<close>

text \<open>
  \<open>foldName\<close> maps ASCII lower case letters to upper case, and the two other code points that fold
  to an ASCII letter: U+212A (KELVIN SIGN, bytes E2 84 AA) and U+017F (LONG S, bytes C5 BF). Other
  bytes are kept: they cannot make a name equal to one of the ASCII tags used here.
\<close>

definition fold_byte :: "char \<Rightarrow> char" where
  "fold_byte c = (if 97 \<le> (of_char c :: nat) \<and> (of_char c :: nat) \<le> 122
                  then char_of (of_char c - 32 :: nat) else c)"

function (sequential) foldName :: "string \<Rightarrow> string" where
  "foldName [] = []"
| "foldName (c # cs) =
     (if c = CHR 0xE2 \<and> take 2 cs = [CHR 0x84, CHR 0xAA] then CHR ''K'' # foldName (drop 2 cs)
      else if c = CHR 0xC5 \<and> take 1 cs = [CHR 0xBF] then CHR ''S'' # foldName (drop 1 cs)
      else fold_byte c # foldName cs)"
  by pat_completeness auto
termination
  by (relation "measure length") auto

definition field_of :: "string list \<Rightarrow> string \<Rightarrow> string option" where
  "field_of tags name =
     (if name \<in> set tags then Some name else find (\<lambda>t. foldName t = foldName name) tags)"

subsection \<open>Storing values into fields\<close>

text \<open>A setter returns the struct after the store and whether the value was of the field's kind.\<close>

definition set_string :: "(string \<Rightarrow> 'r) \<Rightarrow> 'r \<Rightarrow> json \<Rightarrow> 'r \<times> bool" where
  "set_string upd r v = (case v of JStr s \<Rightarrow> (upd s, True) | JNull \<Rightarrow> (r, True) | _ \<Rightarrow> (r, False))"

definition set_bool :: "(bool \<Rightarrow> 'r) \<Rightarrow> 'r \<Rightarrow> json \<Rightarrow> 'r \<times> bool" where
  "set_bool upd r v = (case v of JBool b \<Rightarrow> (upd b, True) | JNull \<Rightarrow> (r, True) | _ \<Rightarrow> (r, False))"

fun decode_members ::
  "string list \<Rightarrow> (string \<Rightarrow> 'r \<Rightarrow> json \<Rightarrow> 'r \<times> bool) \<Rightarrow> (string \<times> json) list \<Rightarrow> 'r \<Rightarrow> 'r \<times> bool" where
  "decode_members tags setf [] r = (r, True)"
| "decode_members tags setf ((k, v) # ms) r =
     (case field_of tags k of
        None \<Rightarrow> decode_members tags setf ms r
      | Some t \<Rightarrow>
          (let (r1, ok) = setf t r v; (r2, oks) = decode_members tags setf ms r1
           in (r2, ok \<and> oks)))"

definition decode_struct ::
  "string list \<Rightarrow> (string \<Rightarrow> 'r \<Rightarrow> json \<Rightarrow> 'r \<times> bool) \<Rightarrow> 'r \<Rightarrow> json \<Rightarrow> 'r \<times> bool" where
  "decode_struct tags setf r v =
     (case v of JObj ms \<Rightarrow> decode_members tags setf ms r | JNull \<Rightarrow> (r, True) | _ \<Rightarrow> (r, False))"

fun decode_elems :: "('r \<Rightarrow> json \<Rightarrow> 'r \<times> bool) \<Rightarrow> 'r \<Rightarrow> json list \<Rightarrow> 'r list \<times> bool" where
  "decode_elems dec z [] = ([], True)"
| "decode_elems dec z (v # vs) =
     (let (r, ok) = dec z v; (rs, oks) = decode_elems dec z vs in (r # rs, ok \<and> oks))"

definition set_slice ::
  "('e \<Rightarrow> json \<Rightarrow> 'e \<times> bool) \<Rightarrow> 'e \<Rightarrow> ('e list \<Rightarrow> 'r) \<Rightarrow> 'r \<Rightarrow> json \<Rightarrow> 'r \<times> bool" where
  "set_slice dec z upd r v =
     (case v of
        JArr vs \<Rightarrow> (let (es, ok) = decode_elems dec z vs in (upd es, ok))
      | JNull \<Rightarrow> (upd [], True)
      | _ \<Rightarrow> (r, False))"

definition checked :: "'r \<times> bool \<Rightarrow> 'r option" where
  "checked p = (if snd p then Some (fst p) else None)"

subsection \<open>Evaluation rules\<close>

lemma field_of_tag [http_simps]: "name \<in> set tags \<Longrightarrow> field_of tags name = Some name"
  by (simp add: field_of_def)

lemma decode_stream_simps [http_simps]:
  "decode_stream Empty = None" "decode_stream (Text s) = None" "decode_stream (Json v r) = Some v"
  by (simp_all add: decode_stream_def)

lemma unmarshal_simps [http_simps]:
  "unmarshal Empty = None" "unmarshal (Text s) = None" "unmarshal (Json v []) = Some v"
  by (simp_all add: unmarshal_def)

lemma decode_struct_JObj [http_simps]:
  "decode_struct tags setf r (JObj ms) = decode_members tags setf ms r"
  by (simp add: decode_struct_def)

lemma set_string_simps [http_simps]:
  "set_string upd r (JStr s) = (upd s, True)" "set_string upd r JNull = (r, True)"
  by (simp_all add: set_string_def)

lemma set_bool_simps [http_simps]:
  "set_bool upd r (JBool b) = (upd b, True)" "set_bool upd r JNull = (r, True)"
  by (simp_all add: set_bool_def)

lemma checked_simps [http_simps]: "checked (r, True) = Some r" "checked (r, False) = None"
  by (simp_all add: checked_def)

lemma decode_elems_map:
  "(\<And>x. x \<in> set xs \<Longrightarrow> dec z (f x) = (g x, True)) \<Longrightarrow>
     decode_elems dec z (map f xs) = (map g xs, True)"
  by (induction xs) auto

text \<open>Folding ignores the case of a member name: the tag selected is the same for both spellings.\<close>

lemma foldName_Cons_ascii:
  "of_char c < (128 :: nat) \<Longrightarrow> foldName (c # cs) = fold_byte c # foldName cs"
  by auto

end
