(* ===== verification/Go_Http.thy ===== *)
theory Go_Http
  imports Go_Json
begin

text \<open>
  Requests, responses and routing as the servers use them from \<^verbatim>\<open>net/http\<close>. A request is its
  method, its path (already in the clean form \<^verbatim>\<open>ServeMux\<close> redirects to) and its body; a response is
  what a handler writes: the status, the content type (empty when none is set) and the body.

  \<^verbatim>\<open>ServeMux\<close> picks the handler whose pattern names the request's path and method; a \<^verbatim>\<open>GET\<close> pattern
  also takes \<^verbatim>\<open>HEAD\<close>. A path that only patterns of other methods name is answered 405, an unknown
  path 404.
\<close>

record http_request =
  Method :: string
  Path :: string
  ReqBody :: body

record http_response =
  StatusCode :: nat
  ContentType :: string
  RespBody :: body

definition http_Error :: "string \<Rightarrow> nat \<Rightarrow> http_response" where
  "http_Error msg code =
     \<lparr>StatusCode = code, ContentType = ''text/plain; charset=utf-8'', RespBody = Text (msg @ [CHR 0x0A])\<rparr>"

definition writeHeader :: "nat \<Rightarrow> http_response" where
  "writeHeader code = \<lparr>StatusCode = code, ContentType = [], RespBody = Empty\<rparr>"

definition method_matches :: "string \<Rightarrow> string \<Rightarrow> bool" where
  "method_matches pat m \<longleftrightarrow> m = pat \<or> pat = ''GET'' \<and> m = ''HEAD''"

type_synonym 'h route = "string \<times> string \<times> 'h"

definition mux_find :: "'h route list \<Rightarrow> http_request \<Rightarrow> http_response + 'h" where
  "mux_find routes r =
     (case find (\<lambda>(m, p, h). p = Path r \<and> method_matches m (Method r)) routes of
        Some (_, _, h) \<Rightarrow> Inr h
      | None \<Rightarrow>
          Inl (if list_ex (\<lambda>(m, p, h). p = Path r) routes
               then http_Error ''Method Not Allowed'' StatusMethodNotAllowed
               else http_Error ''404 page not found'' StatusNotFound))"

lemma http_Error_sel [simp]:
  "StatusCode (http_Error msg code) = code" "RespBody (http_Error msg code) = Text (msg @ [CHR 0x0A])"
  by (simp_all add: http_Error_def)

lemma writeHeader_sel [simp]:
  "StatusCode (writeHeader code) = code" "RespBody (writeHeader code) = Empty"
  by (simp_all add: writeHeader_def)

lemma mux_find_Cons [http_simps]:
  "mux_find ((m, p, h) # routes) r =
     (if p = Path r \<and> method_matches m (Method r) then Inr h
      else case mux_find routes r of
             Inr h' \<Rightarrow> Inr h'
           | Inl resp \<Rightarrow> if p = Path r then Inl (http_Error ''Method Not Allowed'' StatusMethodNotAllowed)
                        else Inl resp)"
  by (simp add: mux_find_def split: option.split)

lemma mux_find_Nil [http_simps]:
  "mux_find [] r = Inl (http_Error ''404 page not found'' StatusNotFound)"
  by (simp add: mux_find_def)

end
