(* ===== verification/Lock_Server.thy ===== *)
theory Lock_Server
  imports Lock_Table Go_Http
begin

text \<open>
  The HTTP handlers of the lock servers. \<^verbatim>\<open>solutions/go-inmemory/main.go\<close> and
  \<^verbatim>\<open>solutions/go-sharded/main.go\<close> register the same four handlers over their own stores, so the
  handlers are defined once over the store's operations (\<open>acq\<close>, \<open>rel\<close>, \<open>lst\<close>) and instantiated
  with each store in its theory. A handler maps the store and a request to the new store and what is
  written to the \<^verbatim>\<open>ResponseWriter\<close>; \<^const>\<open>None\<close> is a panic. The clock reading and the map iteration
  order that a call meets are arguments.

  The second half states what a client of the service sees, over the table of held locks alone
  (\<open>spec_table\<close>, \<open>answers\<close>, after \<^verbatim>\<open>spec.md\<close>), and proves in the context of \<open>lock_store\<close> that
  the handlers implement it for every store that keeps the contract.
\<close>

subsection \<open>Request and response bodies\<close>

record lock_req =
  req_Key :: string
  req_Lockee :: string
  req_Force :: bool

definition lock_req_set :: "string \<Rightarrow> lock_req \<Rightarrow> json \<Rightarrow> lock_req \<times> bool" where
  "lock_req_set tag r v =
     (if tag = ''key'' then set_string (\<lambda>s. r\<lparr>req_Key := s\<rparr>) r v
      else if tag = ''lockee'' then set_string (\<lambda>s. r\<lparr>req_Lockee := s\<rparr>) r v
      else set_bool (\<lambda>b. r\<lparr>req_Force := b\<rparr>) r v)"

definition decode_lock_req :: "body \<Rightarrow> lock_req option" where
  "decode_lock_req b =
     Option.bind (decode_stream b)
       (\<lambda>v. checked (decode_struct [''key'', ''lockee'', ''force''] lock_req_set
               \<lparr>req_Key = [], req_Lockee = [], req_Force = False\<rparr> v))"

record unlock_req =
  ureq_Key :: string
  ureq_Lockee :: string

definition unlock_req_set :: "string \<Rightarrow> unlock_req \<Rightarrow> json \<Rightarrow> unlock_req \<times> bool" where
  "unlock_req_set tag r v =
     (if tag = ''key'' then set_string (\<lambda>s. r\<lparr>ureq_Key := s\<rparr>) r v
      else set_string (\<lambda>s. r\<lparr>ureq_Lockee := s\<rparr>) r v)"

definition decode_unlock_req :: "body \<Rightarrow> unlock_req option" where
  "decode_unlock_req b =
     Option.bind (decode_stream b)
       (\<lambda>v. checked (decode_struct [''key'', ''lockee''] unlock_req_set
               \<lparr>ureq_Key = [], ureq_Lockee = []\<rparr> v))"

record lockOKResp =
  ok_Locked :: bool
  ok_Key :: string
  ok_Lockee :: string

definition json_lockOKResp :: "lockOKResp \<Rightarrow> json" where
  "json_lockOKResp x =
     JObj [(''locked'', JBool (ok_Locked x)), (''key'', JStr (ok_Key x)), (''lockee'', JStr (ok_Lockee x))]"

record lockConflictResp =
  cf_Locked :: bool
  cf_Key :: string
  cf_CurrentLockee :: string

definition json_lockConflictResp :: "lockConflictResp \<Rightarrow> json" where
  "json_lockConflictResp x =
     JObj [(''locked'', JBool (cf_Locked x)), (''key'', JStr (cf_Key x)),
           (''currentLockee'', JStr (cf_CurrentLockee x))]"

record lockListEntry =
  le_Key :: string
  le_Lockee :: string
  le_Since :: string

definition json_lockListEntry :: "lockListEntry \<Rightarrow> json" where
  "json_lockListEntry x =
     JObj [(''key'', JStr (le_Key x)), (''lockee'', JStr (le_Lockee x)), (''since'', JStr (le_Since x))]"

record lockListResp =
  lr_Locks :: "lockListEntry list"

definition json_lockListResp :: "lockListResp \<Rightarrow> json" where
  "json_lockListResp x = JObj [(''locks'', JArr (map json_lockListEntry (lr_Locks x)))]"

definition writeJSON :: "nat \<Rightarrow> json \<Rightarrow> http_response" where
  "writeJSON status v =
     \<lparr>StatusCode = status, ContentType = ''application/json'', RespBody = Json v []\<rparr>"

subsection \<open>The handlers\<close>

definition handle_healthz :: "'s \<Rightarrow> ('s \<times> http_response) option" where
  "handle_healthz s = Some (s, writeJSON StatusOK (JObj [(''status'', JStr ''ok'')]))"

definition handle_lock ::
  "('s \<Rightarrow> string \<Rightarrow> string \<Rightarrow> bool \<Rightarrow> time \<Rightarrow> ('s \<times> Lock \<times> bool) option) \<Rightarrow>
   time \<Rightarrow> 's \<Rightarrow> http_request \<Rightarrow> ('s \<times> http_response) option" where
  "handle_lock acq now s r =
     (case decode_lock_req (ReqBody r) of
        None \<Rightarrow> Some (s, http_Error ''bad request'' StatusBadRequest)
      | Some req \<Rightarrow>
          if req_Key req = [] \<or> req_Lockee req = []
          then Some (s, http_Error ''key and lockee are required'' StatusBadRequest)
          else (case acq s (req_Key req) (req_Lockee req) (req_Force req) now of
                  None \<Rightarrow> None
                | Some (s', l, acquired) \<Rightarrow>
                    Some (s',
                      if acquired
                      then writeJSON StatusOK (json_lockOKResp
                             \<lparr>ok_Locked = True, ok_Key = Key l, ok_Lockee = Lockee l\<rparr>)
                      else writeJSON StatusConflict (json_lockConflictResp
                             \<lparr>cf_Locked = False, cf_Key = req_Key req, cf_CurrentLockee = Lockee l\<rparr>))))"

definition handle_unlock ::
  "('s \<Rightarrow> string \<Rightarrow> string \<Rightarrow> ('s \<times> nat \<times> string) option) \<Rightarrow>
   's \<Rightarrow> http_request \<Rightarrow> ('s \<times> http_response) option" where
  "handle_unlock rel s r =
     (case decode_unlock_req (ReqBody r) of
        None \<Rightarrow> Some (s, http_Error ''bad request'' StatusBadRequest)
      | Some req \<Rightarrow>
          if ureq_Key req = [] \<or> ureq_Lockee req = []
          then Some (s, http_Error ''key and lockee are required'' StatusBadRequest)
          else (case rel s (ureq_Key req) (ureq_Lockee req) of
                  None \<Rightarrow> None
                | Some (s', status, msg) \<Rightarrow>
                    Some (s', if status = StatusOK then writeHeader StatusOK else http_Error msg status)))"

definition list_entry :: "Lock \<Rightarrow> lockListEntry" where
  "list_entry l = \<lparr>le_Key = Key l, le_Lockee = Lockee l, le_Since = formatRFC3339 (Since l)\<rparr>"

definition handle_locks :: "('s \<Rightarrow> 'o \<Rightarrow> Lock list) \<Rightarrow> 'o \<Rightarrow> 's \<Rightarrow> ('s \<times> http_response) option" where
  "handle_locks lst ord s =
     Some (s, writeJSON StatusOK (json_lockListResp \<lparr>lr_Locks = map list_entry (lst s ord)\<rparr>))"

definition serve ::
  "('s \<Rightarrow> string \<Rightarrow> string \<Rightarrow> bool \<Rightarrow> time \<Rightarrow> ('s \<times> Lock \<times> bool) option) \<Rightarrow>
   ('s \<Rightarrow> string \<Rightarrow> string \<Rightarrow> ('s \<times> nat \<times> string) option) \<Rightarrow>
   ('s \<Rightarrow> 'o \<Rightarrow> Lock list) \<Rightarrow>
   time \<Rightarrow> 'o \<Rightarrow> 's \<Rightarrow> http_request \<Rightarrow> ('s \<times> http_response) option" where
  "serve acq rel lst now ord s r =
     (case mux_find
             [(''GET'', ''/healthz'', \<lambda>s r. handle_healthz s),
              (''POST'', ''/lock'', handle_lock acq now),
              (''POST'', ''/unlock'', handle_unlock rel),
              (''GET'', ''/locks'', \<lambda>s r. handle_locks lst ord s)] r of
        Inl resp \<Rightarrow> Some (s, resp)
      | Inr h \<Rightarrow> h s r)"

text \<open>A sequence of requests, each with the clock reading and the iteration order it meets.\<close>

fun serve_all ::
  "(time \<Rightarrow> 'o \<Rightarrow> 's \<Rightarrow> http_request \<Rightarrow> ('s \<times> http_response) option) \<Rightarrow>
   's \<Rightarrow> (time \<times> 'o \<times> http_request) list \<Rightarrow> ('s \<times> http_response list) option" where
  "serve_all sv s [] = Some (s, [])"
| "serve_all sv s ((now, ord, r) # rs) =
     (case sv now ord s r of
        None \<Rightarrow> None
      | Some (s1, resp) \<Rightarrow>
          (case serve_all sv s1 rs of None \<Rightarrow> None | Some (s2, resps) \<Rightarrow> Some (s2, resp # resps)))"

subsection \<open>What a client sees\<close>

definition lock_request :: "http_request \<Rightarrow> lock_req option" where
  "lock_request r =
     (if Method r = ''POST'' \<and> Path r = ''/lock''
      then (case decode_lock_req (ReqBody r) of
              None \<Rightarrow> None
            | Some req \<Rightarrow> if req_Key req = [] \<or> req_Lockee req = [] then None else Some req)
      else None)"

definition unlock_request :: "http_request \<Rightarrow> unlock_req option" where
  "unlock_request r =
     (if Method r = ''POST'' \<and> Path r = ''/unlock''
      then (case decode_unlock_req (ReqBody r) of
              None \<Rightarrow> None
            | Some req \<Rightarrow> if ureq_Key req = [] \<or> ureq_Lockee req = [] then None else Some req)
      else None)"

definition spec_table :: "lock_table \<Rightarrow> time \<Rightarrow> http_request \<Rightarrow> lock_table" where
  "spec_table T now r =
     (case lock_request r of
        Some q \<Rightarrow> lock_entry T (req_Key q) (req_Lockee q) (req_Force q) now
      | None \<Rightarrow>
          (case unlock_request r of
             Some q \<Rightarrow> release_entry T (ureq_Key q) (ureq_Lockee q)
           | None \<Rightarrow> T))"

definition is_listing :: "http_request \<Rightarrow> bool" where
  "is_listing r \<longleftrightarrow> Path r = ''/locks'' \<and> Method r \<in> {''GET'', ''HEAD''}"

text \<open>The answers that do not depend on the table.\<close>

definition invalid_response :: "bool \<Rightarrow> http_request \<Rightarrow> http_response" where
  "invalid_response decoded r =
     (if Method r \<noteq> ''POST'' then http_Error ''Method Not Allowed'' StatusMethodNotAllowed
      else if decoded then http_Error ''key and lockee are required'' StatusBadRequest
      else http_Error ''bad request'' StatusBadRequest)"

definition fixed_response :: "http_request \<Rightarrow> http_response" where
  "fixed_response r =
     (if Path r = ''/lock'' then invalid_response (decode_lock_req (ReqBody r) \<noteq> None) r
      else if Path r = ''/unlock'' then invalid_response (decode_unlock_req (ReqBody r) \<noteq> None) r
      else if Path r = ''/healthz'' \<and> Method r \<in> {''GET'', ''HEAD''}
      then writeJSON StatusOK (JObj [(''status'', JStr ''ok'')])
      else if Path r \<in> {''/healthz'', ''/locks''}
      then http_Error ''Method Not Allowed'' StatusMethodNotAllowed
      else http_Error ''404 page not found'' StatusNotFound)"

definition spec_response :: "lock_table \<Rightarrow> http_request \<Rightarrow> http_response" where
  "spec_response T r =
     (case lock_request r of
        Some q \<Rightarrow>
          (if may_lock T (req_Key q) (req_Lockee q) (req_Force q)
           then writeJSON StatusOK (json_lockOKResp
                  \<lparr>ok_Locked = True, ok_Key = req_Key q, ok_Lockee = req_Lockee q\<rparr>)
           else writeJSON StatusConflict (json_lockConflictResp
                  \<lparr>cf_Locked = False, cf_Key = req_Key q, cf_CurrentLockee = the (holder T (req_Key q))\<rparr>))
      | None \<Rightarrow>
          (case unlock_request r of
             Some q \<Rightarrow>
               (let status = release_status T (ureq_Key q) (ureq_Lockee q)
                in if status = StatusOK then writeHeader StatusOK
                   else http_Error (release_msg status) status)
           | None \<Rightarrow> fixed_response r))"

definition listing_response :: "Lock list \<Rightarrow> http_response" where
  "listing_response ls = writeJSON StatusOK (json_lockListResp \<lparr>lr_Locks = map list_entry ls\<rparr>)"

text \<open>The answer to a request, when a listing would return the locks \<open>ls\<close>.\<close>

definition answer :: "lock_table \<Rightarrow> Lock list \<Rightarrow> http_request \<Rightarrow> http_response" where
  "answer T ls r = (if is_listing r then listing_response ls else spec_response T r)"

text \<open>
  The specified answers: a listing returns every held lock once, in any order; every other response is
  determined by the table and the request.
\<close>

definition answers :: "lock_table \<Rightarrow> http_request \<Rightarrow> http_response \<Rightarrow> bool" where
  "answers T r resp \<longleftrightarrow>
     (if is_listing r then \<exists>ls. distinct (map Key ls) \<and> set ls = ran T \<and> resp = listing_response ls
      else resp = spec_response T r)"

text \<open>The table each request of a sequence meets.\<close>

fun spec_tables :: "lock_table \<Rightarrow> (time \<times> 'o \<times> http_request) list \<Rightarrow> (lock_table \<times> http_request) list" where
  "spec_tables T [] = []"
| "spec_tables T ((now, ord, r) # rs) = (T, r) # spec_tables (spec_table T now r) rs"

definition takes_over :: "string \<Rightarrow> string \<Rightarrow> http_request \<Rightarrow> bool" where
  "takes_over k w r =
     (case lock_request r of None \<Rightarrow> False | Some q \<Rightarrow> req_Key q = k \<and> req_Lockee q \<noteq> w \<and> req_Force q)"

definition gives_up :: "string \<Rightarrow> string \<Rightarrow> http_request \<Rightarrow> bool" where
  "gives_up k w r =
     (case unlock_request r of None \<Rightarrow> False | Some q \<Rightarrow> ureq_Key q = k \<and> ureq_Lockee q = w)"

subsection \<open>Lemmas\<close>

lemma writeJSON_sel [simp]:
  "StatusCode (writeJSON st v) = st" "RespBody (writeJSON st v) = Json v []"
  by (simp_all add: writeJSON_def)

lemma lock_request_not_unlock: "lock_request r = Some q \<Longrightarrow> unlock_request r = None"
  by (auto simp: lock_request_def unlock_request_def split: if_splits)

lemma holder_spec_table:
  assumes "holder T k = Some w" "\<not> takes_over k w r" "\<not> gives_up k w r"
  shows "holder (spec_table T now r) k = Some w"
proof (cases "lock_request r")
  case (Some q)
  with assms show ?thesis
    by (auto simp: spec_table_def takes_over_def holder_lock_entry)
next
  case None
  with assms show ?thesis
    by (auto simp: spec_table_def gives_up_def holder_release_entry split: option.splits)
qed

lemma serve_lock:
  "Method r = ''POST'' \<Longrightarrow> Path r = ''/lock'' \<Longrightarrow> serve acq rel lst now ord s r = handle_lock acq now s r"
  by (simp add: serve_def http_simps method_matches_def)

lemma serve_unlock:
  "Method r = ''POST'' \<Longrightarrow> Path r = ''/unlock'' \<Longrightarrow> serve acq rel lst now ord s r = handle_unlock rel s r"
  by (simp add: serve_def http_simps method_matches_def)

lemma serve_locks:
  "Method r = ''GET'' \<Longrightarrow> Path r = ''/locks'' \<Longrightarrow> serve acq rel lst now ord s r = handle_locks lst ord s"
  by (simp add: serve_def http_simps method_matches_def)

lemma is_listing_requests: "is_listing r \<Longrightarrow> lock_request r = None \<and> unlock_request r = None"
  by (simp add: is_listing_def lock_request_def unlock_request_def)

text \<open>Requests that are neither a valid lock nor a valid unlock request leave the store alone.\<close>

lemma serve_other:
  assumes "lock_request r = None" "unlock_request r = None"
  shows "serve acq rel lst now ord s r = Some (s, answer T (lst s ord) r)"
proof -
  consider "Path r = ''/lock''" | "Path r = ''/unlock''" | "Path r = ''/locks''"
    | "Path r = ''/healthz''" | "Path r \<notin> {''/lock'', ''/unlock'', ''/locks'', ''/healthz''}" by auto
  then show ?thesis
  proof cases
    case 1
    with assms show ?thesis
      by (auto simp: serve_def http_simps method_matches_def handle_lock_def lock_request_def answer_def
          is_listing_def unlock_request_def spec_response_def fixed_response_def invalid_response_def
          split: option.splits if_splits)
  next
    case 2
    with assms show ?thesis
      by (auto simp: serve_def http_simps method_matches_def handle_unlock_def lock_request_def answer_def
          is_listing_def unlock_request_def spec_response_def fixed_response_def invalid_response_def
          split: option.splits if_splits)
  next
    case 3
    with assms show ?thesis
      by (auto simp: serve_def http_simps method_matches_def handle_locks_def answer_def is_listing_def
          listing_response_def spec_response_def fixed_response_def)
  next
    case 4
    with assms show ?thesis
      by (auto simp: serve_def http_simps method_matches_def handle_healthz_def answer_def is_listing_def
          spec_response_def fixed_response_def)
  next
    case 5
    with assms show ?thesis
      by (auto simp: serve_def http_simps answer_def is_listing_def spec_response_def fixed_response_def)
  qed
qed

lemma handle_lock_request:
  "lock_request r = Some q \<Longrightarrow> serve acq rel lst now ord s r =
     (case acq s (req_Key q) (req_Lockee q) (req_Force q) now of
        None \<Rightarrow> None
      | Some (s', l, acquired) \<Rightarrow>
          Some (s', if acquired
                    then writeJSON StatusOK (json_lockOKResp
                           \<lparr>ok_Locked = True, ok_Key = Key l, ok_Lockee = Lockee l\<rparr>)
                    else writeJSON StatusConflict (json_lockConflictResp
                           \<lparr>cf_Locked = False, cf_Key = req_Key q, cf_CurrentLockee = Lockee l\<rparr>)))"
  by (auto simp: lock_request_def serve_lock handle_lock_def split: if_splits option.splits)

lemma handle_unlock_request:
  "unlock_request r = Some q \<Longrightarrow> serve acq rel lst now ord s r =
     (case rel s (ureq_Key q) (ureq_Lockee q) of
        None \<Rightarrow> None
      | Some (s', status, msg) \<Rightarrow>
          Some (s', if status = StatusOK then writeHeader StatusOK else http_Error msg status))"
  by (auto simp: unlock_request_def serve_unlock handle_unlock_def split: if_splits option.splits)

text \<open>The bodies the benchmark's clients send: objects with the members in alphabetical order.\<close>

lemma lock_request_json [http_simps]:
  assumes "k \<noteq> []" "w \<noteq> []"
  shows "lock_request \<lparr>Method = ''POST'', Path = ''/lock'',
      ReqBody = Json (JObj [(''force'', JBool f), (''key'', JStr k), (''lockee'', JStr w)]) []\<rparr> =
      Some \<lparr>req_Key = k, req_Lockee = w, req_Force = f\<rparr>"
  using assms by (simp add: lock_request_def decode_lock_req_def lock_req_set_def http_simps)

lemma unlock_request_json [http_simps]:
  assumes "k \<noteq> []" "w \<noteq> []"
  shows "unlock_request \<lparr>Method = ''POST'', Path = ''/unlock'',
      ReqBody = Json (JObj [(''key'', JStr k), (''lockee'', JStr w)]) []\<rparr> =
      Some \<lparr>ureq_Key = k, ureq_Lockee = w\<rparr>"
  using assms by (simp add: unlock_request_def decode_unlock_req_def unlock_req_set_def http_simps)

lemma lock_request_path [http_simps]:
  "Path r \<noteq> ''/lock'' \<Longrightarrow> lock_request r = None" "Path r \<noteq> ''/unlock'' \<Longrightarrow> unlock_request r = None"
  by (simp_all add: lock_request_def unlock_request_def)

text \<open>Only an answer 200 goes with a change of the table, and only for the key the request names.\<close>

lemma answer_error_table:
  "StatusCode (answer T ls r) \<noteq> StatusOK \<Longrightarrow> spec_table T now r = T"
  by (auto simp: answer_def spec_response_def spec_table_def lock_entry_def release_entry_def
      release_status_def listing_response_def is_listing_requests Let_def
      split: option.splits if_splits)

context lock_store
begin

text \<open>One request: the handlers return, keep the invariant, do to the table what the specification says
  and answer as it says.\<close>

lemma serve_refines:
  assumes "inv s"
  shows "\<exists>s'. serve acq rel lst now ord s r = Some (s', answer (tbl s) (lst s ord) r) \<and> inv s' \<and>
           tbl s' = spec_table (tbl s) now r"
proof (cases "lock_request r")
  case (Some q)
  let ?k = "req_Key q" and ?w = "req_Lockee q" and ?f = "req_Force q"
  obtain s' l where acq: "acq s ?k ?w ?f now = Some (s', l, may_lock (tbl s) ?k ?w ?f)"
    and "inv s'" and T: "tbl s' = lock_entry (tbl s) ?k ?w ?f now"
    by (rule acqE [OF assms])
  have l: "Key l = ?k" "holder (tbl s') ?k = Some (Lockee l)" by (rule acq_lock_fields [OF assms acq])+
  from Some have "\<not> is_listing r" using is_listing_requests by fastforce
  then have answer: "answer (tbl s) (lst s ord) r = spec_response (tbl s) r" by (simp add: answer_def)
  have "serve acq rel lst now ord s r = Some (s', spec_response (tbl s) r)"
  proof (cases "may_lock (tbl s) ?k ?w ?f")
    case True
    with l(2) have "Lockee l = ?w" by (simp add: T holder_lock_entry)
    with True Some acq l(1) show ?thesis by (simp add: handle_lock_request spec_response_def)
  next
    case False
    with l(2) have "holder (tbl s) ?k = Some (Lockee l)" by (simp add: T holder_lock_entry)
    with False Some acq l(1) show ?thesis by (simp add: handle_lock_request spec_response_def)
  qed
  with Some \<open>inv s'\<close> T answer show ?thesis by (simp add: spec_table_def)
next
  case None
  show ?thesis
  proof (cases "unlock_request r")
    case (Some q)
    obtain s' where "rel s (ureq_Key q) (ureq_Lockee q) =
        Some (s', release_status (tbl s) (ureq_Key q) (ureq_Lockee q),
              release_msg (release_status (tbl s) (ureq_Key q) (ureq_Lockee q)))"
      and "inv s'" "tbl s' = release_entry (tbl s) (ureq_Key q) (ureq_Lockee q)"
      by (rule relE [OF assms])
    with Some None is_listing_requests [of r] show ?thesis
      by (auto simp: handle_unlock_request spec_table_def spec_response_def answer_def Let_def)
  next
    case no_unlock: None
    from None no_unlock have "spec_table (tbl s) now r = tbl s" by (simp add: spec_table_def)
    with serve_other [OF None no_unlock, of acq rel lst now ord s "tbl s"] assms show ?thesis by auto
  qed
qed

lemma serve_answers:
  assumes "inv s" "ord_ok s ord"
  shows "\<exists>s' resp. serve acq rel lst now ord s r = Some (s', resp) \<and> answers (tbl s) r resp \<and> inv s' \<and>
           tbl s' = spec_table (tbl s) now r"
proof -
  have "answers (tbl s) r (answer (tbl s) (lst s ord) r)"
    using lst_set [OF assms] lst_distinct [OF assms] by (auto simp: answers_def answer_def)
  with serve_refines [OF assms(1), of now ord r] show ?thesis by blast
qed

lemma serve_all_refines:
  assumes "inv s"
  shows "\<exists>s' resps. serve_all (serve acq rel lst) s rs = Some (s', resps) \<and> inv s' \<and>
           tbl s' = foldl (\<lambda>T (now, ord, r). spec_table T now r) (tbl s) rs \<and>
           list_all2 (\<lambda>(T, r) resp. \<exists>ls. resp = answer T ls r)
             (spec_tables (tbl s) rs) resps"
  using assms
proof (induction rs arbitrary: s)
  case Nil
  then show ?case by simp
next
  case (Cons e rs)
  obtain now ord r where e: "e = (now, ord, r)" by (cases e) auto
  obtain s1 where 1: "serve acq rel lst now ord s r = Some (s1, answer (tbl s) (lst s ord) r)" "inv s1"
    "tbl s1 = spec_table (tbl s) now r" using serve_refines [OF Cons.prems] by blast
  from Cons.IH [OF 1(2)] obtain s2 resps where
    "serve_all (serve acq rel lst) s1 rs = Some (s2, resps)" "inv s2"
    "tbl s2 = foldl (\<lambda>T (now, ord, r). spec_table T now r) (tbl s1) rs"
    "list_all2 (\<lambda>(T, r) resp. \<exists>ls. resp = answer T ls r) (spec_tables (tbl s1) rs) resps" by blast
  with 1 e show ?case by auto
qed

text \<open>A lock stays with its holder until the holder gives it up or someone takes it over by force.\<close>

lemma holder_stays:
  assumes "holder T k = Some w"
    and "\<forall>(now, ord, r) \<in> set rs. \<not> takes_over k w r \<and> \<not> gives_up k w r"
  shows "holder (foldl (\<lambda>T (now, ord, r). spec_table T now r) T rs) k = Some w"
  using assms by (induction rs arbitrary: T) (auto simp: holder_spec_table)

lemma serve_all_snoc:
  "serve_all sv s rs = Some (s1, resps) \<Longrightarrow> sv t ord s1 r = Some (s2, x) \<Longrightarrow>
     serve_all sv s (rs @ [(t, ord, r)]) = Some (s2, resps @ [x])"
  by (induction rs arbitrary: s resps) (auto split: option.splits)

lemma mutual_exclusion_over:
  assumes "inv s" and "lock_request r = Some q" and "may_lock (tbl s) (req_Key q) (req_Lockee q) (req_Force q)"
    and keep: "\<forall>(now, ord, r') \<in> set rs.
        \<not> takes_over (req_Key q) (req_Lockee q) r' \<and> \<not> gives_up (req_Key q) (req_Lockee q) r'"
    and other: "lock_request r2 = Some q2" "req_Key q2 = req_Key q" "req_Lockee q2 \<noteq> req_Lockee q"
      "\<not> req_Force q2"
  shows "\<exists>s' resps.
     serve_all (serve acq rel lst) s ((t1, o1, r) # rs @ [(t2, o2, r2)]) = Some (s', resps) \<and>
     StatusCode (hd resps) = StatusOK \<and>
     last resps = writeJSON StatusConflict (json_lockConflictResp
        \<lparr>cf_Locked = False, cf_Key = req_Key q, cf_CurrentLockee = req_Lockee q\<rparr>)"
proof -
  let ?k = "req_Key q" and ?w = "req_Lockee q"
  obtain s1 where 1: "serve acq rel lst t1 o1 s r = Some (s1, answer (tbl s) (lst s o1) r)" "inv s1"
    "tbl s1 = spec_table (tbl s) t1 r"
    using serve_refines [OF assms(1)] by blast
  from assms(2,3) have h1: "holder (tbl s1) ?k = Some ?w"
    and st1: "StatusCode (answer (tbl s) (lst s o1) r) = StatusOK"
    using is_listing_requests [of r]
    by (auto simp: 1(3) spec_table_def spec_response_def answer_def holder_lock_entry)
  obtain s2 resps2 where 2: "serve_all (serve acq rel lst) s1 rs = Some (s2, resps2)" "inv s2"
    "tbl s2 = foldl (\<lambda>T (now, ord, r). spec_table T now r) (tbl s1) rs"
    using serve_all_refines [OF 1(2)] by blast
  from holder_stays [OF h1 keep] 2(3) have h2: "holder (tbl s2) ?k = Some ?w" by simp
  obtain s3 where 3: "serve acq rel lst t2 o2 s2 r2 = Some (s3, answer (tbl s2) (lst s2 o2) r2)"
    using serve_refines [OF 2(2)] by blast
  have "answer (tbl s2) (lst s2 o2) r2 = writeJSON StatusConflict
      (json_lockConflictResp \<lparr>cf_Locked = False, cf_Key = ?k, cf_CurrentLockee = ?w\<rparr>)"
    using h2 other is_listing_requests [of r2] by (auto simp: answer_def spec_response_def)
  with serve_all_snoc [OF 2(1) 3] 1(1) st1 show ?thesis by simp
qed

end

end
