(* ===== verification/Go_Inmemory.thy ===== *)
theory Go_Inmemory
  imports Lock_Server
begin

text \<open>
  \<^verbatim>\<open>solutions/go-inmemory/main.go\<close>: one map of locks behind one \<^verbatim>\<open>sync.RWMutex\<close>. The operations
  here are the bodies that run under the mutex, as state transformers; \<open>Go_Mutex\<close> models the mutex
  and proves that interleaved calls behave like these atomic ones.
\<close>

record store =
  locks :: lock_table

definition newStore :: store where
  "newStore = \<lparr>locks = Map.empty\<rparr>"

definition acquire :: "store \<Rightarrow> string \<Rightarrow> string \<Rightarrow> bool \<Rightarrow> time \<Rightarrow> store \<times> Lock \<times> bool" where
  "acquire s key lockee force now =
     (let l = \<lparr>Key = key, Lockee = lockee, Since = UTC now\<rparr>;
          put = (s\<lparr>locks := (locks s)(key \<mapsto> l)\<rparr>, l, True)
      in case locks s key of
           Some existing \<Rightarrow>
             if Lockee existing = lockee then (s, existing, True)
             else if \<not> force then (s, existing, False)
             else put
         | None \<Rightarrow> put)"

definition release :: "store \<Rightarrow> string \<Rightarrow> string \<Rightarrow> store \<times> nat \<times> string" where
  "release s key lockee =
     (case locks s key of
        None \<Rightarrow> (s, StatusNotFound, ''not found'')
      | Some existing \<Rightarrow>
          if Lockee existing \<noteq> lockee then (s, StatusForbidden, ''lockee mismatch'')
          else (s\<lparr>locks := (locks s)(key := None)\<rparr>, StatusOK, []))"

definition list_locks :: "store \<Rightarrow> string list \<Rightarrow> Lock list" where
  "list_locks s ord = range_values (locks s) ord"

definition inmemory_serve ::
  "time \<Rightarrow> string list \<Rightarrow> store \<Rightarrow> http_request \<Rightarrow> (store \<times> http_response) option" where
  "inmemory_serve =
     serve (\<lambda>s k w f now. Some (acquire s k w f now)) (\<lambda>s k w. Some (release s k w)) list_locks"

definition store_inv :: "store \<Rightarrow> bool" where
  "store_inv s \<longleftrightarrow> finite (dom (locks s)) \<and> (\<forall>k l. locks s k = Some l \<longrightarrow> Key l = k)"

subsection \<open>The operations, branch by branch\<close>

lemma acquire_laws [store_laws]:
  "locks s k = None \<Longrightarrow> acquire s k w f now =
     (s\<lparr>locks := (locks s)(k \<mapsto> \<lparr>Key = k, Lockee = w, Since = UTC now\<rparr>)\<rparr>, \<lparr>Key = k, Lockee = w, Since = UTC now\<rparr>, True)"
  "locks s k = Some l \<Longrightarrow> Lockee l = w \<Longrightarrow> acquire s k w f now = (s, l, True)"
  "locks s k = Some l \<Longrightarrow> Lockee l \<noteq> w \<Longrightarrow> acquire s k w False now = (s, l, False)"
  "locks s k = Some l \<Longrightarrow> Lockee l \<noteq> w \<Longrightarrow> acquire s k w True now =
     (s\<lparr>locks := (locks s)(k \<mapsto> \<lparr>Key = k, Lockee = w, Since = UTC now\<rparr>)\<rparr>, \<lparr>Key = k, Lockee = w, Since = UTC now\<rparr>, True)"
  by (simp_all add: acquire_def Let_def)

lemma release_laws [store_laws]:
  "locks s k = None \<Longrightarrow> release s k w = (s, StatusNotFound, ''not found'')"
  "locks s k = Some l \<Longrightarrow> Lockee l \<noteq> w \<Longrightarrow> release s k w = (s, StatusForbidden, ''lockee mismatch'')"
  "locks s k = Some l \<Longrightarrow> Lockee l = w \<Longrightarrow> release s k w = (s\<lparr>locks := (locks s)(k := None)\<rparr>, StatusOK, [])"
  by (simp_all add: release_def)

lemma locks_newStore [simp]: "locks newStore = Map.empty"
  by (simp add: newStore_def)

lemma store_inv_newStore [simp]: "store_inv newStore"
  by (simp add: store_inv_def newStore_def)

lemma store_inv_put: "store_inv s \<Longrightarrow> Key l = k \<Longrightarrow> store_inv (s\<lparr>locks := (locks s)(k \<mapsto> l)\<rparr>)"
  by (simp add: store_inv_def)

lemma store_inv_del: "store_inv s \<Longrightarrow> store_inv (s\<lparr>locks := (locks s)(k := None)\<rparr>)"
  by (simp add: store_inv_def)

text \<open>The effect of the operations on the table, in the vocabulary of the contract.\<close>

lemma acquire_table:
  assumes "acquire s k w f now = (s', l, ok)"
  shows "ok = may_lock (locks s) k w f" and "locks s' = lock_entry (locks s) k w f now"
    and "locks s' k = Some l"
  using assms by (auto simp: acquire_def lock_entry_def may_lock_def holder_def Let_def
      split: option.splits if_splits)

lemma acquire_inv: "store_inv s \<Longrightarrow> acquire s k w f now = (s', l, ok) \<Longrightarrow> store_inv s'"
  by (auto simp: acquire_def Let_def store_inv_put split: option.splits if_splits)

lemma release_table:
  "release s k w = (s', status, msg) \<Longrightarrow>
     status = release_status (locks s) k w \<and> msg = release_msg status \<and>
     locks s' = release_entry (locks s) k w"
  by (auto simp: release_def release_status_def release_entry_def release_msg_def holder_def
      split: option.splits if_splits)

lemma release_inv: "store_inv s \<Longrightarrow> release s k w = (s', status, msg) \<Longrightarrow> store_inv s'"
  by (auto simp: release_def store_inv_del split: option.splits if_splits)

lemma list_locks_keys:
  "store_inv s \<Longrightarrow> range_ok (locks s) ord \<Longrightarrow> map Key (list_locks s ord) = ord"
  by (auto simp: list_locks_def range_ok_values store_inv_def range_ok_def intro!: map_idI)

interpretation im: lock_store locks store_inv "\<lambda>s k w f now. Some (acquire s k w f now)"
  "\<lambda>s k w. Some (release s k w)" list_locks "\<lambda>s ord. range_ok (locks s) ord"
proof unfold_locales
  fix s :: store and k w :: string and f now ord
  show "Key l = k" if "store_inv s" "locks s k = Some l" for l
    using that by (simp add: store_inv_def)
  show "\<exists>s' l. Some (acquire s k w f now) = Some (s', l, may_lock (locks s) k w f) \<and> store_inv s' \<and>
      locks s' = lock_entry (locks s) k w f now \<and> locks s' k = Some l" if "store_inv s"
    by (cases "acquire s k w f now") (use that acquire_inv acquire_table in auto)
  show "\<exists>s'. Some (release s k w) = Some (s', release_status (locks s) k w,
        release_msg (release_status (locks s) k w)) \<and>
      store_inv s' \<and> locks s' = release_entry (locks s) k w" if "store_inv s"
    by (cases "release s k w") (use that release_inv release_table in auto)
  show "set (list_locks s ord) = ran (locks s)" if "range_ok (locks s) ord"
    using that by (simp add: list_locks_def set_range_values)
  show "distinct (map Key (list_locks s ord))" if "store_inv s" "range_ok (locks s) ord"
    using that by (simp add: list_locks_keys range_ok_distinct)
qed

lemmas inmemory_serve_refines = im.serve_refines [folded inmemory_serve_def]
lemmas inmemory_serve_answers = im.serve_answers [folded inmemory_serve_def]
lemmas inmemory_serve_all_refines = im.serve_all_refines [folded inmemory_serve_def]
lemmas inmemory_mutual_exclusion = im.mutual_exclusion_over [folded inmemory_serve_def]

subsection \<open>Properties\<close>

text \<open>C1. Mutual exclusion as clients of the single-map server see it: once a lock request for a key has
  been granted, and until its holder unlocks the key or somebody takes it over with \<open>force\<close>, whatever
  other requests arrive (of any method, path and body), an unforced lock request of another lockee
  is answered 409 and names the holder.\<close>

theorem inmemory_mutex:
  assumes "store_inv s" and "lock_request r = Some q"
    and "may_lock (locks s) (req_Key q) (req_Lockee q) (req_Force q)"
    and "\<forall>(now, ord, r') \<in> set rs.
        \<not> takes_over (req_Key q) (req_Lockee q) r' \<and> \<not> gives_up (req_Key q) (req_Lockee q) r'"
    and "lock_request r2 = Some q2" "req_Key q2 = req_Key q" "req_Lockee q2 \<noteq> req_Lockee q"
      "\<not> req_Force q2"
  shows "\<exists>s' resps.
     serve_all inmemory_serve s ((t1, o1, r) # rs @ [(t2, o2, r2)]) = Some (s', resps) \<and>
     StatusCode (hd resps) = StatusOK \<and>
     last resps = writeJSON StatusConflict (json_lockConflictResp
        \<lparr>cf_Locked = False, cf_Key = req_Key q, cf_CurrentLockee = req_Lockee q\<rparr>)"
  using assms by (rule inmemory_mutual_exclusion)

theorem inmemory_mutex_witness:
  "\<exists>s' resps. serve_all inmemory_serve newStore
     [(utc 5, [], \<lparr>Method = ''POST'', Path = ''/lock'',
               ReqBody = Json (JObj [(''force'', JBool False), (''key'', JStr ''k''), (''lockee'', JStr ''a'')]) []\<rparr>),
      (utc 6, [], \<lparr>Method = ''POST'', Path = ''/unlock'',
               ReqBody = Json (JObj [(''key'', JStr ''k''), (''lockee'', JStr ''b'')]) []\<rparr>),
      (utc 7, [], \<lparr>Method = ''POST'', Path = ''/lock'',
               ReqBody = Json (JObj [(''force'', JBool False), (''key'', JStr ''k''), (''lockee'', JStr ''b'')]) []\<rparr>)]
     = Some (s', resps) \<and> StatusCode (hd resps) = StatusOK \<and>
     last resps = writeJSON StatusConflict (json_lockConflictResp
        \<lparr>cf_Locked = False, cf_Key = ''k'', cf_CurrentLockee = ''a''\<rparr>)"
  using inmemory_mutex [OF store_inv_newStore lock_request_json [of "''k''" "''a''" False] _ _
      lock_request_json [of "''k''" "''b''" False],
      of "[(utc 6, [], \<lparr>Method = ''POST'', Path = ''/unlock'',
               ReqBody = Json (JObj [(''key'', JStr ''k''), (''lockee'', JStr ''b'')]) []\<rparr>)]" "utc 5" "[]" "utc 7" "[]"]
  by (simp add: newStore_def takes_over_def gives_up_def http_simps)

text \<open>C5. The handlers of the single-map server implement the service specification: every request
  is answered (none panics), the store stays well formed, the table of held locks changes as the
  specification says and the whole response, status, content type and body, is the specified one; a
  listing contains every held lock exactly once, whatever the order of the map's iteration.\<close>

theorem inmemory_implements_spec:
  assumes "store_inv s" and "range_ok (locks s) ord"
  shows "\<exists>s' resp. inmemory_serve now ord s r = Some (s', resp) \<and> answers (locks s) r resp \<and>
           store_inv s' \<and> locks s' = spec_table (locks s) now r"
  using assms by (rule inmemory_serve_answers)

theorem inmemory_implements_spec_witness:
  "\<exists>s' ls. inmemory_serve (utc 9) [''k''] \<lparr>locks = [''k'' \<mapsto> \<lparr>Key = ''k'', Lockee = ''a'', Since = utc 0\<rparr>]\<rparr>
       \<lparr>Method = ''GET'', Path = ''/locks'', ReqBody = Empty\<rparr> = Some (s', listing_response ls) \<and>
     distinct (map Key ls) \<and> set ls = {\<lparr>Key = ''k'', Lockee = ''a'', Since = utc 0\<rparr>}"
proof -
  let ?s = "\<lparr>locks = [''k'' \<mapsto> \<lparr>Key = ''k'', Lockee = ''a'', Since = utc 0\<rparr>]\<rparr>"
  have "store_inv ?s" "range_ok (locks ?s) [''k'']" by (auto simp: store_inv_def range_ok_def)
  from inmemory_implements_spec [OF this, of "utc 9" "\<lparr>Method = ''GET'', Path = ''/locks'', ReqBody = Empty\<rparr>"]
  show ?thesis by (auto simp: answers_def is_listing_def)
qed

text \<open>C38. Locking a free key and releasing it by the same lockee is a round trip: both calls report
  success and the store is exactly what it was.\<close>

theorem acquire_release_roundtrip:
  assumes "locks s k = None"
  shows "\<exists>s1. acquire s k w f now = (s1, \<lparr>Key = k, Lockee = w, Since = UTC now\<rparr>, True) \<and>
           locks s1 k = Some \<lparr>Key = k, Lockee = w, Since = UTC now\<rparr> \<and> release s1 k w = (s, StatusOK, [])"
  using assms by (simp add: store_laws fun_upd_idem)

theorem acquire_release_roundtrip_witness:
  "\<exists>s1. acquire newStore ''k'' ''a'' False (utc 3) = (s1, \<lparr>Key = ''k'', Lockee = ''a'', Since = utc 3\<rparr>, True) \<and>
     locks s1 ''k'' = Some \<lparr>Key = ''k'', Lockee = ''a'', Since = utc 3\<rparr> \<and>
     release s1 ''k'' ''a'' = (newStore, StatusOK, [])"
  using acquire_release_roundtrip [of newStore "''k''" "''a''" False "utc 3"] by (simp add: newStore_def)

text \<open>C39. What an error answer means: a request that is not answered 200 has changed nothing.\<close>

theorem inmemory_error_keeps_store:
  assumes "store_inv s" and "inmemory_serve now ord s r = Some (s', resp)" and "StatusCode resp \<noteq> StatusOK"
  shows "locks s' = locks s"
  using inmemory_serve_refines [OF assms(1), of now ord r] assms(2,3) answer_error_table by fastforce

theorem inmemory_error_keeps_store_witness:
  "locks (fst (the (inmemory_serve (utc 9) [] newStore \<lparr>Method = ''POST'', Path = ''/unlock'',
      ReqBody = Json (JObj [(''key'', JStr ''k''), (''lockee'', JStr ''a'')]) []\<rparr>))) = locks newStore"
proof -
  let ?r = "\<lparr>Method = ''POST'', Path = ''/unlock'',
      ReqBody = Json (JObj [(''key'', JStr ''k''), (''lockee'', JStr ''a'')]) []\<rparr>"
  have "inmemory_serve (utc 9) [] newStore ?r = Some (newStore, http_Error ''not found'' StatusNotFound)"
    by (simp add: inmemory_serve_def handle_unlock_request http_simps store_laws newStore_def)
  from inmemory_error_keeps_store [OF store_inv_newStore this] this show ?thesis by simp
qed

text \<open>C40. The \<open>since\<close> of a lock is an RFC 3339 timestamp in UTC, as \<^verbatim>\<open>spec.md\<close> asks: whatever zone the
  server's clock is in, a lock that is granted afresh is stored with a stamp whose text in a listing has
  the form \<open>dddd-dd-ddTdd:dd:ddZ\<close> and reads back as the second the clock showed (until year 9999).\<close>

theorem since_is_rfc3339:
  assumes "may_lock (locks s) k w f" and "holder (locks s) k \<noteq> Some w"
    and "year (civil_of (nanos now div nsPerSec)) \<le> 9999"
  shows "\<exists>s' l. acquire s k w f now = (s', l, True) \<and> locks s' k = Some l \<and>
           length (le_Since (list_entry l)) = 20 \<and>
           parseRFC3339 (le_Since (list_entry l)) = Some (nanos now div nsPerSec)"
proof -
  obtain s' l ok where acq: "acquire s k w f now = (s', l, ok)" by (cases "acquire s k w f now")
  from acquire_table [OF acq] assms(1,2) have "ok" "locks s' k = Some l" "Since l = UTC now"
    by (auto simp: lock_entry_def)
  with acq assms(3) formatRFC3339_UTC [of now] show ?thesis by (simp add: list_entry_def)
qed

theorem since_is_rfc3339_witness:
  "\<exists>s' l. acquire newStore ''k'' ''a'' False \<lparr>nanos = 68255999 * 1000000000 + 5, zone = 7200\<rparr> = (s', l, True) \<and>
     locks s' ''k'' = Some l \<and> le_Since (list_entry l) = ''1972-02-29T23:59:59Z'' \<and>
     parseRFC3339 (le_Since (list_entry l)) = Some 68255999"
proof -
  let ?now = "\<lparr>nanos = 68255999 * 1000000000 + 5, zone = 7200\<rparr>"
  have secs: "nanos ?now div nsPerSec = 68255999" by (simp add: nsPerSec_def)
  have c: "civil_of 68255999 = \<lparr>year = 1972, month = 2, day = 29, hour = 23, minute = 59, second = 59\<rparr>"
    by (simp add: civil_of_def year_of.simps year_len_def leap_def month_lens_def)
  have "formatRFC3339 (UTC ?now) = print_civil (civil_of 68255999) @ ''Z''"
    by (simp add: formatRFC3339_def local_secs_def print_zone_def nsPerSec_def)
  also have "\<dots> = ''1972-02-29T23:59:59Z''" unfolding c by code_simp
  finally have printed: "formatRFC3339 (UTC ?now) = ''1972-02-29T23:59:59Z''" .
  have "year (civil_of (nanos ?now div nsPerSec)) \<le> 9999" unfolding secs c by simp
  then obtain s' l where acq: "acquire newStore ''k'' ''a'' False ?now = (s', l, True)" "locks s' ''k'' = Some l"
    "parseRFC3339 (le_Since (list_entry l)) = Some 68255999"
    using since_is_rfc3339 [of newStore "''k''" "''a''" False ?now] unfolding secs by (auto simp: newStore_def holder_def)
  moreover from acq(1) have "l = \<lparr>Key = ''k'', Lockee = ''a'', Since = UTC ?now\<rparr>"
    by (simp add: store_laws newStore_def)
  ultimately show ?thesis using printed by (simp add: list_entry_def)
qed

end
