(* ===== verification/Go_Mutex.thy ===== *)
theory Go_Mutex
  imports Go_Inmemory
begin

text \<open>
  The goroutines of \<^verbatim>\<open>solutions/go-inmemory/main.go\<close> and their \<^verbatim>\<open>sync.RWMutex\<close>. Every request is
  served by a goroutine of its own, which calls \<^verbatim>\<open>acquire\<close>, \<^verbatim>\<open>release\<close> or \<^verbatim>\<open>list\<close>; the model
  interleaves their single memory accesses in any order the mutex allows: taking the mutex, reading
  the map, stamping, writing the map, each iteration of \<^verbatim>\<open>list\<close>'s loop, and the deferred unlock are
  separate steps of \<open>gstep\<close>.

  \<^verbatim>\<open>RWMutex.Lock\<close> first settles with the other writers which of them goes on, which at once keeps new
  readers out (\<^verbatim>\<open>sync\<close>: a blocked \<^verbatim>\<open>Lock\<close> call excludes new readers from acquiring the lock), and then
  waits until the readers inside have left. \<open>pending\<close> is the writer that has got through the first part,
  until its \<^verbatim>\<open>Unlock\<close>; \<open>writer\<close> is set when it has also got through the second. A reader waits while a
  writer is pending, inside or not.

  The history \<open>hist\<close> is a ghost: it records for each goroutine the call, the step at which its result
  is fixed (\<open>Lin\<close>), and the return. The theorems say that the results fixed are those of the atomic
  operations of \<open>Go_Inmemory\<close> run in that order, between call and return: the store is linearizable.
\<close>

type_synonym tid = nat

datatype call = CAcquire string string bool | CRelease string string | CList

datatype op = OpAcquire string string bool time | OpRelease string string | OpList "string list"

datatype ret = RetAcquire Lock bool | RetRelease nat string | RetList "Lock list"

datatype event = Call tid call | Lin tid op ret | Return tid ret

record RWMutex =
  pending :: "tid option"
  writer :: "tid option"
  readers :: "tid set"

text \<open>Where a goroutine is in the code; the lines are those of \<^verbatim>\<open>main.go\<close>.\<close>

datatype pc =
    Idle
  | A_Lock string string bool                \<comment> \<open>line 26, waiting for the other writers\<close>
  | A_Drain string string bool               \<comment> \<open>line 26, pending, waiting for the readers inside\<close>
  | A_Read string string bool                \<comment> \<open>line 28\<close>
  | A_Check string string bool "Lock option" \<comment> \<open>lines 29 to 37, with the entry read\<close>
  | A_Store string string bool Lock          \<comment> \<open>line 38\<close>
  | R_Lock string string                     \<comment> \<open>line 43, waiting for the other writers\<close>
  | R_Drain string string                    \<comment> \<open>line 43, pending, waiting for the readers inside\<close>
  | R_Read string string                     \<comment> \<open>line 46\<close>
  | R_Check string string "Lock option"      \<comment> \<open>lines 47 to 53\<close>
  | W_Unlock ret                             \<comment> \<open>lines 27 and 44: the deferred Unlock, then return\<close>
  | L_RLock                                  \<comment> \<open>line 58\<close>
  | L_Range                                  \<comment> \<open>line 62, before the loop starts\<close>
  | L_Iter "string list" "string list" "Lock list"  \<comment> \<open>lines 62 to 64: order, keys to visit, result so far\<close>
  | L_RUnlock ret                            \<comment> \<open>line 59: the deferred RUnlock, then return\<close>

record conc =
  mu :: RWMutex
  mem :: store
  pcs :: "tid \<Rightarrow> pc"
  hist :: "event list"

fun start :: "call \<Rightarrow> pc" where
  "start (CAcquire k w f) = A_Lock k w f"
| "start (CRelease k w) = R_Lock k w"
| "start CList = L_RLock"

definition goto :: "conc \<Rightarrow> tid \<Rightarrow> pc \<Rightarrow> conc" where
  "goto c t p = c\<lparr>pcs := (pcs c)(t := p)\<rparr>"

definition emit :: "event \<Rightarrow> conc \<Rightarrow> conc" where
  "emit e c = c\<lparr>hist := hist c @ [e]\<rparr>"

definition conc_init :: conc where
  "conc_init = \<lparr>mu = \<lparr>pending = None, writer = None, readers = {}\<rparr>, mem = newStore, pcs = (\<lambda>_. Idle), hist = []\<rparr>"

inductive gstep :: "tid \<Rightarrow> conc \<Rightarrow> conc \<Rightarrow> bool" where
  call: "pcs c t = Idle \<Longrightarrow> gstep t c (emit (Call t q) (goto c t (start q)))"
| acq_lock: "pcs c t = A_Lock k w f \<Longrightarrow> pending (mu c) = None \<Longrightarrow>
    gstep t c (goto (c\<lparr>mu := (mu c)\<lparr>pending := Some t\<rparr>\<rparr>) t (A_Drain k w f))"
| acq_drain: "pcs c t = A_Drain k w f \<Longrightarrow> readers (mu c) = {} \<Longrightarrow>
    gstep t c (goto (c\<lparr>mu := (mu c)\<lparr>writer := Some t\<rparr>\<rparr>) t (A_Read k w f))"
| acq_read: "pcs c t = A_Read k w f \<Longrightarrow> gstep t c (goto c t (A_Check k w f (locks (mem c) k)))"
| acq_same: "pcs c t = A_Check k w f (Some l) \<Longrightarrow> Lockee l = w \<Longrightarrow>
    gstep t c (emit (Lin t (OpAcquire k w f now) (RetAcquire l True)) (goto c t (W_Unlock (RetAcquire l True))))"
| acq_refuse: "pcs c t = A_Check k w False (Some l) \<Longrightarrow> Lockee l \<noteq> w \<Longrightarrow>
    gstep t c (emit (Lin t (OpAcquire k w False now) (RetAcquire l False)) (goto c t (W_Unlock (RetAcquire l False))))"
| acq_free: "pcs c t = A_Check k w f None \<Longrightarrow>
    gstep t c (goto c t (A_Store k w f \<lparr>Key = k, Lockee = w, Since = UTC now\<rparr>))"
| acq_force: "pcs c t = A_Check k w True (Some l) \<Longrightarrow> Lockee l \<noteq> w \<Longrightarrow>
    gstep t c (goto c t (A_Store k w True \<lparr>Key = k, Lockee = w, Since = UTC now\<rparr>))"
| acq_store: "pcs c t = A_Store k w f l \<Longrightarrow>
    gstep t c (emit (Lin t (OpAcquire k w f (Since l)) (RetAcquire l True))
      (goto (c\<lparr>mem := (mem c)\<lparr>locks := (locks (mem c))(k \<mapsto> l)\<rparr>\<rparr>) t (W_Unlock (RetAcquire l True))))"
| rel_lock: "pcs c t = R_Lock k w \<Longrightarrow> pending (mu c) = None \<Longrightarrow>
    gstep t c (goto (c\<lparr>mu := (mu c)\<lparr>pending := Some t\<rparr>\<rparr>) t (R_Drain k w))"
| rel_drain: "pcs c t = R_Drain k w \<Longrightarrow> readers (mu c) = {} \<Longrightarrow>
    gstep t c (goto (c\<lparr>mu := (mu c)\<lparr>writer := Some t\<rparr>\<rparr>) t (R_Read k w))"
| rel_read: "pcs c t = R_Read k w \<Longrightarrow> gstep t c (goto c t (R_Check k w (locks (mem c) k)))"
| rel_missing: "pcs c t = R_Check k w None \<Longrightarrow>
    gstep t c (emit (Lin t (OpRelease k w) (RetRelease StatusNotFound ''not found''))
      (goto c t (W_Unlock (RetRelease StatusNotFound ''not found''))))"
| rel_mismatch: "pcs c t = R_Check k w (Some l) \<Longrightarrow> Lockee l \<noteq> w \<Longrightarrow>
    gstep t c (emit (Lin t (OpRelease k w) (RetRelease StatusForbidden ''lockee mismatch''))
      (goto c t (W_Unlock (RetRelease StatusForbidden ''lockee mismatch''))))"
| rel_delete: "pcs c t = R_Check k w (Some l) \<Longrightarrow> Lockee l = w \<Longrightarrow>
    gstep t c (emit (Lin t (OpRelease k w) (RetRelease StatusOK []))
      (goto (c\<lparr>mem := (mem c)\<lparr>locks := (locks (mem c))(k := None)\<rparr>\<rparr>) t (W_Unlock (RetRelease StatusOK []))))"
| unlock: "pcs c t = W_Unlock r \<Longrightarrow>
    gstep t c (emit (Return t r) (goto (c\<lparr>mu := (mu c)\<lparr>pending := None, writer := None\<rparr>\<rparr>) t Idle))"
| list_rlock: "pcs c t = L_RLock \<Longrightarrow> pending (mu c) = None \<Longrightarrow>
    gstep t c (goto (c\<lparr>mu := (mu c)\<lparr>readers := insert t (readers (mu c))\<rparr>\<rparr>) t L_Range)"
| list_range: "pcs c t = L_Range \<Longrightarrow> range_ok (locks (mem c)) ord \<Longrightarrow>
    gstep t c (goto c t (L_Iter ord ord []))"
| list_next: "pcs c t = L_Iter ord (k # todo) acc \<Longrightarrow>
    gstep t c (goto c t (L_Iter ord todo (acc @ range_values (locks (mem c)) [k])))"
| list_done: "pcs c t = L_Iter ord [] acc \<Longrightarrow>
    gstep t c (emit (Lin t (OpList ord) (RetList acc)) (goto c t (L_RUnlock (RetList acc))))"
| runlock: "pcs c t = L_RUnlock r \<Longrightarrow>
    gstep t c (emit (Return t r) (goto (c\<lparr>mu := (mu c)\<lparr>readers := readers (mu c) - {t}\<rparr>\<rparr>) t Idle))"

inductive conc_reachable :: "conc \<Rightarrow> bool" where
  init: "conc_reachable conc_init"
| step: "conc_reachable c \<Longrightarrow> gstep t c c' \<Longrightarrow> conc_reachable c'"

subsection \<open>Linearizability\<close>

fun atomic :: "store \<Rightarrow> op \<Rightarrow> store \<times> ret" where
  "atomic s (OpAcquire k w f now) = (let (s', l, ok) = acquire s k w f now in (s', RetAcquire l ok))"
| "atomic s (OpRelease k w) = (let (s', status, msg) = release s k w in (s', RetRelease status msg))"
| "atomic s (OpList ord) = (s, RetList (list_locks s ord))"

fun lin_of :: "event \<Rightarrow> (op \<times> ret) list" where
  "lin_of (Lin t q r) = [(q, r)]"
| "lin_of e = []"

definition lins :: "event list \<Rightarrow> (op \<times> ret) list" where
  "lins es = concat (map lin_of es)"

text \<open>Running operations one after the other; \<^const>\<open>None\<close> when a recorded result is not the atomic one.\<close>

fun replay :: "store \<Rightarrow> (op \<times> ret) list \<Rightarrow> store option" where
  "replay s [] = Some s"
| "replay s ((q, r) # qs) = (let (s', r') = atomic s q in if r' = r then replay s' qs else None)"

text \<open>A goroutine's events must come as call, fixed result of that call, return of that result.\<close>

datatype phase = Out | Called call | Fixed ret

fun call_of :: "op \<Rightarrow> call" where
  "call_of (OpAcquire k w f now) = CAcquire k w f"
| "call_of (OpRelease k w) = CRelease k w"
| "call_of (OpList ord) = CList"

fun next_phase :: "tid \<Rightarrow> phase option \<Rightarrow> event \<Rightarrow> phase option" where
  "next_phase t p (Call t' q) =
     (if t' \<noteq> t then p else if p = Some Out then Some (Called q) else None)"
| "next_phase t p (Lin t' q r) =
     (if t' \<noteq> t then p else if p = Some (Called (call_of q)) then Some (Fixed r) else None)"
| "next_phase t p (Return t' r) =
     (if t' \<noteq> t then p else if p = Some (Fixed r) then Some Out else None)"

definition phase_of :: "tid \<Rightarrow> event list \<Rightarrow> phase option" where
  "phase_of t es = foldl (next_phase t) (Some Out) es"

subsection \<open>The invariant\<close>

fun pc_phase :: "pc \<Rightarrow> phase" where
  "pc_phase Idle = Out"
| "pc_phase (A_Lock k w f) = Called (CAcquire k w f)"
| "pc_phase (A_Drain k w f) = Called (CAcquire k w f)"
| "pc_phase (A_Read k w f) = Called (CAcquire k w f)"
| "pc_phase (A_Check k w f e) = Called (CAcquire k w f)"
| "pc_phase (A_Store k w f l) = Called (CAcquire k w f)"
| "pc_phase (R_Lock k w) = Called (CRelease k w)"
| "pc_phase (R_Drain k w) = Called (CRelease k w)"
| "pc_phase (R_Read k w) = Called (CRelease k w)"
| "pc_phase (R_Check k w e) = Called (CRelease k w)"
| "pc_phase (W_Unlock r) = Fixed r"
| "pc_phase L_RLock = Called CList"
| "pc_phase L_Range = Called CList"
| "pc_phase (L_Iter ord todo acc) = Called CList"
| "pc_phase (L_RUnlock r) = Fixed r"

fun writing :: "pc \<Rightarrow> bool" where
  "writing (A_Read k w f) = True"
| "writing (A_Check k w f e) = True"
| "writing (A_Store k w f l) = True"
| "writing (R_Read k w) = True"
| "writing (R_Check k w e) = True"
| "writing (W_Unlock r) = True"
| "writing p = False"

fun reading :: "pc \<Rightarrow> bool" where
  "reading L_Range = True"
| "reading (L_Iter ord todo acc) = True"
| "reading (L_RUnlock r) = True"
| "reading p = False"

fun draining :: "pc \<Rightarrow> bool" where
  "draining (A_Drain k w f) = True"
| "draining (R_Drain k w) = True"
| "draining p = False"

text \<open>What a goroutine knows about the map at each place, while it holds the mutex.\<close>

fun pc_ok :: "store \<Rightarrow> pc \<Rightarrow> bool" where
  "pc_ok s (A_Check k w f e) \<longleftrightarrow> locks s k = e"
| "pc_ok s (A_Store k w f l) \<longleftrightarrow> l = \<lparr>Key = k, Lockee = w, Since = UTC (Since l)\<rparr> \<and>
     (case locks s k of None \<Rightarrow> True | Some e \<Rightarrow> Lockee e \<noteq> w \<and> f)"
| "pc_ok s (R_Check k w e) \<longleftrightarrow> locks s k = e"
| "pc_ok s (L_Iter ord todo acc) \<longleftrightarrow> range_ok (locks s) ord \<and>
     (\<exists>seen. ord = seen @ todo \<and> acc = range_values (locks s) seen)"
| "pc_ok s p = True"

definition mutex_inv :: "conc \<Rightarrow> bool" where
  "mutex_inv c \<longleftrightarrow> (\<forall>t. (pending (mu c) = Some t) = (draining (pcs c t) \<or> writing (pcs c t))) \<and>
     (\<forall>t. (writer (mu c) = Some t) = writing (pcs c t)) \<and>
     (\<forall>t. (t \<in> readers (mu c)) = reading (pcs c t)) \<and> (writer (mu c) \<noteq> None \<longrightarrow> readers (mu c) = {})"

definition conc_inv :: "conc \<Rightarrow> bool" where
  "conc_inv c \<longleftrightarrow> mutex_inv c \<and> store_inv (mem c) \<and> (\<forall>t. pc_ok (mem c) (pcs c t)) \<and>
     replay newStore (lins (hist c)) = Some (mem c) \<and>
     (\<forall>t. phase_of t (hist c) = Some (pc_phase (pcs c t)))"

subsection \<open>Lemmas\<close>

lemma goto_sel [simp]:
  "mu (goto c t p) = mu c" "mem (goto c t p) = mem c" "hist (goto c t p) = hist c"
  "pcs (goto c t p) = (pcs c)(t := p)"
  by (simp_all add: goto_def)

lemma emit_sel [simp]:
  "mu (emit e c) = mu c" "mem (emit e c) = mem c" "pcs (emit e c) = pcs c" "hist (emit e c) = hist c @ [e]"
  by (simp_all add: emit_def)

lemma lins_append [simp]: "lins (es @ es') = lins es @ lins es'"
  by (simp add: lins_def)

lemma lins_one [simp]: "lins [e] = lin_of e"
  by (simp add: lins_def)

lemma replay_append [simp]: "replay s (qs @ qs') = Option.bind (replay s qs) (\<lambda>s'. replay s' qs')"
  by (induction qs arbitrary: s) (auto split: prod.split)

lemma phase_of_append [simp]: "phase_of t (es @ [e]) = next_phase t (phase_of t es) e"
  by (simp add: phase_of_def)

lemma start_pc [simp]: "writing (start q) = False" "draining (start q) = False" "reading (start q) = False" "pc_ok s (start q)"
  "pc_phase (start q) = Called q"
  by (cases q; simp)+

lemma pc_ok_outside: "\<not> writing p \<Longrightarrow> \<not> reading p \<Longrightarrow> pc_ok s p"
  by (cases p) simp_all

lemma mutex_invD:
  assumes "mutex_inv c"
  shows pending_iff: "(pending (mu c) = Some t) = (draining (pcs c t) \<or> writing (pcs c t))"
    and writer_iff: "(writer (mu c) = Some t) = writing (pcs c t)"
    and readers_iff: "(t \<in> readers (mu c)) = reading (pcs c t)"
    and writer_readers: "writer (mu c) \<noteq> None \<Longrightarrow> readers (mu c) = {}"
  using assms by (simp_all add: mutex_inv_def)

text \<open>While a goroutine writes, every other one is outside both kinds of critical section.\<close>

lemma writing_alone:
  assumes "mutex_inv c" "writing (pcs c t)" "t' \<noteq> t"
  shows "\<not> writing (pcs c t')" and "\<not> reading (pcs c t')"
proof -
  from assms have w: "writer (mu c) = Some t" by (simp add: mutex_inv_def)
  with assms show "\<not> writing (pcs c t')" using writer_iff [OF assms(1), of t'] by simp
  from w have "readers (mu c) = {}" using writer_readers [OF assms(1)] by simp
  then show "\<not> reading (pcs c t')" using readers_iff [OF assms(1), of t'] by simp
qed

lemma draining_not_writing: "draining p \<Longrightarrow> \<not> writing p"
  by (cases p) simp_all

lemma draining_no_writer: "mutex_inv c \<Longrightarrow> draining (pcs c t) \<Longrightarrow> \<not> writing (pcs c t')"
  using pending_iff [of c t] pending_iff [of c t'] draining_not_writing by fastforce

lemma gstep_mutex: "gstep t c c' \<Longrightarrow> mutex_inv c \<Longrightarrow> mutex_inv c'"
proof (induction rule: gstep.induct)
  case (unlock c t r)
  then have w: "writing (pcs c t)" by simp
  then have "pending (mu c) = Some t" using pending_iff [OF unlock.prems] by simp
  then have alone: "\<not> writing (pcs c t') \<and> \<not> reading (pcs c t') \<and> \<not> draining (pcs c t')" if "t' \<noteq> t" for t'
    using writing_alone [OF unlock.prems w that] pending_iff [OF unlock.prems, of t'] that by auto
  have "readers (mu c) = {}" using unlock alone by (force simp: mutex_inv_def)
  with alone show ?case by (simp add: mutex_inv_def)
next
  case (acq_drain c t k w f)
  then have "\<not> writing (pcs c t')" for t' using draining_no_writer [of c t t'] by simp
  with acq_drain show ?case by (auto simp: mutex_inv_def)
next
  case (rel_drain c t k w)
  then have "\<not> writing (pcs c t')" for t' using draining_no_writer [of c t t'] by simp
  with rel_drain show ?case by (auto simp: mutex_inv_def)
qed (auto simp: mutex_inv_def)

lemma gstep_store: "gstep t c c' \<Longrightarrow> conc_inv c \<Longrightarrow> store_inv (mem c')"
proof (induction rule: gstep.induct)
  case (acq_store c t k w f l)
  then have "pc_ok (mem c) (pcs c t)" unfolding conc_inv_def by blast
  with acq_store.hyps have "l = \<lparr>Key = k, Lockee = w, Since = UTC (Since l)\<rparr>" by simp
  then have "Key l = k" by (metis Lock.select_convs(1))
  with acq_store show ?case by (simp add: conc_inv_def store_inv_put)
qed (auto simp: conc_inv_def store_inv_del)

text \<open>A step that writes the map leaves nobody else with knowledge about it.\<close>

lemma pc_ok_others:
  assumes "mutex_inv c" "\<forall>t. pc_ok (mem c) (pcs c t)" and "s' = mem c \<or> writing (pcs c t)" "t' \<noteq> t"
  shows "pc_ok s' (pcs c t')"
  using assms(3)
proof
  assume "s' = mem c"
  with assms(2) show ?thesis by simp
next
  assume "writing (pcs c t)"
  with writing_alone [OF assms(1) _ assms(4)] show ?thesis by (simp add: pc_ok_outside)
qed

lemma gstep_others: "gstep t c c' \<Longrightarrow> t' \<noteq> t \<Longrightarrow> pcs c' t' = pcs c t'"
  by (induction rule: gstep.induct) auto

lemma gstep_mem: "gstep t c c' \<Longrightarrow> mem c' = mem c \<or> writing (pcs c t)"
  by (induction rule: gstep.induct) auto

lemma gstep_own: "gstep t c c' \<Longrightarrow> pc_ok (mem c) (pcs c t) \<Longrightarrow> pc_ok (mem c') (pcs c' t)"
proof (induction rule: gstep.induct)
  case (list_next c t ord k todo acc)
  then obtain seen where "range_ok (locks (mem c)) ord" "ord = seen @ k # todo"
    "acc = range_values (locks (mem c)) seen" by auto
  then show ?case by (auto intro!: exI [of _ "seen @ [k]"])
qed auto

lemma gstep_pc_ok:
  assumes "gstep t c c'" "mutex_inv c" "\<forall>t. pc_ok (mem c) (pcs c t)"
  shows "pc_ok (mem c') (pcs c' t')"
proof (cases "t' = t")
  case True
  with assms gstep_own show ?thesis by blast
next
  case False
  with pc_ok_others [OF assms(2,3) gstep_mem [OF assms(1)]] gstep_others [OF assms(1)] show ?thesis by simp
qed

lemma gstep_phase:
  assumes "gstep t c c'" "\<forall>t. phase_of t (hist c) = Some (pc_phase (pcs c t))"
  shows "phase_of t' (hist c') = Some (pc_phase (pcs c' t'))"
  using assms by (induction rule: gstep.induct) auto

text \<open>The step that fixes a result agrees with the atomic operation on the current map.\<close>

lemma gstep_replay:
  assumes "gstep t c c'" "pc_ok (mem c) (pcs c t)" "replay newStore (lins (hist c)) = Some (mem c)"
  shows "replay newStore (lins (hist c')) = Some (mem c')"
  using assms
proof (induction rule: gstep.induct)
  case (acq_store c t k w f l)
  then have l: "\<lparr>Key = k, Lockee = w, Since = UTC (Since l)\<rparr> = l"
    and e: "case locks (mem c) k of None \<Rightarrow> True | Some e \<Rightarrow> Lockee e \<noteq> w \<and> f" by auto
  from e have "acquire (mem c) k w f (Since l) =
      ((mem c)\<lparr>locks := (locks (mem c))(k \<mapsto> l)\<rparr>, l, True)"
    by (cases "locks (mem c) k") (auto simp: acquire_def Let_def l)
  with acq_store show ?case by simp
qed (auto simp: store_laws list_locks_def)

lemma gstep_inv: "gstep t c c' \<Longrightarrow> conc_inv c \<Longrightarrow> conc_inv c'"
  using gstep_mutex gstep_store gstep_pc_ok gstep_replay gstep_phase unfolding conc_inv_def by blast

lemma conc_inv_init: "conc_inv conc_init"
  by (simp add: conc_inv_def conc_init_def mutex_inv_def lins_def phase_of_def)

lemma conc_reachable_inv: "conc_reachable c \<Longrightarrow> conc_inv c"
  by (induction rule: conc_reachable.induct) (auto intro: conc_inv_init gstep_inv)

text \<open>A goroutine in a critical section can always move on; a waiting one can when the mutex is free.\<close>

lemma writing_moves:
  assumes "writing (pcs c t)"
  shows "\<exists>c'. gstep t c c'"
proof (cases "pcs c t")
  case (A_Check k w f e)
  show ?thesis
  proof (cases e)
    case None
    with A_Check show ?thesis by (metis gstep.acq_free)
  next
    case (Some l)
    consider "Lockee l = w" | "Lockee l \<noteq> w" "f = True" | "Lockee l \<noteq> w" "f = False" by blast
    then show ?thesis
      using A_Check Some by cases (metis gstep.acq_same, metis gstep.acq_force, metis gstep.acq_refuse)
  qed
next
  case (R_Check k w e)
  then show ?thesis
    by (cases e) (blast intro: gstep.rel_missing gstep.rel_mismatch gstep.rel_delete)+
qed (use assms in \<open>auto intro: gstep.intros\<close>)

lemma reading_moves:
  assumes "reading (pcs c t)" "store_inv (mem c)"
  shows "\<exists>c'. gstep t c c'"
proof (cases "pcs c t")
  case L_Range
  obtain ord where "range_ok (locks (mem c)) ord"
    using assms(2) range_ok_exists [of "locks (mem c)"] by (auto simp: store_inv_def)
  with L_Range show ?thesis by (blast intro: gstep.list_range)
next
  case (L_Iter ord todo acc)
  then show ?thesis by (cases todo) (blast intro: gstep.list_next gstep.list_done)+
qed (use assms in \<open>auto intro: gstep.runlock\<close>)

text \<open>A pending writer moves on when the readers have left; everybody else who waits, when nobody is pending.\<close>

lemma draining_moves: "draining (pcs c t) \<Longrightarrow> readers (mu c) = {} \<Longrightarrow> \<exists>c'. gstep t c c'"
  by (cases "pcs c t") (auto intro: gstep.acq_drain gstep.rel_drain)

lemma waiting_moves:
  assumes "pcs c t \<noteq> Idle" "pending (mu c) = None" "\<not> reading (pcs c t)" "mutex_inv c"
  shows "\<exists>c'. gstep t c c'"
proof -
  have "\<not> writing (pcs c t)" "\<not> draining (pcs c t)" using assms(2) pending_iff [OF assms(4), of t] by auto
  with assms(1-3) show ?thesis
    by (cases "pcs c t") (auto intro: gstep.acq_lock gstep.rel_lock gstep.list_rlock)
qed

lemma busy_moves:
  assumes inv: "conc_inv c" and busy: "pcs c t \<noteq> Idle"
  shows "\<exists>t' c'. pcs c t' \<noteq> Idle \<and> gstep t' c c'"
proof -
  have mutex: "mutex_inv c" and store: "store_inv (mem c)" using inv by (simp_all add: conc_inv_def)
  consider (r) t' where "reading (pcs c t')" | (w) t' where "writing (pcs c t')"
    | (d) t' where "draining (pcs c t')" "readers (mu c) = {}" | (free) "pending (mu c) = None" "\<not> reading (pcs c t)"
    using pending_iff [OF mutex] readers_iff [OF mutex] by (metis all_not_in_conv option.exhaust)
  then show ?thesis
  proof cases
    case (r t')
    then have "pcs c t' \<noteq> Idle" by auto
    with r reading_moves store show ?thesis by blast
  next
    case (w t')
    then have "pcs c t' \<noteq> Idle" by auto
    with w writing_moves show ?thesis by blast
  next
    case (d t')
    then have "pcs c t' \<noteq> Idle" by auto
    with d draining_moves show ?thesis by blast
  next
    case free
    with busy waiting_moves [OF busy free mutex] show ?thesis by blast
  qed
qed

subsection \<open>Properties\<close>

text \<open>C2. The single-map store is linearizable: in every reachable state of any number of goroutines
  the results fixed so far are those of the atomic operations run one after the other from the
  empty store, which also end in the current map; and each goroutine's result is fixed between its
  call and its return and is the one it returns.\<close>

theorem inmemory_linearizable:
  assumes "conc_reachable c"
  shows "replay newStore (lins (hist c)) = Some (mem c) \<and> (\<forall>t. phase_of t (hist c) \<noteq> None)"
  using conc_reachable_inv [OF assms] by (simp_all add: conc_inv_def)

theorem inmemory_linearizable_witness:
  "\<exists>c. conc_reachable c \<and> hist c = [Call 0 CList] \<and> replay newStore (lins (hist c)) = Some (mem c) \<and>
     phase_of 0 (hist c) \<noteq> None"
proof -
  let ?c = "emit (Call 0 CList) (goto conc_init 0 (start CList))"
  have r: "conc_reachable ?c"
    by (rule conc_reachable.step [OF conc_reachable.init gstep.call]) (simp add: conc_init_def)
  show ?thesis
    using r inmemory_linearizable [OF r] by (intro exI [of _ ?c]) (simp add: conc_init_def)
qed

text \<open>C11. The mutex does its work: while a goroutine is between taking and giving back the write
  lock, no other goroutine is in a critical section of either kind, so no two map accesses race.\<close>

theorem no_data_race:
  assumes "conc_reachable c" and "writing (pcs c t)" and "t' \<noteq> t"
  shows "\<not> writing (pcs c t') \<and> \<not> reading (pcs c t')"
  using writing_alone [of c t t'] conc_reachable_inv [OF assms(1)] assms by (simp add: conc_inv_def)

theorem no_data_race_witness:
  "\<exists>c. conc_reachable c \<and> writing (pcs c 0) \<and> \<not> reading (pcs c 1) \<and> \<not> writing (pcs c 1)"
proof -
  let ?c1 = "emit (Call 0 (CRelease ''k'' ''a'')) (goto conc_init 0 (start (CRelease ''k'' ''a'')))"
  let ?c2 = "goto (?c1\<lparr>mu := (mu ?c1)\<lparr>pending := Some 0\<rparr>\<rparr>) 0 (R_Drain ''k'' ''a'')"
  let ?c3 = "goto (?c2\<lparr>mu := (mu ?c2)\<lparr>writer := Some 0\<rparr>\<rparr>) 0 (R_Read ''k'' ''a'')"
  have r1: "conc_reachable ?c1"
    by (rule conc_reachable.step [OF conc_reachable.init gstep.call]) (simp add: conc_init_def)
  have r2: "conc_reachable ?c2"
    by (rule conc_reachable.step [OF r1 gstep.rel_lock]) (simp_all add: conc_init_def)
  have r3: "conc_reachable ?c3"
    by (rule conc_reachable.step [OF r2 gstep.rel_drain]) (simp_all add: conc_init_def)
  have "writing (pcs ?c3 0)" by simp
  with r3 no_data_race [OF r3 this, of 1] show ?thesis by blast
qed

text \<open>C10. No deadlock, with a pending writer keeping new readers out as \<^verbatim>\<open>sync.RWMutex\<close> does: whenever some
  goroutine is in a call, some goroutine that is in a call can take its next step.\<close>

theorem no_deadlock:
  assumes "conc_reachable c" and "pcs c t \<noteq> Idle"
  shows "\<exists>t' c'. pcs c t' \<noteq> Idle \<and> gstep t' c c'"
  using conc_reachable_inv [OF assms(1)] assms(2) by (rule busy_moves)

theorem no_deadlock_witness:
  "\<exists>c t' c'. conc_reachable c \<and> pcs c t' \<noteq> Idle \<and> gstep t' c c'"
proof -
  let ?c = "emit (Call 0 CList) (goto conc_init 0 (start CList))"
  have r: "conc_reachable ?c"
    by (rule conc_reachable.step [OF conc_reachable.init gstep.call]) (simp add: conc_init_def)
  have "pcs ?c 0 \<noteq> Idle" by simp
  from r no_deadlock [OF r this] show ?thesis by blast
qed

end
