(* ===== verification/Go_Sharded.thy ===== *)
theory Go_Sharded
  imports Go_Inmemory "HOL-Library.Word"
begin

text \<open>
  \<^verbatim>\<open>solutions/go-sharded/main.go\<close>: 64 shards, each a map behind its own mutex; a key's shard is the
  low six bits of its 64-bit hash. The hash (\<^verbatim>\<open>go.dw1.io/rapidhash\<close>) is a third-party package, so it
  is a parameter \<open>Hash\<close> of the model, about which nothing is assumed but that it is a function of the
  key. Indexing the shard slice is checked: \<^const>\<open>None\<close> is the panic of an index out of range, which
  the invariant excludes.
\<close>

unbundle bit_operations_syntax

definition SHARD_COUNT :: "64 word" where
  "SHARD_COUNT = 64"

record LockShard =
  shardKey :: "64 word"
  shard_locks :: lock_table

record sharded_store =
  shards :: "LockShard list"

definition sharded_newStore :: sharded_store where
  "sharded_newStore =
     \<lparr>shards = map (\<lambda>i. \<lparr>shardKey = word_of_nat i, shard_locks = Map.empty\<rparr>) [0..<64]\<rparr>"

definition shard_index :: "(string \<Rightarrow> 64 word) \<Rightarrow> string \<Rightarrow> nat" where
  "shard_index Hash key = unat (Hash key AND (SHARD_COUNT - 1))"

definition put_shard :: "sharded_store \<Rightarrow> nat \<Rightarrow> lock_table \<Rightarrow> sharded_store" where
  "put_shard s i m = s\<lparr>shards := (shards s)[i := (shards s ! i)\<lparr>shard_locks := m\<rparr>]\<rparr>"

definition sharded_acquire ::
  "(string \<Rightarrow> 64 word) \<Rightarrow> sharded_store \<Rightarrow> string \<Rightarrow> string \<Rightarrow> bool \<Rightarrow> time \<Rightarrow>
   (sharded_store \<times> Lock \<times> bool) option" where
  "sharded_acquire Hash s key lockee force now =
     (let shard = shard_index Hash key
      in if shard < length (shards s)
         then let m = shard_locks (shards s ! shard);
                  l = \<lparr>Key = key, Lockee = lockee, Since = UTC now\<rparr>;
                  put = (put_shard s shard (m(key \<mapsto> l)), l, True)
              in Some (case m key of
                         Some existing \<Rightarrow>
                           if Lockee existing = lockee then (s, existing, True)
                           else if \<not> force then (s, existing, False)
                           else put
                       | None \<Rightarrow> put)
         else None)"

definition sharded_release ::
  "(string \<Rightarrow> 64 word) \<Rightarrow> sharded_store \<Rightarrow> string \<Rightarrow> string \<Rightarrow> (sharded_store \<times> nat \<times> string) option" where
  "sharded_release Hash s key lockee =
     (let shard = shard_index Hash key
      in if shard < length (shards s)
         then let m = shard_locks (shards s ! shard)
              in Some (case m key of
                         None \<Rightarrow> (s, StatusNotFound, ''not found'')
                       | Some existing \<Rightarrow>
                           if Lockee existing \<noteq> lockee then (s, StatusForbidden, ''lockee mismatch'')
                           else (put_shard s shard (m(key := None)), StatusOK, []))
         else None)"

text \<open>\<^verbatim>\<open>list\<close> walks the shards in order; \<open>ord i\<close> is the iteration order met in shard \<open>i\<close>.\<close>

definition sharded_list :: "sharded_store \<Rightarrow> (nat \<Rightarrow> string list) \<Rightarrow> Lock list" where
  "sharded_list s ord =
     concat (map (\<lambda>i. range_values (shard_locks (shards s ! i)) (ord i)) [0..<length (shards s)])"

definition sharded_serve ::
  "(string \<Rightarrow> 64 word) \<Rightarrow> time \<Rightarrow> (nat \<Rightarrow> string list) \<Rightarrow> sharded_store \<Rightarrow> http_request \<Rightarrow>
   (sharded_store \<times> http_response) option" where
  "sharded_serve Hash = serve (sharded_acquire Hash) (sharded_release Hash) sharded_list"

subsection \<open>Invariant and abstraction\<close>

definition sharded_inv :: "(string \<Rightarrow> 64 word) \<Rightarrow> sharded_store \<Rightarrow> bool" where
  "sharded_inv Hash s \<longleftrightarrow> length (shards s) = 64 \<and>
     (\<forall>i < 64. shardKey (shards s ! i) = word_of_nat i \<and> finite (dom (shard_locks (shards s ! i))) \<and>
        (\<forall>k l. shard_locks (shards s ! i) k = Some l \<longrightarrow> Key l = k \<and> shard_index Hash k = i))"

definition sharded_table :: "(string \<Rightarrow> 64 word) \<Rightarrow> sharded_store \<Rightarrow> lock_table" where
  "sharded_table Hash s k = shard_locks (shards s ! shard_index Hash k) k"

text \<open>The single-map store that a sharded store stands for.\<close>

definition flatten :: "(string \<Rightarrow> 64 word) \<Rightarrow> sharded_store \<Rightarrow> store" where
  "flatten Hash s = \<lparr>locks = sharded_table Hash s\<rparr>"

definition sharded_ord_ok :: "sharded_store \<Rightarrow> (nat \<Rightarrow> string list) \<Rightarrow> bool" where
  "sharded_ord_ok s ord \<longleftrightarrow> (\<forall>i < length (shards s). range_ok (shard_locks (shards s ! i)) (ord i))"

subsection \<open>The shard index\<close>

lemma shard_index_mod: "shard_index Hash k = unat (Hash k) mod 64"
proof -
  have "SHARD_COUNT - 1 = mask 6" by (simp add: SHARD_COUNT_def mask_eq_exp_minus_1)
  then have "shard_index Hash k = unat (take_bit 6 (Hash k))"
    by (simp add: shard_index_def flip: take_bit_eq_mask)
  then show ?thesis by (simp only: unsigned_take_bit_eq) (simp add: take_bit_eq_mod)
qed

lemma shard_index_less [simp]: "shard_index Hash k < 64"
  by (simp add: shard_index_mod)

subsection \<open>Updating one shard\<close>

lemma sharded_invD:
  assumes "sharded_inv Hash s"
  shows inv_length: "length (shards s) = 64"
    and inv_shardKey: "i < 64 \<Longrightarrow> shardKey (shards s ! i) = word_of_nat i"
    and inv_finite: "i < 64 \<Longrightarrow> finite (dom (shard_locks (shards s ! i)))"
    and inv_key: "i < 64 \<Longrightarrow> shard_locks (shards s ! i) k = Some l \<Longrightarrow> Key l = k"
    and inv_index: "i < 64 \<Longrightarrow> shard_locks (shards s ! i) k = Some l \<Longrightarrow> shard_index Hash k = i"
  using assms by (simp_all add: sharded_inv_def)

lemma put_shard_nth:
  "i < length (shards s) \<Longrightarrow> j < length (shards s) \<Longrightarrow>
     shards (put_shard s i m) ! j = (if j = i then (shards s ! i)\<lparr>shard_locks := m\<rparr> else shards s ! j)"
  by (simp add: put_shard_def nth_list_update)

lemma length_put_shard [simp]: "length (shards (put_shard s i m)) = length (shards s)"
  by (simp add: put_shard_def)

lemma sharded_inv_put:
  assumes inv: "sharded_inv Hash s"
    and m: "\<And>k' l'. m k' = Some l' \<Longrightarrow> Key l' = k' \<and> shard_index Hash k' = shard_index Hash k"
    and "finite (dom m)"
  shows "sharded_inv Hash (put_shard s (shard_index Hash k) m)"
  using assms by (auto simp: sharded_inv_def put_shard_nth)

lemma sharded_table_put:
  assumes inv: "sharded_inv Hash s" and upd: "v \<noteq> None \<Longrightarrow> Key (the v) = k"
  shows "sharded_table Hash (put_shard s (shard_index Hash k)
           ((shard_locks (shards s ! shard_index Hash k))(k := v))) = (sharded_table Hash s)(k := v)"
    and "sharded_inv Hash (put_shard s (shard_index Hash k)
           ((shard_locks (shards s ! shard_index Hash k))(k := v)))"
proof -
  note len = inv_length [OF inv]
  show "sharded_table Hash (put_shard s (shard_index Hash k)
      ((shard_locks (shards s ! shard_index Hash k))(k := v))) = (sharded_table Hash s)(k := v)"
    by (rule ext) (simp add: sharded_table_def put_shard_nth len)
  show "sharded_inv Hash (put_shard s (shard_index Hash k)
      ((shard_locks (shards s ! shard_index Hash k))(k := v)))"
  proof (rule sharded_inv_put [OF inv])
    fix k' l'
    assume "((shard_locks (shards s ! shard_index Hash k))(k := v)) k' = Some l'"
    then show "Key l' = k' \<and> shard_index Hash k' = shard_index Hash k"
      using upd inv_key [OF inv shard_index_less] inv_index [OF inv shard_index_less]
      by (auto split: if_splits)
  qed (simp add: inv_finite [OF inv])
qed

lemma sharded_inv_newStore [simp]: "sharded_inv Hash sharded_newStore"
  by (simp add: sharded_inv_def sharded_newStore_def)

lemma sharded_table_newStore [simp]: "sharded_table Hash sharded_newStore = Map.empty"
  by (rule ext) (simp add: sharded_table_def sharded_newStore_def)

subsection \<open>The operations, on the table\<close>

text \<open>Up to \<open>flatten\<close>, a sharded operation is the operation of the single-map store.\<close>

lemma flatten_acquire:
  assumes inv: "sharded_inv Hash s"
  shows "\<exists>s' l ok. sharded_acquire Hash s k w f now = Some (s', l, ok) \<and> sharded_inv Hash s' \<and>
           acquire (flatten Hash s) k w f now = (flatten Hash s', l, ok)"
proof -
  let ?m = "shard_locks (shards s ! shard_index Hash k)"
  have m: "sharded_table Hash s k = ?m k" by (simp add: sharded_table_def)
  show ?thesis
    using sharded_table_put [OF inv, of "Some \<lparr>Key = k, Lockee = w, Since = UTC now\<rparr>" k] inv
    by (auto simp: sharded_acquire_def acquire_def flatten_def m inv_length [OF inv] Let_def
        split: option.splits)
qed

lemma flatten_release:
  assumes inv: "sharded_inv Hash s"
  shows "\<exists>s' status msg. sharded_release Hash s k w = Some (s', status, msg) \<and> sharded_inv Hash s' \<and>
           release (flatten Hash s) k w = (flatten Hash s', status, msg)"
proof -
  let ?m = "shard_locks (shards s ! shard_index Hash k)"
  have m: "sharded_table Hash s k = ?m k" by (simp add: sharded_table_def)
  show ?thesis
    using sharded_table_put [OF inv, of None k] inv
    by (auto simp: sharded_release_def release_def flatten_def m inv_length [OF inv] Let_def
        split: option.splits)
qed

lemma flatten_locks [simp]: "locks (flatten Hash s) = sharded_table Hash s"
  by (simp add: flatten_def)

lemma sharded_table_Some:
  "sharded_inv Hash s \<Longrightarrow>
     sharded_table Hash s k = Some l \<longleftrightarrow> (\<exists>i < 64. shard_locks (shards s ! i) k = Some l)"
  by (auto simp: sharded_table_def intro: shard_index_less dest: inv_index)

lemma dom_sharded_table:
  "sharded_inv Hash s \<Longrightarrow> dom (sharded_table Hash s) = (\<Union>i < 64. dom (shard_locks (shards s ! i)))"
  by (force simp: sharded_table_Some)

lemma flatten_inv: "sharded_inv Hash s \<Longrightarrow> store_inv (flatten Hash s)"
  by (auto simp: store_inv_def dom_sharded_table inv_finite sharded_table_Some dest: inv_key)

subsection \<open>Listing\<close>

lemma sharded_list_flatten:
  assumes inv: "sharded_inv Hash s" and ord: "sharded_ord_ok s ord"
  shows "range_ok (sharded_table Hash s) (concat (map ord [0..<64]))"
    and "sharded_list s ord = list_locks (flatten Hash s) (concat (map ord [0..<64]))"
proof -
  have ok: "range_ok (shard_locks (shards s ! i)) (ord i)" if "i < 64" for i
    using ord that by (simp add: sharded_ord_ok_def inv_length [OF inv])
  have "distinct (concat (map ord [0..<n])) \<and>
      (\<forall>k \<in> set (concat (map ord [0..<n])). shard_index Hash k < n)" if "n \<le> 64" for n
    using that
  proof (induction n)
    case 0
    then show ?case by simp
  next
    case (Suc n)
    have "shard_index Hash k = n" if "k \<in> set (ord n)" for k
      using that Suc.prems ok [of n] inv_index [OF inv, of n k] by (auto simp: range_ok_def)
    with Suc ok [of n] show ?case by (fastforce simp: range_ok_def)
  qed
  then show "range_ok (sharded_table Hash s) (concat (map ord [0..<64]))"
    using ok by (auto simp: range_ok_def dom_sharded_table [OF inv])
  have "range_values (shard_locks (shards s ! i)) (ord i) = range_values (sharded_table Hash s) (ord i)"
    if "i < 64" for i
  proof -
    have "sharded_table Hash s k = shard_locks (shards s ! i) k" if "k \<in> set (ord i)" for k
      using that ok [OF \<open>i < 64\<close>] inv_index [OF inv \<open>i < 64\<close>]
      by (auto simp: range_ok_def sharded_table_def)
    then show ?thesis by (simp cong: range_values_cong)
  qed
  then have "map (\<lambda>i. range_values (shard_locks (shards s ! i)) (ord i)) [0..<64] =
      map (range_values (sharded_table Hash s)) (map ord [0..<64])" by simp
  then show "sharded_list s ord = list_locks (flatten Hash s) (concat (map ord [0..<64]))"
    by (simp only: sharded_list_def list_locks_def inv_length [OF inv] flatten_locks range_values_concat)
qed

interpretation sh: lock_store "sharded_table Hash" "sharded_inv Hash" "sharded_acquire Hash"
  "sharded_release Hash" sharded_list sharded_ord_ok for Hash
proof unfold_locales
  fix s :: sharded_store and k w :: string and f now ord
  assume inv: "sharded_inv Hash s"
  show "Key l = k" if "sharded_table Hash s k = Some l" for l
    using that inv by (auto simp: sharded_table_Some dest: inv_key)
  show "\<exists>s' l. sharded_acquire Hash s k w f now = Some (s', l, may_lock (sharded_table Hash s) k w f) \<and>
      sharded_inv Hash s' \<and> sharded_table Hash s' = lock_entry (sharded_table Hash s) k w f now \<and>
      sharded_table Hash s' k = Some l"
    using flatten_acquire [OF inv, of k w f now] acquire_table [of "flatten Hash s" k w f now] by fastforce
  show "\<exists>s'. sharded_release Hash s k w = Some (s', release_status (sharded_table Hash s) k w,
        release_msg (release_status (sharded_table Hash s) k w)) \<and>
      sharded_inv Hash s' \<and> sharded_table Hash s' = release_entry (sharded_table Hash s) k w"
    using flatten_release [OF inv, of k w] release_table [of "flatten Hash s" k w] by fastforce
  assume ord: "sharded_ord_ok s ord"
  show "set (sharded_list s ord) = ran (sharded_table Hash s)"
    using im.lst_set [OF flatten_inv [OF inv]] sharded_list_flatten [OF inv ord] by simp
  show "distinct (map Key (sharded_list s ord))"
    using im.lst_distinct [OF flatten_inv [OF inv]] sharded_list_flatten [OF inv ord] by simp
qed

lemmas sharded_serve_refines = sh.serve_refines [folded sharded_serve_def]
lemmas sharded_serve_all_refines = sh.serve_all_refines [folded sharded_serve_def]
lemmas sharded_mutual_exclusion = sh.mutual_exclusion_over [folded sharded_serve_def]

subsection \<open>Simulation by the single-map server\<close>

lemma flatten_newStore: "flatten Hash sharded_newStore = newStore"
  by (simp add: flatten_def newStore_def)

lemma flatten_serve:
  assumes inv: "sharded_inv Hash s" and ord: "sharded_ord_ok s ord"
  shows "\<exists>s' resp. sharded_serve Hash now ord s r = Some (s', resp) \<and> sharded_inv Hash s' \<and>
           inmemory_serve now (concat (map ord [0..<64])) (flatten Hash s) r = Some (flatten Hash s', resp)"
proof -
  let ?o = "concat (map ord [0..<64])"
  obtain s' where 1: "sharded_serve Hash now ord s r =
      Some (s', answer (sharded_table Hash s) (sharded_list s ord) r)"
    "sharded_inv Hash s'" "sharded_table Hash s' = spec_table (sharded_table Hash s) now r"
    using sharded_serve_refines [OF inv] by blast
  obtain m where 2: "inmemory_serve now ?o (flatten Hash s) r =
      Some (m, answer (locks (flatten Hash s)) (list_locks (flatten Hash s) ?o) r)"
    "locks m = spec_table (locks (flatten Hash s)) now r"
    using inmemory_serve_refines [OF flatten_inv [OF inv]] by blast
  from 1(3) 2(2) have "m = flatten Hash s'" by (simp add: flatten_def store.equality)
  with 1 2 sharded_list_flatten [OF inv ord] show ?thesis by simp
qed

text \<open>The iteration orders of a request sequence are possible ones when each fits the store it meets.\<close>

fun sharded_orders_ok ::
  "(string \<Rightarrow> 64 word) \<Rightarrow> sharded_store \<Rightarrow> (time \<times> (nat \<Rightarrow> string list) \<times> http_request) list \<Rightarrow> bool" where
  "sharded_orders_ok Hash s [] = True"
| "sharded_orders_ok Hash s ((now, ord, r) # rs) =
     (sharded_ord_ok s ord \<and>
      (case sharded_serve Hash now ord s r of None \<Rightarrow> False | Some (s', _) \<Rightarrow> sharded_orders_ok Hash s' rs))"

lemma flatten_serve_all:
  assumes "sharded_inv Hash s" "sharded_orders_ok Hash s rs"
  shows "\<exists>s' resps. serve_all (sharded_serve Hash) s rs = Some (s', resps) \<and> sharded_inv Hash s' \<and>
           serve_all inmemory_serve (flatten Hash s)
             (map (\<lambda>(now, ord, r). (now, concat (map ord [0..<64]), r)) rs) = Some (flatten Hash s', resps)"
  using assms
proof (induction rs arbitrary: s)
  case Nil
  then show ?case by simp
next
  case (Cons e rs)
  obtain now ord r where e: "e = (now, ord, r)" by (cases e) auto
  with Cons.prems obtain s1 resp where 1: "sharded_serve Hash now ord s r = Some (s1, resp)"
    "sharded_inv Hash s1"
    "inmemory_serve now (concat (map ord [0..<64])) (flatten Hash s) r = Some (flatten Hash s1, resp)"
    using flatten_serve [of Hash s ord now r] by auto
  with Cons.prems e have "sharded_orders_ok Hash s1 rs" by simp
  from Cons.IH [OF 1(2) this] 1 e show ?case by (fastforce split: option.splits)
qed

lemma length_sharded_list:
  assumes "sharded_inv Hash s" "sharded_ord_ok s ord"
  shows "length (sharded_list s ord) = card (dom (sharded_table Hash s))"
  using sharded_list_flatten [OF assms] by (simp add: list_locks_def length_range_values)

subsection \<open>Properties\<close>

text \<open>C3. Sharding is invisible to clients: over any request sequence the sharded server gives,
  byte for byte, the responses that the single-map server gives from the merged store (with the
  shards' iteration orders one after the other, which is an iteration order of the merged map), and
  the stores stay related.\<close>

theorem sharded_simulates_inmemory:
  assumes "sharded_inv Hash s" and "sharded_orders_ok Hash s rs"
  shows "\<exists>s' resps. serve_all (sharded_serve Hash) s rs = Some (s', resps) \<and> sharded_inv Hash s' \<and>
           serve_all inmemory_serve (flatten Hash s)
             (map (\<lambda>(now, ord, r). (now, concat (map ord [0..<64]), r)) rs) = Some (flatten Hash s', resps)"
  using assms by (rule flatten_serve_all)

theorem sharded_simulates_inmemory_witness:
  "\<exists>s' resps. serve_all (sharded_serve (\<lambda>k. word_of_nat (length k))) sharded_newStore
       [(utc 4, \<lambda>_. [], \<lparr>Method = ''GET'', Path = ''/locks'', ReqBody = Empty\<rparr>)] = Some (s', resps) \<and>
     serve_all inmemory_serve (flatten (\<lambda>k. word_of_nat (length k)) sharded_newStore)
       [(utc 4, concat (map (\<lambda>_. []) [0..<64]), \<lparr>Method = ''GET'', Path = ''/locks'', ReqBody = Empty\<rparr>)] =
     Some (flatten (\<lambda>k. word_of_nat (length k)) s', resps)"
proof -
  have "sharded_orders_ok Hash sharded_newStore
      [(utc 4, \<lambda>_. [], \<lparr>Method = ''GET'', Path = ''/locks'', ReqBody = Empty\<rparr>)]" for Hash
    by (auto simp: sharded_ord_ok_def range_ok_def sharded_newStore_def sharded_serve_def serve_locks
        handle_locks_def)
  from sharded_simulates_inmemory [OF sharded_inv_newStore this, of "\<lambda>k. word_of_nat (length k)"]
  show ?thesis by auto
qed

text \<open>C6. The sharded server never panics: whatever the hash function and the requests, from the
  initial store every request is answered and the shard invariant holds afterwards (64 shards, each
  with its own number, holding only locks stored under their own key and belonging to that shard).\<close>

theorem sharded_never_panics:
  "\<exists>s' resps. serve_all (sharded_serve Hash) sharded_newStore rs = Some (s', resps) \<and>
     sharded_inv Hash s' \<and> length resps = length rs"
proof -
  obtain s' resps where *: "serve_all (sharded_serve Hash) sharded_newStore rs = Some (s', resps)"
    "sharded_inv Hash s'"
    "list_all2 (\<lambda>(T, r) resp. \<exists>ls. resp = answer T ls r)
       (spec_tables (sharded_table Hash sharded_newStore) rs) resps"
    using sharded_serve_all_refines [OF sharded_inv_newStore, of Hash rs] by blast
  have "length (spec_tables T rs) = length rs" for T by (induction T rs rule: spec_tables.induct) auto
  with * show ?thesis by (auto dest: list_all2_lengthD)
qed

text \<open>The shard of a key is its hash modulo the number of shards, so the index is always within
  the 64 shards; the mask \<open>SHARD_COUNT - 1\<close> loses nothing because 64 is a power of two.\<close>

lemma shard_index_bounds:
  "shard_index Hash key = unat (Hash key) mod unat SHARD_COUNT \<and>
   shard_index Hash key < length (shards sharded_newStore)"
  by (simp add: shard_index_mod SHARD_COUNT_def sharded_newStore_def)

text \<open>C7. Mutual exclusion on the sharded server, as C1 states it for the single-map server.\<close>

theorem sharded_mutex:
  assumes "sharded_inv Hash s" and "lock_request r = Some q"
    and "may_lock (sharded_table Hash s) (req_Key q) (req_Lockee q) (req_Force q)"
    and "\<forall>(now, ord, r') \<in> set rs.
        \<not> takes_over (req_Key q) (req_Lockee q) r' \<and> \<not> gives_up (req_Key q) (req_Lockee q) r'"
    and "lock_request r2 = Some q2" "req_Key q2 = req_Key q" "req_Lockee q2 \<noteq> req_Lockee q"
      "\<not> req_Force q2"
  shows "\<exists>s' resps.
     serve_all (sharded_serve Hash) s ((t1, o1, r) # rs @ [(t2, o2, r2)]) = Some (s', resps) \<and>
     StatusCode (hd resps) = StatusOK \<and>
     last resps = writeJSON StatusConflict (json_lockConflictResp
        \<lparr>cf_Locked = False, cf_Key = req_Key q, cf_CurrentLockee = req_Lockee q\<rparr>)"
  using assms by (rule sharded_mutual_exclusion)

theorem sharded_mutex_witness:
  "\<exists>s' resps. serve_all (sharded_serve (\<lambda>k. word_of_nat (length k))) sharded_newStore
     [(utc 5, \<lambda>_. [], \<lparr>Method = ''POST'', Path = ''/lock'',
         ReqBody = Json (JObj [(''force'', JBool False), (''key'', JStr ''k''), (''lockee'', JStr ''a'')]) []\<rparr>),
      (utc 7, \<lambda>_. [], \<lparr>Method = ''POST'', Path = ''/lock'',
         ReqBody = Json (JObj [(''force'', JBool False), (''key'', JStr ''k''), (''lockee'', JStr ''b'')]) []\<rparr>)]
     = Some (s', resps) \<and> StatusCode (hd resps) = StatusOK \<and>
     last resps = writeJSON StatusConflict (json_lockConflictResp
        \<lparr>cf_Locked = False, cf_Key = ''k'', cf_CurrentLockee = ''a''\<rparr>)"
  using sharded_mutex [OF sharded_inv_newStore lock_request_json [of "''k''" "''a''" False] _ _
      lock_request_json [of "''k''" "''b''" False], of "\<lambda>k. word_of_nat (length k)" "[]" "utc 5" "\<lambda>_. []" "utc 7" "\<lambda>_. []"]
  by simp

text \<open>A listing of the sharded store (by itself) returns every held lock exactly once: each key
  at most once, exactly the locks of the table, and as many as there are.\<close>

lemma sharded_list_complete:
  assumes "sharded_inv Hash s" and "sharded_ord_ok s ord"
  shows "set (sharded_list s ord) = ran (sharded_table Hash s) \<and>
         distinct (map Key (sharded_list s ord)) \<and>
         length (sharded_list s ord) = card (dom (sharded_table Hash s))"
  using sh.lst_set [OF assms] sh.lst_distinct [OF assms] length_sharded_list [OF assms] by simp

lemma sharded_list_complete_instance:
  "sharded_ord_ok sharded_newStore (\<lambda>_. []) \<and> sharded_list sharded_newStore (\<lambda>_. []) = []"
proof -
  have "sharded_ord_ok sharded_newStore (\<lambda>_. [])"
    by (auto simp: sharded_ord_ok_def range_ok_def sharded_newStore_def)
  with sharded_list_complete [OF sharded_inv_newStore this, of "\<lambda>k. word_of_nat (length k)"]
  show ?thesis by simp
qed

end
