(* ===== verification/Go_Shard_Walk.thy ===== *)
theory Go_Shard_Walk
  imports Go_Sharded
begin

text \<open>
  Concurrent calls on the sharded store (\<^verbatim>\<open>solutions/go-sharded/main.go\<close>). \<^verbatim>\<open>acquire\<close> and
  \<^verbatim>\<open>release\<close> lock exactly one shard, for their whole body, so each is one step here (\<open>Go_Shard_Mutex\<close>
  interleaves the single accesses under the mutexes and shows that they refine these steps). \<^verbatim>\<open>list\<close>
  locks one shard after the other: a call is a walk with one step per shard, and other calls run
  between its steps.

  The ghost \<open>seen t\<close> collects the tables that existed since goroutine \<open>t\<close> called \<^verbatim>\<open>list\<close>; it gives
  meaning to "held at some moment of the call" and "held during the whole call".
\<close>

type_synonym goroutine = nat

record walk =
  at_shard :: nat
  listed :: "Lock list"

record sconc =
  smem :: sharded_store
  walks :: "goroutine \<Rightarrow> walk option"
  seen :: "goroutine \<Rightarrow> lock_table list"

definition sconc_init :: sconc where
  "sconc_init = \<lparr>smem = sharded_newStore, walks = (\<lambda>_. None), seen = (\<lambda>_. [])\<rparr>"

definition set_smem :: "(string \<Rightarrow> 64 word) \<Rightarrow> sharded_store \<Rightarrow> sconc \<Rightarrow> sconc" where
  "set_smem Hash s c = c\<lparr>smem := s, seen := (\<lambda>t. seen c t @ [sharded_table Hash s])\<rparr>"

definition set_walk :: "goroutine \<Rightarrow> walk option \<Rightarrow> sconc \<Rightarrow> sconc" where
  "set_walk t v c = c\<lparr>walks := (walks c)(t := v)\<rparr>"

text \<open>One iteration of the outer loop of \<^verbatim>\<open>list\<close>, under the shard's read lock.\<close>

definition walk_shard :: "sharded_store \<Rightarrow> string list \<Rightarrow> walk \<Rightarrow> walk" where
  "walk_shard s ord v =
     \<lparr>at_shard = Suc (at_shard v),
      listed = listed v @ range_values (shard_locks (shards s ! at_shard v)) ord\<rparr>"

inductive sstep :: "(string \<Rightarrow> 64 word) \<Rightarrow> sconc \<Rightarrow> sconc \<Rightarrow> bool" for Hash where
  s_acquire: "sharded_acquire Hash (smem c) k w f now = Some (s', l, ok) \<Longrightarrow>
    sstep Hash c (set_smem Hash s' c)"
| s_release: "sharded_release Hash (smem c) k w = Some (s', status, msg) \<Longrightarrow>
    sstep Hash c (set_smem Hash s' c)"
| s_list: "walks c t = None \<Longrightarrow>
    sstep Hash c ((set_walk t (Some \<lparr>at_shard = 0, listed = []\<rparr>) c)
      \<lparr>seen := (seen c)(t := [sharded_table Hash (smem c)])\<rparr>)"
| s_shard: "walks c t = Some v \<Longrightarrow> at_shard v < length (shards (smem c)) \<Longrightarrow>
    range_ok (shard_locks (shards (smem c) ! at_shard v)) ord \<Longrightarrow>
    sstep Hash c (set_walk t (Some (walk_shard (smem c) ord v)) c)"
| s_return: "walks c t = Some v \<Longrightarrow> at_shard v = length (shards (smem c)) \<Longrightarrow>
    sstep Hash c (set_walk t None c)"

inductive sconc_reachable :: "(string \<Rightarrow> 64 word) \<Rightarrow> sconc \<Rightarrow> bool" for Hash where
  s_init: "sconc_reachable Hash sconc_init"
| s_step: "sconc_reachable Hash c \<Longrightarrow> sstep Hash c c' \<Longrightarrow> sconc_reachable Hash c'"

subsection \<open>What a walk has collected\<close>

definition walk_ok :: "(string \<Rightarrow> 64 word) \<Rightarrow> lock_table list \<Rightarrow> walk \<Rightarrow> bool" where
  "walk_ok Hash Ts v \<longleftrightarrow> at_shard v \<le> 64 \<and> distinct (map Key (listed v)) \<and>
     (\<forall>l \<in> set (listed v). shard_index Hash (Key l) < at_shard v \<and> (\<exists>T \<in> set Ts. T (Key l) = Some l)) \<and>
     (\<forall>k l. shard_index Hash k < at_shard v \<and> (\<forall>T \<in> set Ts. T k = Some l) \<longrightarrow> l \<in> set (listed v))"

definition sconc_inv :: "(string \<Rightarrow> 64 word) \<Rightarrow> sconc \<Rightarrow> bool" where
  "sconc_inv Hash c \<longleftrightarrow> sharded_inv Hash (smem c) \<and>
     (\<forall>t v. walks c t = Some v \<longrightarrow> walk_ok Hash (seen c t) v \<and>
        sharded_table Hash (smem c) \<in> set (seen c t))"

lemma walk_okI:
  assumes "at_shard v \<le> 64" "distinct (map Key (listed v))"
    and "\<And>l. l \<in> set (listed v) \<Longrightarrow>
          shard_index Hash (Key l) < at_shard v \<and> (\<exists>T \<in> set Ts. T (Key l) = Some l)"
    and "\<And>k l. shard_index Hash k < at_shard v \<Longrightarrow> (\<And>T. T \<in> set Ts \<Longrightarrow> T k = Some l) \<Longrightarrow> l \<in> set (listed v)"
  shows "walk_ok Hash Ts v"
  using assms by (auto simp: walk_ok_def)

lemma walk_okD:
  assumes "walk_ok Hash Ts v"
  shows walk_at: "at_shard v \<le> 64"
    and walk_distinct: "distinct (map Key (listed v))"
    and walk_index: "l \<in> set (listed v) \<Longrightarrow> shard_index Hash (Key l) < at_shard v"
    and walk_sound: "l \<in> set (listed v) \<Longrightarrow> \<exists>T \<in> set Ts. T (Key l) = Some l"
    and walk_complete: "shard_index Hash k < at_shard v \<Longrightarrow> (\<And>T. T \<in> set Ts \<Longrightarrow> T k = Some l) \<Longrightarrow>
          l \<in> set (listed v)"
  using assms unfolding walk_ok_def by (blast, blast, blast, blast, metis)

lemma walk_ok_more: "walk_ok Hash Ts v \<Longrightarrow> walk_ok Hash (Ts @ [T]) v"
  unfolding walk_ok_def by fastforce

lemma shard_values:
  assumes inv: "sharded_inv Hash s" and i: "i < 64" and ord: "range_ok (shard_locks (shards s ! i)) ord"
  shows "distinct (map Key (range_values (shard_locks (shards s ! i)) ord))"
    and "l \<in> set (range_values (shard_locks (shards s ! i)) ord) \<longleftrightarrow>
           shard_index Hash (Key l) = i \<and> sharded_table Hash s (Key l) = Some l"
proof -
  let ?m = "shard_locks (shards s ! i)"
  have "map Key (range_values ?m ord) = ord"
    using ord inv_key [OF inv i]
    by (auto simp: range_ok_values range_ok_def intro!: map_idI)
  then show "distinct (map Key (range_values ?m ord))" using ord by (simp add: range_ok_distinct)
  have "l \<in> set (range_values ?m ord) \<longleftrightarrow> ?m (Key l) = Some l"
    using ord inv_key [OF inv i] by (auto simp: set_range_values ran_def)
  also have "\<dots> \<longleftrightarrow> shard_index Hash (Key l) = i \<and> sharded_table Hash s (Key l) = Some l"
    using inv_index [OF inv i] by (auto simp: sharded_table_def)
  finally show "l \<in> set (range_values ?m ord) \<longleftrightarrow>
      shard_index Hash (Key l) = i \<and> sharded_table Hash s (Key l) = Some l" .
qed

lemma walk_ok_shard:
  assumes inv: "sharded_inv Hash s" and v: "walk_ok Hash Ts v" "at_shard v < 64"
    and ord: "range_ok (shard_locks (shards s ! at_shard v)) ord" and T: "sharded_table Hash s \<in> set Ts"
  shows "walk_ok Hash Ts (walk_shard s ord v)"
proof -
  let ?new = "range_values (shard_locks (shards s ! at_shard v)) ord"
  note new = shard_values [OF inv v(2) ord]
  show ?thesis
  proof (rule walk_okI)
    have "Key ` set (listed v) \<inter> Key ` set ?new = {}"
      using walk_index [OF v(1)] new(2) by fastforce
    then show "distinct (map Key (listed (walk_shard s ord v)))"
      using walk_distinct [OF v(1)] new(1) by (simp add: walk_shard_def)
    show "at_shard (walk_shard s ord v) \<le> 64" using v(2) by (simp add: walk_shard_def)
    show "shard_index Hash (Key l) < at_shard (walk_shard s ord v) \<and> (\<exists>T \<in> set Ts. T (Key l) = Some l)"
      if "l \<in> set (listed (walk_shard s ord v))" for l
      using that T new(2) walk_index [OF v(1)] walk_sound [OF v(1)]
      by (auto simp: walk_shard_def less_Suc_eq)
    show "l \<in> set (listed (walk_shard s ord v))"
      if k: "shard_index Hash k < at_shard (walk_shard s ord v)" and all: "\<And>T. T \<in> set Ts \<Longrightarrow> T k = Some l"
      for k l
    proof (cases "shard_index Hash k < at_shard v")
      case True
      with walk_complete [OF v(1)] all show ?thesis by (simp add: walk_shard_def)
    next
      case False
      with k have "shard_index Hash k = at_shard v" by (simp add: walk_shard_def)
      moreover have "sharded_table Hash s k = Some l" using all T by simp
      moreover from this have "Key l = k" using sh.tbl_key [OF inv] by simp
      ultimately show ?thesis using new(2) by (simp add: walk_shard_def)
    qed
  qed
qed

subsection \<open>Every reachable state\<close>

lemma set_smem_sel [simp]:
  "smem (set_smem Hash s c) = s" "walks (set_smem Hash s c) = walks c"
  "seen (set_smem Hash s c) t = seen c t @ [sharded_table Hash s]"
  by (simp_all add: set_smem_def)

lemma set_walk_sel [simp]:
  "smem (set_walk t v c) = smem c" "walks (set_walk t v c) = (walks c)(t := v)" "seen (set_walk t v c) = seen c"
  by (simp_all add: set_walk_def)

lemma sconc_inv_mem: "sconc_inv Hash c \<Longrightarrow> sharded_inv Hash s \<Longrightarrow> sconc_inv Hash (set_smem Hash s c)"
  by (auto simp: sconc_inv_def walk_ok_more)

lemma sstep_inv: "sstep Hash c c' \<Longrightarrow> sconc_inv Hash c \<Longrightarrow> sconc_inv Hash c'"
proof (induction rule: sstep.induct)
  case (s_acquire c k w f now s' l ok)
  then have "sharded_inv Hash s'" using flatten_acquire [of Hash "smem c" k w f now]
    by (auto simp: sconc_inv_def)
  with s_acquire show ?case by (simp add: sconc_inv_mem)
next
  case (s_release c k w s' status msg)
  then have "sharded_inv Hash s'" using flatten_release [of Hash "smem c" k w]
    by (auto simp: sconc_inv_def)
  with s_release show ?case by (simp add: sconc_inv_mem)
next
  case (s_list c t)
  then show ?case by (auto simp: sconc_inv_def walk_ok_def)
next
  case (s_shard c t v ord)
  then have "walk_ok Hash (seen c t) (walk_shard (smem c) ord v)"
    by (intro walk_ok_shard) (auto simp: sconc_inv_def inv_length)
  with s_shard show ?case by (auto simp: sconc_inv_def)
next
  case (s_return c t v)
  then show ?case by (auto simp: sconc_inv_def)
qed

lemma sconc_reachable_inv: "sconc_reachable Hash c \<Longrightarrow> sconc_inv Hash c"
proof (induction rule: sconc_reachable.induct)
  case s_init
  show ?case by (simp add: sconc_inv_def sconc_init_def)
qed (rule sstep_inv)

subsection \<open>Walking on while nobody interferes\<close>

lemma walk_on:
  assumes "sconc_reachable Hash c" "walks c t = Some v" "sharded_ord_ok (smem c) ord"
    and "length (shards (smem c)) = 64" "at_shard v \<le> n" "n \<le> 64"
  shows "\<exists>c'. sconc_reachable Hash c' \<and> smem c' = smem c \<and> seen c' = seen c \<and>
           walks c' t = Some \<lparr>at_shard = n, listed = listed v @
             concat (map (\<lambda>i. range_values (shard_locks (shards (smem c) ! i)) (ord i)) [at_shard v..<n])\<rparr>"
  using assms(5,6)
proof (induction n rule: dec_induct)
  case base
  show ?case using assms(1,2) by (intro exI [of _ c]) simp
next
  case (step n)
  then obtain c' where c': "sconc_reachable Hash c'" "smem c' = smem c" "seen c' = seen c"
    "walks c' t = Some \<lparr>at_shard = n, listed = listed v @
       concat (map (\<lambda>i. range_values (shard_locks (shards (smem c) ! i)) (ord i)) [at_shard v..<n])\<rparr>" by auto
  have "sstep Hash c' (set_walk t (Some (walk_shard (smem c') (ord n) (the (walks c' t)))) c')"
    using c' assms(3,4) step.prems by (intro sstep.s_shard) (auto simp: sharded_ord_ok_def)
  from sconc_reachable.s_step [OF c'(1) this] show ?case
    using c' step.hyps by (intro exI [of _ "set_walk t _ c'"] conjI) (simp_all add: walk_shard_def)
qed

lemma start_walk:
  "\<exists>c. sconc_reachable Hash c \<and> smem c = sharded_newStore \<and> seen c 0 = [Map.empty] \<and>
     walks c 0 = Some \<lparr>at_shard = 0, listed = []\<rparr>"
  by (rule exI, rule conjI, rule sconc_reachable.s_step [OF sconc_reachable.s_init sstep.s_list [where t = 0]])
    (simp_all add: sconc_init_def)

lemma newStore_ord: "sharded_ord_ok sharded_newStore (\<lambda>_. [])"
  by (auto simp: sharded_ord_ok_def range_ok_def sharded_newStore_def)

lemma walk_empty:
  "n \<le> 64 \<Longrightarrow> \<exists>c. sconc_reachable Hash c \<and> smem c = sharded_newStore \<and> seen c 0 = [Map.empty] \<and>
     walks c 0 = Some \<lparr>at_shard = n, listed = []\<rparr>"
proof -
  assume n: "n \<le> 64"
  obtain c where c: "sconc_reachable Hash c" "smem c = sharded_newStore" "seen c 0 = [Map.empty]"
    "walks c 0 = Some \<lparr>at_shard = 0, listed = []\<rparr>" using start_walk by blast
  have "sharded_ord_ok (smem c) (\<lambda>_. [])" "length (shards (smem c)) = 64"
    using newStore_ord by (simp_all add: c(2) inv_length [OF sharded_inv_newStore])
  from walk_on [OF c(1,4) this, of n] n obtain c' where "sconc_reachable Hash c'" "smem c' = smem c"
    "seen c' = seen c" "walks c' 0 = Some \<lparr>at_shard = n, listed = []\<rparr>" by auto
  with c show ?thesis by (intro exI [of _ c']) simp
qed

text \<open>The locks of two different shards, taken between the visits of the two.\<close>

lemma two_locks:
  assumes "shard_index Hash a \<noteq> shard_index Hash b" and "sconc_reachable Hash c" "smem c = sharded_newStore"
  defines "la \<equiv> \<lparr>Key = a, Lockee = [], Since = utc 0\<rparr>" and "lb \<equiv> \<lparr>Key = b, Lockee = [], Since = utc 0\<rparr>"
  shows "\<exists>c'. sconc_reachable Hash c' \<and> sharded_inv Hash (smem c') \<and>
           sharded_table Hash (smem c') = [a \<mapsto> la, b \<mapsto> lb] \<and> walks c' = walks c \<and>
           seen c' 0 = seen c 0 @ [[a \<mapsto> la], [a \<mapsto> la, b \<mapsto> lb]]"
proof -
  have ab: "b \<noteq> a" using assms(1) by auto
  have inv: "sharded_inv Hash (smem c)" by (simp add: assms(3))
  obtain s1 l1 ok1 where 1: "sharded_acquire Hash (smem c) a [] False (utc 0) = Some (s1, l1, ok1)"
    "sharded_inv Hash s1" "sharded_table Hash s1 = [a \<mapsto> la]"
    using sh.acq_returns [OF inv, of a "[]" False "utc 0"] by (auto simp: assms(3) lock_entry_def holder_def la_def)
  obtain s2 l2 ok2 where 2: "sharded_acquire Hash s1 b [] False (utc 0) = Some (s2, l2, ok2)"
    "sharded_inv Hash s2" "sharded_table Hash s2 = [a \<mapsto> la, b \<mapsto> lb]"
    using sh.acq_returns [OF 1(2), of b "[]" False "utc 0"] ab
    by (auto simp: 1(3) lock_entry_def holder_def lb_def)
  let ?c1 = "set_smem Hash s1 c"
  have r1: "sconc_reachable Hash ?c1"
    by (rule sconc_reachable.s_step [OF assms(2) sstep.s_acquire [OF 1(1)]])
  have "sconc_reachable Hash (set_smem Hash s2 ?c1)"
    by (rule sconc_reachable.s_step [OF r1 sstep.s_acquire]) (use 2(1) in simp)
  with 1 2 show ?thesis by (intro exI [of _ "set_smem Hash s2 ?c1"]) simp
qed

lemma sharded_ord_exists: "sharded_inv Hash s \<Longrightarrow> \<exists>ord. sharded_ord_ok s ord"
proof -
  assume "sharded_inv Hash s"
  then have "\<forall>i < 64. \<exists>o1. range_ok (shard_locks (shards s ! i)) o1"
    using range_ok_exists inv_finite by blast
  then obtain ord where "\<forall>i < 64. range_ok (shard_locks (shards s ! i)) (ord i)" by metis
  with \<open>sharded_inv Hash s\<close> show ?thesis by (auto simp: sharded_ord_ok_def inv_length)
qed

subsection \<open>Properties\<close>

text \<open>C8. What a concurrent \<^verbatim>\<open>list\<close> of the sharded store returns: when the walk is over (all shards
  read), every lock listed was held at some moment since the call, every lock held during the whole
  call is listed, and no key is listed twice.\<close>

theorem concurrent_list_result:
  assumes "sconc_reachable Hash c" and "walks c t = Some v" and "at_shard v = 64"
  shows "(\<forall>l \<in> set (listed v). \<exists>T \<in> set (seen c t). T (Key l) = Some l) \<and>
         (\<forall>k l. (\<forall>T \<in> set (seen c t). T k = Some l) \<longrightarrow> l \<in> set (listed v)) \<and>
         distinct (map Key (listed v))"
proof -
  have ok: "walk_ok Hash (seen c t) v"
    using sconc_reachable_inv [OF assms(1)] assms(2) by (simp add: sconc_inv_def)
  show ?thesis
    using walk_sound [OF ok] walk_complete [OF ok] walk_distinct [OF ok] by (simp add: assms(3))
qed

theorem concurrent_list_result_witness:
  "\<exists>c. sconc_reachable (\<lambda>k. word_of_nat (length k)) c \<and>
     walks c 0 = Some \<lparr>at_shard = 64, listed = []\<rparr> \<and>
     (\<forall>k l. (\<forall>T \<in> set (seen c 0). T k = Some l) \<longrightarrow> l \<in> set [])"
proof -
  obtain c where "sconc_reachable (\<lambda>k. word_of_nat (length k)) c"
    and "walks c 0 = Some \<lparr>at_shard = 64, listed = []\<rparr>"
    using walk_empty [of 64 "\<lambda>k. word_of_nat (length k)"] by auto
  with concurrent_list_result [OF this] show ?thesis by auto
qed

text \<open>C9. A concurrent listing of the sharded store is not a snapshot: for any two keys whose shards
  differ there is an execution in which the finished listing is not the content of the table at any
  moment of the call. (\<^verbatim>\<open>spec.md\<close> promises "all currently held locks"; the single-map server's
  listing is atomic, as the linearizability of its store in \<open>Go_Mutex\<close> shows.)\<close>

theorem sharded_list_not_snapshot:
  assumes "shard_index Hash a < shard_index Hash b"
  shows "\<exists>c v. sconc_reachable Hash c \<and> walks c 0 = Some v \<and> at_shard v = 64 \<and>
           (\<forall>T \<in> set (seen c 0). ran T \<noteq> set (listed v))"
proof -
  define la where "la = \<lparr>Key = a, Lockee = [], Since = utc 0\<rparr>"
  define lb where "lb = \<lparr>Key = b, Lockee = [], Since = utc 0\<rparr>"
  let ?n = "Suc (shard_index Hash a)"
  have ab: "b \<noteq> a" using assms by auto
  have n: "?n \<le> 64" using shard_index_less [of Hash a] by (simp only: Suc_le_eq)
  obtain c where c: "sconc_reachable Hash c" "smem c = sharded_newStore" "seen c 0 = [Map.empty]"
    "walks c 0 = Some \<lparr>at_shard = ?n, listed = []\<rparr>" using walk_empty [OF n] by blast
  obtain c1 where c1: "sconc_reachable Hash c1" "sharded_inv Hash (smem c1)"
    "sharded_table Hash (smem c1) = [a \<mapsto> la, b \<mapsto> lb]" "walks c1 = walks c"
    "seen c1 0 = [Map.empty, [a \<mapsto> la], [a \<mapsto> la, b \<mapsto> lb]]"
    using two_locks [OF _ c(1,2), of a b] assms c(3) by (auto simp: la_def lb_def)
  obtain ord where ord: "sharded_ord_ok (smem c1) ord" using sharded_ord_exists [OF c1(2)] by blast
  let ?res = "concat (map (\<lambda>i. range_values (shard_locks (shards (smem c1) ! i)) (ord i)) [?n..<64])"
  obtain c2 where c2: "sconc_reachable Hash c2" "seen c2 = seen c1"
    "walks c2 0 = Some \<lparr>at_shard = 64, listed = ?res\<rparr>"
    using walk_on [OF c1(1) _ ord inv_length [OF c1(2)], of 0 _ 64] c(4) c1(4) n by auto
  have mem: "l \<in> set ?res \<longleftrightarrow> shard_index Hash a < shard_index Hash (Key l) \<and> [a \<mapsto> la, b \<mapsto> lb] (Key l) = Some l" for l
    using ord shard_values(2) [OF c1(2)] by (auto simp: sharded_ord_ok_def inv_length [OF c1(2)] c1(3))
  have "shard_index Hash a < shard_index Hash (Key l) \<and> [a \<mapsto> la, b \<mapsto> lb] (Key l) = Some l \<longleftrightarrow> l = lb" for l
    using assms ab by (auto simp: la_def lb_def split: if_splits)
  with mem have res: "set ?res = {lb}" by blast
  have "la \<noteq> lb" using ab by (simp add: la_def lb_def)
  moreover have "ran [a \<mapsto> la, b \<mapsto> lb] = {la, lb}" using ab by (auto simp: ran_def)
  ultimately have "\<forall>T \<in> set (seen c2 0). ran T \<noteq> set ?res" unfolding res c2(2) c1(5) by auto
  with c2 show ?thesis by auto
qed

theorem sharded_list_not_snapshot_witness:
  "\<exists>c v. sconc_reachable (\<lambda>k. word_of_nat (length k)) c \<and> walks c 0 = Some v \<and> at_shard v = 64 \<and>
     (\<forall>T \<in> set (seen c 0). ran T \<noteq> set (listed v))"
  by (rule sharded_list_not_snapshot [of "\<lambda>k. word_of_nat (length k)" "''a''" "''bb''"])
    (simp add: shard_index_mod)

end
