(* ===== verification/Go_Shard_Mutex.thy ===== *)
theory Go_Shard_Mutex
  imports Go_Mutex Go_Shard_Walk
begin

text \<open>
  The goroutines of \<^verbatim>\<open>solutions/go-sharded/main.go\<close> at the grain of single memory accesses. Every shard
  is a map behind an \<^verbatim>\<open>sync.RWMutex\<close> of its own, and what a goroutine does inside a shard is the code
  that \<open>Go_Mutex\<close> models: \<^verbatim>\<open>acquire\<close> and \<^verbatim>\<open>release\<close> run in the shard that the key's hash selects, and each
  iteration of \<^verbatim>\<open>list\<close> takes the read lock of one shard, ranges over its map and gives the lock back.
  So the state is 64 machines of \<open>Go_Mutex\<close>, one per shard, and for each goroutine where it is between
  them; a step is one step of one goroutine in one shard, or one of \<^verbatim>\<open>list\<close>'s steps from shard to shard.

  The coarser model \<open>Go_Shard_Walk\<close>, in which an operation on a shard is one step, is justified here by a
  simulation.
\<close>

datatype fpc =
    FIdle
  | FOne nat               \<comment> \<open>in acquire or release, lines 41 to 83, at this shard\<close>
  | FWalk nat "Lock list"  \<comment> \<open>in list, line 87, before this shard, with the locks collected\<close>
  | FIn nat "Lock list"    \<comment> \<open>in list, lines 88 to 92, inside this shard\<close>

record fconc =
  machines :: "nat \<Rightarrow> conc"
  fpcs :: "tid \<Rightarrow> fpc"

definition fconc_init :: fconc where
  "fconc_init = \<lparr>machines = (\<lambda>_. conc_init), fpcs = (\<lambda>_. FIdle)\<rparr>"

definition fset :: "fconc \<Rightarrow> nat \<Rightarrow> conc \<Rightarrow> tid \<Rightarrow> fpc \<Rightarrow> fconc" where
  "fset c i m t p = c\<lparr>machines := (machines c)(i := m), fpcs := (fpcs c)(t := p)\<rparr>"

fun call_key :: "call \<Rightarrow> string option" where
  "call_key (CAcquire k w f) = Some k"
| "call_key (CRelease k w) = Some k"
| "call_key CList = None"

inductive fstep :: "(string \<Rightarrow> 64 word) \<Rightarrow> tid \<Rightarrow> fconc \<Rightarrow> fconc \<Rightarrow> bool" for Hash where
  f_call: "fpcs c t = FIdle \<Longrightarrow> call_key q = Some k \<Longrightarrow> i = shard_index Hash k \<Longrightarrow> pcs (machines c i) t = Idle \<Longrightarrow>
    fstep Hash t c (fset c i (emit (Call t q) (goto (machines c i) t (start q))) t (FOne i))"
| f_inside: "fpcs c t = FOne i \<or> fpcs c t = FIn i acc \<Longrightarrow> gstep t (machines c i) m \<Longrightarrow>
    pcs (machines c i) t \<noteq> Idle \<Longrightarrow> pcs m t \<noteq> Idle \<Longrightarrow> fstep Hash t c (fset c i m t (fpcs c t))"
| f_return: "fpcs c t = FOne i \<Longrightarrow> gstep t (machines c i) m \<Longrightarrow> pcs (machines c i) t \<noteq> Idle \<Longrightarrow> pcs m t = Idle \<Longrightarrow>
    fstep Hash t c (fset c i m t FIdle)"
| f_list: "fpcs c t = FIdle \<Longrightarrow> fstep Hash t c (c\<lparr>fpcs := (fpcs c)(t := FWalk 0 [])\<rparr>)"
| f_enter: "fpcs c t = FWalk i acc \<Longrightarrow> i < 64 \<Longrightarrow> pcs (machines c i) t = Idle \<Longrightarrow>
    fstep Hash t c (fset c i (emit (Call t CList) (goto (machines c i) t (start CList))) t (FIn i acc))"
| f_leave: "fpcs c t = FIn i acc \<Longrightarrow> pcs (machines c i) t = L_RUnlock (RetList ls) \<Longrightarrow> gstep t (machines c i) m \<Longrightarrow>
    fstep Hash t c (fset c i m t (FWalk (Suc i) (acc @ ls)))"
| f_done: "fpcs c t = FWalk 64 acc \<Longrightarrow> fstep Hash t c (c\<lparr>fpcs := (fpcs c)(t := FIdle)\<rparr>)"

inductive freachable :: "(string \<Rightarrow> 64 word) \<Rightarrow> fconc \<Rightarrow> bool" for Hash where
  f_init: "freachable Hash fconc_init"
| f_step: "freachable Hash c \<Longrightarrow> fstep Hash t c c' \<Longrightarrow> freachable Hash c'"

subsection \<open>Every shard is a machine of its own\<close>

lemma fset_sel [simp]:
  "machines (fset c i m t p) = (machines c)(i := m)" "fpcs (fset c i m t p) = (fpcs c)(t := p)"
  by (simp_all add: fset_def)

lemma fstep_machine:
  "fstep Hash t c c' \<Longrightarrow> machines c' i = machines c i \<or> gstep t (machines c i) (machines c' i)"
proof (induction rule: fstep.induct)
  case (f_enter c t j acc)
  then show ?case using gstep.call [of "machines c j" t CList] by auto
qed (auto intro: gstep.call)

lemma freachable_machine: "freachable Hash c \<Longrightarrow> conc_reachable (machines c i)"
proof (induction rule: freachable.induct)
  case (f_step c t c')
  then show ?case using fstep_machine [OF f_step(2), of i] by (auto intro: conc_reachable.step)
qed (simp add: fconc_init_def conc_reachable.init)

text \<open>Where a goroutine is inside a shard, given where it is between the shards.\<close>

fun at_home :: "(string \<Rightarrow> 64 word) \<Rightarrow> fpc \<Rightarrow> nat \<Rightarrow> pc \<Rightarrow> bool" where
  "at_home Hash (FOne i) j p \<longleftrightarrow>
     (if j = i then p \<noteq> Idle \<and> \<not> reading p \<and>
        (\<forall>q. pc_phase p = Called q \<longrightarrow> (\<exists>k. call_key q = Some k \<and> shard_index Hash k = i))
      else p = Idle)"
| "at_home Hash (FIn i acc) j p \<longleftrightarrow>
     (if j = i then i < 64 \<and> (pc_phase p = Called CList \<or> (\<exists>ls. p = L_RUnlock (RetList ls))) else p = Idle)"
| "at_home Hash (FWalk i acc) j p \<longleftrightarrow> i \<le> 64 \<and> p = Idle"
| "at_home Hash FIdle j p \<longleftrightarrow> p = Idle"

definition homes :: "(string \<Rightarrow> 64 word) \<Rightarrow> fconc \<Rightarrow> bool" where
  "homes Hash c \<longleftrightarrow> (\<forall>t j. at_home Hash (fpcs c t) j (pcs (machines c j) t))"

lemma gstep_one:
  "gstep t m m' \<Longrightarrow> pcs m t \<noteq> Idle \<Longrightarrow> \<not> reading (pcs m t) \<Longrightarrow> pc_phase (pcs m t) \<noteq> Called CList \<Longrightarrow>
     \<not> reading (pcs m' t) \<and> (\<forall>q. pc_phase (pcs m' t) = Called q \<longrightarrow> pc_phase (pcs m t) = Called q)"
  by (induction rule: gstep.induct) auto

lemma gstep_list:
  "gstep t m m' \<Longrightarrow> pc_phase (pcs m t) = Called CList \<Longrightarrow>
     pc_phase (pcs m' t) = Called CList \<or> (\<exists>ls. pcs m' t = L_RUnlock (RetList ls))"
  by (induction rule: gstep.induct) auto

lemma gstep_runlock: "gstep t m m' \<Longrightarrow> pcs m t = L_RUnlock r \<Longrightarrow> pcs m' t = Idle \<and> mem m' = mem m"
  by (induction rule: gstep.induct) auto

lemma homesD: "homes Hash c \<Longrightarrow> at_home Hash (fpcs c t) j (pcs (machines c j) t)"
  by (simp add: homes_def)

text \<open>A step of goroutine \<open>t\<close> in shard \<open>i\<close> concerns nobody else and no other shard.\<close>

lemma homes_fset:
  assumes h: "homes Hash c" and m: "m = machines c i \<or> gstep t (machines c i) m"
    and i: "at_home Hash p i (pcs m t)" and others: "\<And>j. j \<noteq> i \<Longrightarrow> at_home Hash p j (pcs (machines c j) t)"
  shows "homes Hash (fset c i m t p)"
  unfolding homes_def
proof (intro allI)
  fix t' j
  have "pcs m t' = pcs (machines c i) t'" if "t' \<noteq> t" using m gstep_others that by blast
  then show "at_home Hash (fpcs (fset c i m t p) t') j (pcs (machines (fset c i m t p) j) t')"
    using h i others by (cases "t' = t"; cases "j = i") (simp_all add: homes_def)
qed

lemma fstep_homes: "fstep Hash t c c' \<Longrightarrow> homes Hash c \<Longrightarrow> homes Hash c'"
proof (induction rule: fstep.induct)
  case (f_call c t q k i)
  then have q: "start q \<noteq> Idle" by (cases q) auto
  show ?case
  proof (rule homes_fset [OF f_call.prems])
    show "at_home Hash (FOne i) j (pcs (machines c j) t)" if "j \<noteq> i" for j
      using homesD [OF f_call.prems, of t j] f_call.hyps that by simp
  qed (use f_call q in \<open>auto intro: gstep.call\<close>)
next
  case (f_inside c t i acc m)
  note home = homesD [OF f_inside.prems, of t]
  show ?case
  proof (rule homes_fset [OF f_inside.prems])
    show "at_home Hash (fpcs c t) i (pcs m t)"
      using f_inside.hyps home [of i] gstep_one [OF f_inside.hyps(2,3)] gstep_list [OF f_inside.hyps(2)]
        gstep_runlock [OF f_inside.hyps(2)]
      by (elim disjE) fastforce+
  qed (use f_inside home in auto)
next
  case (f_return c t i m)
  show ?case
  proof (rule homes_fset [OF f_return.prems])
    show "at_home Hash FIdle j (pcs (machines c j) t)" if "j \<noteq> i" for j
      using homesD [OF f_return.prems, of t j] f_return.hyps that by simp
  qed (use f_return in auto)
next
  case (f_enter c t i acc)
  show ?case
  proof (rule homes_fset [OF f_enter.prems])
    show "at_home Hash (FIn i acc) j (pcs (machines c j) t)" if "j \<noteq> i" for j
      using homesD [OF f_enter.prems, of t j] f_enter.hyps that by simp
  qed (use f_enter gstep.call [of "machines c i" t CList] in auto)
next
  case (f_leave c t i acc ls m)
  show ?case
  proof (rule homes_fset [OF f_leave.prems])
    show "at_home Hash (FWalk (Suc i) (acc @ ls)) j (pcs (machines c j) t)" if "j \<noteq> i" for j
      using homesD [OF f_leave.prems, of t j] homesD [OF f_leave.prems, of t i] f_leave.hyps that by simp
    show "at_home Hash (FWalk (Suc i) (acc @ ls)) i (pcs m t)"
      using homesD [OF f_leave.prems, of t i] f_leave.hyps gstep_runlock [OF f_leave.hyps(3,2)] by simp
  qed (use f_leave in auto)
next
  case (f_list c t)
  then have "pcs (machines c j) t = Idle" for j using homesD [of Hash c t j] by simp
  with f_list show ?case by (auto simp: homes_def)
next
  case (f_done c t acc)
  then have "pcs (machines c j) t = Idle" for j using homesD [of Hash c t j] by simp
  with f_done show ?case by (auto simp: homes_def)
qed

lemma freachable_homes: "freachable Hash c \<Longrightarrow> homes Hash c"
proof (induction rule: freachable.induct)
  case f_init
  show ?case by (simp add: homes_def fconc_init_def conc_init_def)
qed (rule fstep_homes)

subsection \<open>Simulation of the coarse steps\<close>

text \<open>What a step of a machine does to its map: nothing, or the operation whose result it fixes.\<close>

lemma gstep_atomic:
  "gstep t m m' \<Longrightarrow> pc_ok (mem m) (pcs m t) \<Longrightarrow>
     (mem m' = mem m \<and> (\<forall>r. pcs m' t \<noteq> L_RUnlock r)) \<or>
     (\<exists>q k r. call_key (call_of q) = Some k \<and> pc_phase (pcs m t) = Called (call_of q) \<and>
        atomic (mem m) q = (mem m', r)) \<or>
     (\<exists>ord. pc_phase (pcs m t) = Called CList \<and> mem m' = mem m \<and> range_ok (locks (mem m)) ord \<and>
        pcs m' t = L_RUnlock (RetList (range_values (locks (mem m)) ord)))"
proof (induction rule: gstep.induct)
  case (call m t q)
  then show ?case by (cases q) auto
next
  case (acq_same m t k w f l now)
  then show ?case by (intro disjI2 disjI1 exI [of _ "OpAcquire k w f now"]) (simp add: store_laws)
next
  case (acq_refuse m t k w l now)
  then show ?case by (intro disjI2 disjI1 exI [of _ "OpAcquire k w False now"]) (simp add: store_laws)
next
  case (acq_store m t k w f l)
  then have l: "\<lparr>Key = k, Lockee = w, Since = UTC (Since l)\<rparr> = l"
    and e: "case locks (mem m) k of None \<Rightarrow> True | Some e \<Rightarrow> Lockee e \<noteq> w \<and> f" by auto
  from e have "acquire (mem m) k w f (Since l) = ((mem m)\<lparr>locks := (locks (mem m))(k \<mapsto> l)\<rparr>, l, True)"
    by (cases "locks (mem m) k") (auto simp: acquire_def Let_def l)
  with acq_store.hyps show ?case
    by (intro disjI2 disjI1 exI [of _ "OpAcquire k w f (Since l)"]) simp
next
  case (rel_missing m t k w)
  then show ?case by (intro disjI2 disjI1 exI [of _ "OpRelease k w"]) (simp add: store_laws)
next
  case (rel_mismatch m t k w l)
  then show ?case by (intro disjI2 disjI1 exI [of _ "OpRelease k w"]) (simp add: store_laws)
next
  case (rel_delete m t k w l)
  then show ?case by (intro disjI2 disjI1 exI [of _ "OpRelease k w"]) (simp add: store_laws)
qed auto

definition shard_image :: "fconc \<Rightarrow> sharded_store" where
  "shard_image c = \<lparr>shards = map (\<lambda>i. \<lparr>shardKey = word_of_nat i, shard_locks = locks (mem (machines c i))\<rparr>) [0..<64]\<rparr>"

fun walk_image :: "(nat \<Rightarrow> pc) \<Rightarrow> fpc \<Rightarrow> walk option" where
  "walk_image inside (FWalk i acc) = Some \<lparr>at_shard = i, listed = acc\<rparr>"
| "walk_image inside (FIn i acc) =
     (case inside i of
        L_RUnlock (RetList ls) \<Rightarrow> Some \<lparr>at_shard = Suc i, listed = acc @ ls\<rparr>
      | _ \<Rightarrow> Some \<lparr>at_shard = i, listed = acc\<rparr>)"
| "walk_image inside p = None"

definition walks_image :: "fconc \<Rightarrow> tid \<Rightarrow> walk option" where
  "walks_image c t = walk_image (\<lambda>i. pcs (machines c i) t) (fpcs c t)"

lemma shard_image_nth [simp]:
  "i < 64 \<Longrightarrow> shards (shard_image c) ! i = \<lparr>shardKey = word_of_nat i, shard_locks = locks (mem (machines c i))\<rparr>"
  "length (shards (shard_image c)) = 64"
  by (simp_all add: shard_image_def)

lemma shard_image_fset:
  "i < 64 \<Longrightarrow> shard_image (fset c i m t p) = put_shard (shard_image c) i (locks (mem m))"
  by (auto simp: shard_image_def put_shard_def nth_list_update intro!: nth_equalityI)

lemma shard_image_quiet: "mem m = mem (machines c i) \<Longrightarrow> shard_image (fset c i m t p) = shard_image c"
  by (simp add: shard_image_def)

lemma put_shard_same: "i < length (shards s) \<Longrightarrow> put_shard s i (shard_locks (shards s ! i)) = s"
  by (simp add: put_shard_def)

text \<open>An operation on the sharded store is the single-map operation on the shard.\<close>

lemma sharded_acquire_image:
  assumes "i = shard_index Hash k" "acquire (mem (machines c i)) k w f now = (s', l, ok)"
  shows "sharded_acquire Hash (shard_image c) k w f now = Some (put_shard (shard_image c) i (locks s'), l, ok)"
proof -
  have i: "i < 64" using assms(1) shard_index_less by simp
  have same: "put_shard (shard_image c) i (locks (mem (machines c i))) = shard_image c"
    using put_shard_same [of i "shard_image c"] i by simp
  show ?thesis using assms i same
    by (auto simp: sharded_acquire_def acquire_def Let_def split: option.splits if_splits)
qed

lemma sharded_release_image:
  assumes "i = shard_index Hash k" "release (mem (machines c i)) k w = (s', status, msg)"
  shows "sharded_release Hash (shard_image c) k w = Some (put_shard (shard_image c) i (locks s'), status, msg)"
proof -
  have i: "i < 64" using assms(1) shard_index_less by simp
  have same: "put_shard (shard_image c) i (locks (mem (machines c i))) = shard_image c"
    using put_shard_same [of i "shard_image c"] i by simp
  show ?thesis using assms i same
    by (auto simp: sharded_release_def release_def Let_def split: option.splits if_splits)
qed

subsection \<open>Every fine step is a coarse step or none\<close>

definition sim :: "fconc \<Rightarrow> sconc \<Rightarrow> bool" where
  "sim c a \<longleftrightarrow> smem a = shard_image c \<and> walks a = walks_image c"

lemma walks_image_fset:
  assumes "m = machines c i \<or> gstep t (machines c i) m"
  shows "walks_image (fset c i m t p) =
           (walks_image c)(t := walk_image (\<lambda>j. if j = i then pcs m t else pcs (machines c j) t) p)"
proof
  fix t'
  have "pcs m t' = pcs (machines c i) t'" if "t' \<noteq> t" using assms gstep_others that by blast
  then show "walks_image (fset c i m t p) t' =
      ((walks_image c)(t := walk_image (\<lambda>j. if j = i then pcs m t else pcs (machines c j) t) p)) t'"
    by (cases "t' = t") (auto simp: walks_image_def fun_upd_def cong: if_cong intro!: arg_cong2 [of _ _ _ _ walk_image])
qed

lemma walks_image_same:
  assumes "m = machines c i \<or> gstep t (machines c i) m"
    and "walk_image (\<lambda>j. if j = i then pcs m t else pcs (machines c j) t) p = walks_image c t"
  shows "walks_image (fset c i m t p) = walks_image c"
  by (simp add: walks_image_fset [OF assms(1)] assms(2))

lemma walk_image_In:
  "\<forall>r. inside i \<noteq> L_RUnlock r \<Longrightarrow> walk_image inside (FIn i acc) = Some \<lparr>at_shard = i, listed = acc\<rparr>"
  by (auto split: pc.split)

text \<open>An acquire or release that fixes its result in shard \<open>i\<close> is the coarse step on the image.\<close>

lemma key_step:
  assumes "sim c a" "call_key (call_of q) = Some k" "i = shard_index Hash k"
    and "atomic (mem (machines c i)) q = (s', r)"
  shows "sstep Hash a (set_smem Hash (put_shard (shard_image c) i (locks s')) a)"
proof (cases q)
  case (OpAcquire k' w f now)
  obtain s l ok where "acquire (mem (machines c i)) k w f now = (s, l, ok)" by (metis prod_cases3)
  moreover from this have "s = s'" using assms(2,4) OpAcquire by simp
  ultimately have "sharded_acquire Hash (smem a) k w f now = Some (put_shard (shard_image c) i (locks s'), l, ok)"
    using sharded_acquire_image [OF assms(3)] assms(1) by (simp add: sim_def)
  then show ?thesis by (rule sstep.s_acquire)
next
  case (OpRelease k' w)
  obtain s status msg where "release (mem (machines c i)) k w = (s, status, msg)" by (metis prod_cases3)
  moreover from this have "s = s'" using assms(2,4) OpRelease by simp
  ultimately have "sharded_release Hash (smem a) k w = Some (put_shard (shard_image c) i (locks s'), status, msg)"
    using sharded_release_image [OF assms(3)] assms(1) by (simp add: sim_def)
  then show ?thesis by (rule sstep.s_release)
qed (use assms(2) in simp)

lemma one_step:
  assumes sim: "sim c a" and p: "fpcs c t = FOne i" and g: "gstep t (machines c i) m"
    and home: "at_home Hash (FOne i) i (pcs (machines c i) t)" and ok: "pc_ok (mem (machines c i)) (pcs (machines c i) t)"
    and p': "p' = FOne i \<or> p' = FIdle"
  shows "\<exists>a'. (a' = a \<or> sstep Hash a a') \<and> sim (fset c i m t p') a'"
proof -
  have w: "walks_image (fset c i m t p') = walks_image c"
    using g p p' by (intro walks_image_same) (auto simp: walks_image_def)
  have notlist: "pc_phase (pcs (machines c i) t) \<noteq> Called CList" using home by fastforce
  show ?thesis
  proof (cases "mem m = mem (machines c i)")
    case True
    then show ?thesis using sim w shard_image_quiet [OF True] by (intro exI [of _ a]) (simp add: sim_def)
  next
    case False
    with gstep_atomic [OF g ok] obtain q k r where q: "call_key (call_of q) = Some k"
      "pc_phase (pcs (machines c i) t) = Called (call_of q)" "atomic (mem (machines c i)) q = (mem m, r)" by blast
    with home have i: "i = shard_index Hash k" by fastforce
    from key_step [OF sim q(1) i q(3)] show ?thesis
      using sim w i shard_image_fset [of i c m t p'] shard_index_less [of Hash k]
      by (intro exI [of _ "set_smem Hash (put_shard (shard_image c) i (locks (mem m))) a"]) (simp add: sim_def)
  qed
qed

lemma in_step:
  assumes sim: "sim c a" and p: "fpcs c t = FIn i acc" and g: "gstep t (machines c i) m"
    and home: "at_home Hash (FIn i acc) i (pcs (machines c i) t)" and ok: "pc_ok (mem (machines c i)) (pcs (machines c i) t)"
    and busy: "pcs m t \<noteq> Idle"
  shows "\<exists>a'. (a' = a \<or> sstep Hash a a') \<and> sim (fset c i m t (FIn i acc)) a'"
proof -
  have i: "i < 64" and phase: "pc_phase (pcs (machines c i) t) = Called CList"
    using home busy gstep_runlock [OF g] by auto
  then have "\<forall>r. pcs (machines c i) t \<noteq> L_RUnlock r" by auto
  then have v: "walks_image c t = Some \<lparr>at_shard = i, listed = acc\<rparr>"
    unfolding walks_image_def p by (rule walk_image_In)
  consider (quiet) "mem m = mem (machines c i)" "\<forall>r. pcs m t \<noteq> L_RUnlock r"
    | (list) ord where "mem m = mem (machines c i)" "range_ok (locks (mem (machines c i))) ord"
        "pcs m t = L_RUnlock (RetList (range_values (locks (mem (machines c i))) ord))"
    using gstep_atomic [OF g ok] phase by fastforce
  then show ?thesis
  proof cases
    case quiet
    have "walks_image (fset c i m t (FIn i acc)) = walks_image c"
      using g quiet(2) v by (intro walks_image_same) (simp_all add: walk_image_In del: walk_image.simps)
    then show ?thesis using sim shard_image_quiet [OF quiet(1)] by (intro exI [of _ a]) (simp add: sim_def)
  next
    case list
    let ?v = "\<lparr>at_shard = i, listed = acc\<rparr>"
    have "walks a t = Some ?v" using sim v by (simp add: sim_def)
    then have "sstep Hash a (set_walk t (Some (walk_shard (smem a) ord ?v)) a)"
      using sim list i by (intro sstep.s_shard) (simp_all add: sim_def)
    moreover have "walks_image (fset c i m t (FIn i acc)) = (walks_image c)(t := Some (walk_shard (smem a) ord ?v))"
      using g sim i list(3) by (simp add: walks_image_fset walk_shard_def sim_def)
    ultimately show ?thesis using sim shard_image_quiet [OF list(1)]
      by (intro exI [of _ "set_walk t (Some (walk_shard (smem a) ord ?v)) a"]) (simp add: sim_def)
  qed
qed

text \<open>What the invariants of the machines and the places of the goroutines give at a step.\<close>

lemma freachable_ok: "freachable Hash c \<Longrightarrow> pc_ok (mem (machines c i)) (pcs (machines c i) t)"
  using conc_reachable_inv [OF freachable_machine, of Hash c i] by (simp add: conc_inv_def)

lemma fstep_sim:
  assumes "fstep Hash t c c'" "freachable Hash c" "sim c a"
  shows "\<exists>a'. (a' = a \<or> sstep Hash a a') \<and> sim c' a'"
  using assms
proof (induction rule: fstep.induct)
  case (f_call c t q k i)
  let ?m = "emit (Call t q) (goto (machines c i) t (start q))"
  have "walks_image (fset c i ?m t (FOne i)) = walks_image c"
    using f_call.hyps by (intro walks_image_same) (auto simp: walks_image_def intro: gstep.call)
  then show ?case using f_call.prems by (intro exI [of _ a]) (simp add: sim_def shard_image_quiet)
next
  case (f_inside c t i acc m)
  note home = homesD [OF freachable_homes [OF f_inside.prems(1)], of t i]
  note ok = freachable_ok [OF f_inside.prems(1), of i t]
  from f_inside.hyps(1) show ?case
  proof
    assume p: "fpcs c t = FOne i"
    with home show ?thesis using one_step [OF f_inside.prems(2) p f_inside.hyps(2) _ ok] by simp
  next
    assume p: "fpcs c t = FIn i acc"
    with home show ?thesis using in_step [OF f_inside.prems(2) p f_inside.hyps(2) _ ok f_inside.hyps(4)] by simp
  qed
next
  case (f_return c t i m)
  note home = homesD [OF freachable_homes [OF f_return.prems(1)], of t i]
  with f_return.hyps(1) show ?case
    using one_step [OF f_return.prems(2) f_return.hyps(1,2) _ freachable_ok [OF f_return.prems(1)]] by simp
next
  case (f_list c t)
  let ?a = "(set_walk t (Some \<lparr>at_shard = 0, listed = []\<rparr>) a)\<lparr>seen := (seen a)(t := [sharded_table Hash (smem a)])\<rparr>"
  have "sstep Hash a ?a" using f_list by (intro sstep.s_list) (simp add: sim_def walks_image_def)
  moreover have "sim (c\<lparr>fpcs := (fpcs c)(t := FWalk 0 [])\<rparr>) ?a"
    using f_list.prems by (auto simp: sim_def walks_image_def shard_image_def)
  ultimately show ?case by blast
next
  case (f_enter c t i acc)
  let ?m = "emit (Call t CList) (goto (machines c i) t (start CList))"
  have "walks_image (fset c i ?m t (FIn i acc)) = walks_image c"
    using f_enter.hyps gstep.call [of "machines c i" t CList] by (intro walks_image_same) (auto simp: walks_image_def)
  then show ?case using f_enter.prems by (intro exI [of _ a]) (simp add: sim_def shard_image_quiet)
next
  case (f_leave c t i acc ls m)
  note m = gstep_runlock [OF f_leave.hyps(3,2)]
  have "walks_image (fset c i m t (FWalk (Suc i) (acc @ ls))) = walks_image c"
    using f_leave.hyps by (intro walks_image_same) (auto simp: walks_image_def)
  then show ?case using f_leave.prems m by (intro exI [of _ a]) (simp add: sim_def shard_image_quiet)
next
  case (f_done c t acc)
  have "sstep Hash a (set_walk t None a)"
    using f_done by (intro sstep.s_return [where v = "\<lparr>at_shard = 64, listed = acc\<rparr>"])
      (simp_all add: sim_def walks_image_def)
  moreover have "sim (c\<lparr>fpcs := (fpcs c)(t := FIdle)\<rparr>) (set_walk t None a)"
    using f_done.prems by (auto simp: sim_def walks_image_def shard_image_def)
  ultimately show ?case by blast
qed

lemma sim_init: "sim fconc_init sconc_init"
  by (auto simp: sim_def fconc_init_def sconc_init_def shard_image_def conc_init_def walks_image_def
      sharded_newStore_def newStore_def)

lemma freachable_sim: "freachable Hash c \<Longrightarrow> \<exists>a. sconc_reachable Hash a \<and> sim c a"
proof (induction rule: freachable.induct)
  case f_init
  show ?case using sim_init sconc_reachable.s_init by blast
next
  case (f_step c t c')
  then show ?case using fstep_sim by (metis sconc_reachable.s_step)
qed

subsection \<open>Progress\<close>

lemma inside_moves:
  assumes c: "freachable Hash c" and g: "gstep t (machines c i) m" and busy: "pcs (machines c i) t \<noteq> Idle"
  shows "fpcs c t \<noteq> FIdle \<and> (\<exists>c'. fstep Hash t c c')"
proof -
  have home: "at_home Hash (fpcs c t) i (pcs (machines c i) t)" using freachable_homes [OF c] by (rule homesD)
  show ?thesis
  proof (cases "fpcs c t")
    case (FOne j)
    with home busy have "j = i" by (auto split: if_splits)
    with FOne g busy show ?thesis
      by (cases "pcs m t = Idle") (auto intro: fstep.f_return fstep.f_inside)
  next
    case (FIn j acc)
    with home busy have j: "j = i" by (auto split: if_splits)
    show ?thesis
    proof (cases "pcs m t = Idle")
      case False
      with FIn j g busy show ?thesis by (auto intro: fstep.f_inside)
    next
      case True
      then have "\<exists>ls. pcs (machines c i) t = L_RUnlock (RetList ls)"
        using home FIn j gstep_list [OF g] by (auto simp: True)
      with FIn j g show ?thesis by (auto intro: fstep.f_leave)
    qed
  qed (use home busy in auto)
qed

lemma busy_shard_moves:
  assumes "freachable Hash c" "pcs (machines c i) t \<noteq> Idle"
  shows "\<exists>t' c'. fpcs c t' \<noteq> FIdle \<and> fstep Hash t' c c'"
proof -
  obtain t' m where "pcs (machines c i) t' \<noteq> Idle" "gstep t' (machines c i) m"
    using busy_moves [OF conc_reachable_inv [OF freachable_machine [OF assms(1)]] assms(2)] by blast
  with inside_moves [OF assms(1)] show ?thesis by blast
qed

text \<open>A goroutine that holds a shard's write lock: one that has called \<^verbatim>\<open>release\<close> and got through \<^verbatim>\<open>Lock\<close>.\<close>

lemma writing_example:
  "\<exists>c. freachable (\<lambda>_. 0) c \<and> fpcs c 0 = FOne 0 \<and> writing (pcs (machines c 0) 0)"
proof -
  let ?q = "CRelease ''k'' ''a''"
  let ?m1 = "emit (Call 0 ?q) (goto conc_init 0 (start ?q))"
  let ?m2 = "goto (?m1\<lparr>mu := (mu ?m1)\<lparr>pending := Some 0\<rparr>\<rparr>) 0 (R_Drain ''k'' ''a'')"
  let ?m3 = "goto (?m2\<lparr>mu := (mu ?m2)\<lparr>writer := Some 0\<rparr>\<rparr>) 0 (R_Read ''k'' ''a'')"
  let ?c1 = "fset fconc_init 0 ?m1 0 (FOne 0)" let ?c2 = "fset ?c1 0 ?m2 0 (FOne 0)"
  let ?c3 = "fset ?c2 0 ?m3 0 (FOne 0)"
  have "fstep (\<lambda>_. 0) 0 fconc_init ?c1"
    using fstep.f_call [of fconc_init 0 ?q "''k''" 0 "\<lambda>_. 0"]
    by (simp add: fconc_init_def conc_init_def shard_index_mod)
  then have r1: "freachable (\<lambda>_. 0) ?c1" by (rule freachable.f_step [OF freachable.f_init])
  have "gstep 0 ?m1 ?m2" by (rule gstep.rel_lock) (simp_all add: conc_init_def)
  then have "fstep (\<lambda>_. 0) 0 ?c1 ?c2" using fstep.f_inside [of ?c1 0 0 "[]" ?m2 "\<lambda>_. 0"] by simp
  then have r2: "freachable (\<lambda>_. 0) ?c2" by (rule freachable.f_step [OF r1])
  have "gstep 0 ?m2 ?m3" by (rule gstep.rel_drain) (simp_all add: conc_init_def)
  then have "fstep (\<lambda>_. 0) 0 ?c2 ?c3" using fstep.f_inside [of ?c2 0 0 "[]" ?m3 "\<lambda>_. 0"] by simp
  then have "freachable (\<lambda>_. 0) ?c3" by (rule freachable.f_step [OF r2])
  then show ?thesis by (intro exI [of _ ?c3]) simp
qed

subsection \<open>Properties\<close>

text \<open>C4. The sharded store at the grain of single memory accesses refines its coarse model: in every
  reachable state of any number of goroutines, with 64 mutexes taken and given back one by one, the 64
  maps and what each \<^verbatim>\<open>list\<close> call has collected are those of a state that the coarse steps reach, in which
  every acquire, every release and every visit of a shard happens at once; and the results fixed in a
  shard are those of the atomic operations, run on its map one after the other, each fixed between the
  goroutine's entry into the shard and its way out.\<close>

theorem fine_shards_refine:
  assumes "freachable Hash c"
  shows "(\<exists>a. sconc_reachable Hash a \<and> smem a = shard_image c \<and> walks a = walks_image c) \<and>
         (\<forall>i. replay newStore (lins (hist (machines c i))) = Some (mem (machines c i)) \<and>
            (\<forall>t. phase_of t (hist (machines c i)) \<noteq> None))"
  using freachable_sim [OF assms] conc_reachable_inv [OF freachable_machine [OF assms]]
  by (simp add: sim_def conc_inv_def)

theorem fine_shards_refine_witness:
  "\<exists>c a. freachable (\<lambda>_. 0) c \<and> writing (pcs (machines c 0) 0) \<and>
     sconc_reachable (\<lambda>_. 0) a \<and> smem a = shard_image c \<and> walks a = walks_image c"
  using writing_example fine_shards_refine by blast

text \<open>C12. No deadlock among the goroutines of the sharded store, where in each shard a pending writer keeps
  new readers out: whenever some goroutine is in a call, in a shard or between two shards of a
  listing, some goroutine that is in a call can take its next step.\<close>

theorem sharded_no_deadlock:
  assumes "freachable Hash c" and "fpcs c t \<noteq> FIdle"
  shows "\<exists>t' c'. fpcs c t' \<noteq> FIdle \<and> fstep Hash t' c c'"
proof -
  have home: "at_home Hash (fpcs c t) j (pcs (machines c j) t)" for j
    using freachable_homes [OF assms(1)] by (rule homesD)
  show ?thesis
  proof (cases "fpcs c t")
    case (FOne i)
    with home [of i] show ?thesis by (intro busy_shard_moves [OF assms(1), of i t]) simp
  next
    case (FIn i acc)
    with home [of i] show ?thesis by (intro busy_shard_moves [OF assms(1), of i t]) auto
  next
    case (FWalk i acc)
    with home [of i] consider "i = 64" | "i < 64" "pcs (machines c i) t = Idle" by fastforce
    then show ?thesis using FWalk assms(2) by cases (blast intro: fstep.f_done fstep.f_enter)+
  qed (use assms(2) in simp)
qed

theorem sharded_no_deadlock_witness:
  "\<exists>c t' c'. freachable (\<lambda>_. 0) c \<and> writing (pcs (machines c 0) 0) \<and> fpcs c t' \<noteq> FIdle \<and> fstep (\<lambda>_. 0) t' c c'"
proof -
  obtain c where c: "freachable (\<lambda>_. 0) c" "fpcs c 0 = FOne 0" "writing (pcs (machines c 0) 0)"
    using writing_example by blast
  then have "fpcs c 0 \<noteq> FIdle" by simp
  from sharded_no_deadlock [OF c(1) this] c show ?thesis by blast
qed

text \<open>C13. No data race on any shard: while a goroutine is between taking and giving back a shard's write
  lock, no other goroutine is in a critical section of that shard.\<close>

theorem sharded_no_data_race:
  assumes "freachable Hash c" and "writing (pcs (machines c i) t)" and "t' \<noteq> t"
  shows "\<not> writing (pcs (machines c i) t') \<and> \<not> reading (pcs (machines c i) t')"
  using writing_alone [of "machines c i" t t'] conc_reachable_inv [OF freachable_machine [OF assms(1), of i]]
    assms(2,3) by (simp add: conc_inv_def)

theorem sharded_no_data_race_witness:
  "\<exists>c. freachable (\<lambda>_. 0) c \<and> writing (pcs (machines c 0) 0) \<and>
     \<not> writing (pcs (machines c 0) 1) \<and> \<not> reading (pcs (machines c 0) 1)"
proof -
  obtain c where c: "freachable (\<lambda>_. 0) c" "writing (pcs (machines c 0) 0)" using writing_example by blast
  from sharded_no_data_race [OF c, of 1] c show ?thesis by (intro exI [of _ c]) simp
qed

end
