(* ===== verification/Go_Float.thy ===== *)
theory Go_Float
  imports Prelude "HOL-Library.Log_Nat"
begin

text \<open>
  The \<^verbatim>\<open>float64\<close> arithmetic of the benchmark's statistics. A finite float is the rational it stands
  for; an operation computes the exact rational result and rounds it to 53 significant bits, to
  nearest with ties to even (\<open>rnd64\<close>), as IEEE 754 and the Go specification say. The quantities here
  (counts, nanoseconds, percentages, seconds) are far from overflow and underflow, so infinities,
  NaNs and subnormal numbers are not modelled.

  The locale \<open>float_rounding\<close> states what the statistics rely on: rounding is monotone, exact on
  integers up to \<open>2 ^ 53\<close>, and has a relative error of at most \<open>2 ^ -53\<close>. \<open>rnd64\<close> is an instance.
\<close>

type_synonym float64 = rat

definition rne :: "rat \<Rightarrow> int" where
  "rne x = (let f = \<lfloor>x\<rfloor>; d = x - of_int f
            in if d < 1 / 2 then f else if 1 / 2 < d then f + 1 else if even f then f else f + 1)"

text \<open>The binary exponent of a positive rational.\<close>

definition ilog2 :: "rat \<Rightarrow> int" where
  "ilog2 x = (if 1 \<le> x then bitlen \<lfloor>x\<rfloor> - 1 else - bitlen (\<lceil>1 / x\<rceil> - 1))"

definition rnd64 :: "rat \<Rightarrow> float64" where
  "rnd64 x =
     (if x = 0 then 0
      else let e = ilog2 \<bar>x\<bar> - 52 in of_int (rne (x * 2 powi (- e))) * 2 powi e)"

definition f64_of_int :: "int \<Rightarrow> float64" where
  "f64_of_int n = rnd64 (of_int n)"

definition f64_add :: "float64 \<Rightarrow> float64 \<Rightarrow> float64" where
  "f64_add x y = rnd64 (x + y)"

definition f64_mul :: "float64 \<Rightarrow> float64 \<Rightarrow> float64" where
  "f64_mul x y = rnd64 (x * y)"

definition f64_div :: "float64 \<Rightarrow> float64 \<Rightarrow> float64" where
  "f64_div x y = rnd64 (x / y)"

text \<open>Conversion to an integer discards the fraction.\<close>

definition f64_to_int :: "float64 \<Rightarrow> int" where
  "f64_to_int x = (if 0 \<le> x then \<lfloor>x\<rfloor> else \<lceil>x\<rceil>)"

locale float_rounding =
  fixes rnd :: "rat \<Rightarrow> rat"
  assumes rnd_mono: "x \<le> y \<Longrightarrow> rnd x \<le> rnd y"
    and rnd_int: "\<bar>n\<bar> \<le> 2 ^ 53 \<Longrightarrow> rnd (of_int n) = of_int n"
    and rnd_err: "\<bar>rnd x - x\<bar> \<le> \<bar>x\<bar> / 2 ^ 53"
begin

lemma rnd_0: "rnd 0 = 0"
  using rnd_int [of 0] by simp

lemma rnd_nonneg: "0 \<le> x \<Longrightarrow> 0 \<le> rnd x"
  using rnd_mono [of 0 x] by (simp add: rnd_0)

lemma rnd_le_int: "x \<le> of_int n \<Longrightarrow> \<bar>n\<bar> \<le> 2 ^ 53 \<Longrightarrow> rnd x \<le> of_int n"
  using rnd_mono [of x "of_int n"] by (simp add: rnd_int)

lemma int_le_rnd: "of_int n \<le> x \<Longrightarrow> \<bar>n\<bar> \<le> 2 ^ 53 \<Longrightarrow> of_int n \<le> rnd x"
  using rnd_mono [of "of_int n" x] by (simp add: rnd_int)

text \<open>Rounding a quotient does not push it to the next integer, so the truncated quotient is exact.\<close>

lemma floor_rnd_quotient:
  assumes "0 \<le> m" "m < 2 ^ 46" "0 < d" "d \<le> 128"
  shows "\<lfloor>rnd (of_int m / of_int d)\<rfloor> = m div d"
proof -
  let ?x = "of_int m / of_int d :: rat" and ?q = "m div d"
  have "?q \<le> m" using assms by (metis int_one_le_iff_zero_less order_refl div_by_1 zdiv_mono2 zero_less_one)
  then have q: "0 \<le> ?q" "\<bar>?q\<bar> \<le> 2 ^ 53" using assms by (auto simp: pos_imp_zdiv_nonneg_iff)
  have "?q = \<lfloor>?x\<rfloor>" by (simp add: floor_divide_of_int_eq)
  then have lo: "of_int ?q \<le> ?x" by (simp add: floor_le_iff)
  have "m mod d < d" using assms(3) by simp
  moreover have "m = ?q * d + m mod d" by simp
  ultimately have "m + 1 \<le> (?q + 1) * d" by (simp only: distrib_right)
  then have "(of_int (m + 1) :: rat) \<le> of_int ((?q + 1) * d)" by (simp only: of_int_le_iff)
  then have gap: "?x + 1 / of_int d \<le> of_int (?q + 1)" using assms(3) by (simp add: field_simps)
  have "?x * of_int d = of_int m" using assms(3) by simp
  then have "?x / 2 ^ 53 * of_int d < (1 :: rat)" using assms(2) by (simp add: field_simps)
  then have "?x / 2 ^ 53 < 1 / of_int d" using assms(3) by (simp add: pos_less_divide_eq)
  moreover have "0 \<le> ?x" using assms by simp
  ultimately have "rnd ?x < of_int (?q + 1)" using gap rnd_err [of ?x] by linarith
  moreover have "of_int ?q \<le> rnd ?x" using int_le_rnd [OF lo q(2)] .
  ultimately show ?thesis by (simp add: floor_eq_iff)
qed

end

subsection \<open>Rounding to an integer\<close>

lemma rne_of_int [simp]: "rne (of_int n) = n"
  by (simp add: rne_def)

lemma rne_bounds: "\<lfloor>x\<rfloor> \<le> rne x \<and> rne x \<le> \<lfloor>x\<rfloor> + 1"
  by (simp add: rne_def Let_def)

lemma rne_err: "\<bar>of_int (rne x) - x\<bar> \<le> 1 / 2"
  using floor_correct [of x] by (simp add: rne_def Let_def abs_le_iff)

lemma rne_mono: "x \<le> y \<Longrightarrow> rne x \<le> rne y"
proof -
  assume le: "x \<le> y"
  then have "\<lfloor>x\<rfloor> \<le> \<lfloor>y\<rfloor>" by (rule floor_mono)
  then consider "\<lfloor>x\<rfloor> = \<lfloor>y\<rfloor>" | "\<lfloor>x\<rfloor> + 1 \<le> \<lfloor>y\<rfloor>" by linarith
  then show ?thesis
  proof cases
    case 1
    with le show ?thesis by (simp add: rne_def Let_def)
  next
    case 2
    with rne_bounds [of x] rne_bounds [of y] show ?thesis by linarith
  qed
qed

lemma rne_minus: "rne (- x) = - rne x"
proof (cases "x = of_int \<lfloor>x\<rfloor>")
  case True
  then have "rne (- x) = rne (of_int (- \<lfloor>x\<rfloor>))" by simp
  also have "\<dots> = - \<lfloor>x\<rfloor>" by (rule rne_of_int)
  also have "\<dots> = - rne x" using True by (metis rne_of_int)
  finally show ?thesis .
next
  case False
  with floor_correct [of x] have "\<lfloor>- x\<rfloor> = - \<lfloor>x\<rfloor> - 1" by (simp add: floor_eq_iff) linarith
  then show ?thesis by (auto simp: rne_def Let_def)
qed

subsection \<open>The binary exponent\<close>

lemma ilog2_bounds:
  assumes "0 < x"
  shows "2 powi ilog2 x \<le> x" and "x < 2 powi (ilog2 x + 1)"
proof (atomize (full), cases "1 \<le> x")
  case True
  define n where "n = \<lfloor>x\<rfloor>"
  have n: "0 < n" using True by (simp add: n_def)
  define k where "k = nat (bitlen n - 1)"
  have "bitlen n \<noteq> 0" using n by (simp add: bitlen_eq_zero_iff)
  then have bl: "bitlen n = int (Suc k)" using bitlen_nonneg [of n] by (simp add: k_def)
  have "2 ^ k \<le> n" "n < 2 ^ Suc k" using bitlen_bounds [OF n] bl by (simp_all add: nat_add_distrib)
  then have "of_int (2 ^ k) \<le> x" "x < of_int (2 ^ Suc k)"
    unfolding n_def by (simp_all only: le_floor_iff floor_less_iff)
  with True bl show "2 powi ilog2 x \<le> x \<and> x < 2 powi (ilog2 x + 1)"
    by (simp add: ilog2_def n_def [symmetric] power_int_add)
next
  case False
  define n where "n = \<lceil>1 / x\<rceil> - 1"
  have "1 < 1 / x" using False assms by simp
  then have n: "0 < n" by (simp add: n_def less_ceiling_iff)
  define k where "k = nat (bitlen n - 1)"
  have "bitlen n \<noteq> 0" using n by (simp add: bitlen_eq_zero_iff)
  then have bl: "bitlen n = int (Suc k)" using bitlen_nonneg [of n] by (simp add: k_def)
  have "2 ^ k \<le> n" "n < 2 ^ Suc k" using bitlen_bounds [OF n] bl by (simp_all add: nat_add_distrib)
  then have "2 ^ k < \<lceil>1 / x\<rceil>" "\<lceil>1 / x\<rceil> \<le> 2 ^ Suc k" by (simp_all add: n_def)
  then have "of_int (2 ^ k) < 1 / x" "1 / x \<le> of_int (2 ^ Suc k)"
    by (simp_all only: less_ceiling_iff ceiling_le_iff)
  then have 1: "x * 2 ^ k < 1" and 2: "1 \<le> x * 2 ^ Suc k" using assms by (simp_all add: field_simps)
  have "ilog2 x = - int (Suc k)" using False bl by (simp add: ilog2_def n_def [symmetric])
  moreover have "2 powi (- int (Suc k)) \<le> x"
    using 2 unfolding power_int_minus power_int_of_nat by (simp add: field_simps)
  moreover have "x < 2 powi (- int k)"
    using 1 unfolding power_int_minus power_int_of_nat by (simp add: field_simps)
  moreover have "- int (Suc k) + 1 = - int k" by simp
  ultimately show "2 powi ilog2 x \<le> x \<and> x < 2 powi (ilog2 x + 1)" by metis
qed

lemma ilog2_mono:
  assumes "0 < x" "x \<le> y"
  shows "ilog2 x \<le> ilog2 y"
proof -
  have "2 powi ilog2 x < (2 :: rat) powi (ilog2 y + 1)"
    using ilog2_bounds [of x] ilog2_bounds [of y] assms by linarith
  then have "ilog2 x < ilog2 y + 1"
    by (meson not_le one_le_numeral power_int_increasing)
  then show ?thesis by simp
qed

subsection \<open>Rounding to 53 bits\<close>

lemma powi2_mult: "(2 :: rat) powi a * 2 powi b = 2 powi (a + b)"
  by (simp add: power_int_add)

lemma powi2_cancel: "(2 :: rat) powi (- a) * 2 powi a = 1"
  by (simp add: power_int_minus)

lemma rnd64_minus: "rnd64 (- x) = - rnd64 x"
  by (simp add: rnd64_def Let_def rne_minus)

lemma rnd64_0 [simp]: "rnd64 0 = 0"
  by (simp add: rnd64_def)

text \<open>A number that is a multiple of its unit in the last place is a float already.\<close>

lemma rnd64_exact:
  assumes "x * 2 powi (- (ilog2 \<bar>x\<bar> - 52)) = of_int n"
  shows "rnd64 x = x"
proof (cases "x = 0")
  case False
  let ?e = "ilog2 \<bar>x\<bar> - 52"
  have "rnd64 x = x * 2 powi (- ?e) * 2 powi ?e" using False assms by (simp add: rnd64_def Let_def)
  also have "\<dots> = x * (2 powi (- ?e) * 2 powi ?e)" by (simp only: mult.assoc)
  also have "\<dots> = x" by (simp only: powi2_cancel mult_1_right)
  finally show ?thesis .
qed simp

lemma rnd64_int: "\<bar>n\<bar> \<le> 2 ^ 53 \<Longrightarrow> rnd64 (of_int n) = of_int n"
proof -
  assume n: "\<bar>n\<bar> \<le> 2 ^ 53"
  consider "n = 0" | "\<bar>n\<bar> = 2 ^ 53" | "0 < \<bar>n\<bar>" "\<bar>n\<bar> < 2 ^ 53" using n by linarith
  then show ?thesis
  proof cases
    case 2
    have "bitlen (2 ^ 53) = 54" using bitlen_pow2 [of 1 53] by (simp add: bitlen_alt_def)
    then have "ilog2 (of_int (2 ^ 53)) = 54 - 1"
      unfolding ilog2_def floor_of_int by simp
    moreover from 2 have "\<bar>of_int n :: rat\<bar> = of_int (2 ^ 53)" by (metis of_int_abs)
    ultimately have "ilog2 \<bar>of_int n\<bar> = 53" by simp
    moreover have "2 dvd \<bar>n\<bar>" unfolding 2 by simp
    then have "2 dvd n" by (simp only: dvd_abs_iff)
    then obtain k where "n = 2 * k" by blast
    ultimately show ?thesis by (intro rnd64_exact [of _ k]) (simp add: power_int_minus)
  next
    case 3
    define k where "k = nat (52 - ilog2 \<bar>of_int n\<bar>)"
    have "2 powi ilog2 \<bar>of_int n\<bar> < (2 :: rat) powi 53"
      using ilog2_bounds(1) [of "\<bar>of_int n\<bar>"] 3 by (simp flip: of_int_abs)
    then have "ilog2 \<bar>of_int n :: rat\<bar> < 53" by (meson not_le one_le_numeral power_int_increasing)
    then have "- (ilog2 \<bar>of_int n :: rat\<bar> - 52) = int k" by (simp add: k_def)
    then show ?thesis by (intro rnd64_exact [of _ "n * 2 ^ k"]) simp
  qed simp
qed

lemma rnd64_err: "\<bar>rnd64 x - x\<bar> \<le> \<bar>x\<bar> / 2 ^ 53"
proof (cases "x = 0")
  case False
  let ?e = "ilog2 \<bar>x\<bar> - 52"
  have x: "x = x * 2 powi (- ?e) * 2 powi ?e" by (simp only: mult.assoc powi2_cancel mult_1_right)
  have "rnd64 x - x = (of_int (rne (x * 2 powi (- ?e))) - x * 2 powi (- ?e)) * 2 powi ?e"
    using False x by (simp add: rnd64_def Let_def left_diff_distrib)
  then have "\<bar>rnd64 x - x\<bar> = \<bar>of_int (rne (x * 2 powi (- ?e))) - x * 2 powi (- ?e)\<bar> * 2 powi ?e"
    by (simp add: abs_mult)
  also have "\<dots> \<le> 1 / 2 * 2 powi ?e" by (rule mult_right_mono [OF rne_err]) simp
  also have "\<dots> = 2 powi ilog2 \<bar>x\<bar> / 2 ^ 53" by (simp add: power_int_diff)
  also have "\<dots> \<le> \<bar>x\<bar> / 2 ^ 53" using ilog2_bounds(1) [of "\<bar>x\<bar>"] False by (simp add: divide_right_mono)
  finally show ?thesis .
qed simp

lemma rnd64_binade:
  assumes "0 < x"
  shows "2 powi ilog2 x \<le> rnd64 x" and "rnd64 x \<le> 2 powi (ilog2 x + 1)"
proof -
  let ?e = "ilog2 x - 52"
  let ?s = "x * 2 powi (- ?e)"
  have sc: "(2 :: rat) powi ilog2 x * 2 powi (- ?e) = of_int (2 ^ 52)" "(2 :: rat) powi (ilog2 x + 1) * 2 powi (- ?e) = of_int (2 ^ 53)"
    unfolding powi2_mult by simp_all
  have "of_int (2 ^ 52) \<le> ?s" "?s \<le> of_int (2 ^ 53)"
    using ilog2_bounds [OF assms] by (simp_all only: sc [symmetric] mult_right_mono less_imp_le zero_le_power_int zero_le_numeral)
  then have "2 ^ 52 \<le> rne ?s" "rne ?s \<le> 2 ^ 53" by (metis rne_mono rne_of_int)+
  then have r: "of_int (2 ^ 52) \<le> (of_int (rne ?s) :: rat)" "(of_int (rne ?s) :: rat) \<le> of_int (2 ^ 53)"
    by (simp_all only: of_int_le_iff)
  have e: "of_int (2 ^ 52) * (2 :: rat) powi ?e = 2 powi ilog2 x"
    "of_int (2 ^ 53) * (2 :: rat) powi ?e = 2 powi (ilog2 x + 1)"
    unfolding sc [symmetric] mult.assoc powi2_cancel by simp_all
  have x: "rnd64 x = of_int (rne ?s) * 2 powi ?e" using assms by (simp add: rnd64_def Let_def)
  show "2 powi ilog2 x \<le> rnd64 x" "rnd64 x \<le> 2 powi (ilog2 x + 1)"
    unfolding x e [symmetric] by (rule mult_right_mono, rule r, simp)+
qed

lemma rnd64_mono_pos:
  assumes "0 < x" "x \<le> y"
  shows "rnd64 x \<le> rnd64 y"
proof -
  have "ilog2 x \<le> ilog2 y" by (rule ilog2_mono [OF assms])
  then consider "ilog2 x = ilog2 y" | "ilog2 x + 1 \<le> ilog2 y" by linarith
  then show ?thesis
  proof cases
    case 1
    let ?e = "ilog2 y - 52"
    have "rne (x * 2 powi (- ?e)) \<le> rne (y * 2 powi (- ?e))"
      by (rule rne_mono, rule mult_right_mono) (use assms in simp_all)
    then show ?thesis
      using assms 1 by (simp add: rnd64_def Let_def mult_right_mono)
  next
    case 2
    then have "(2 :: rat) powi (ilog2 x + 1) \<le> 2 powi ilog2 y" by (simp add: power_int_increasing)
    with rnd64_binade [of x] rnd64_binade [of y] assms show ?thesis by linarith
  qed
qed

lemma rnd64_pos: "0 < x \<Longrightarrow> 0 < rnd64 x"
  using rnd64_binade(1) [of x] zero_less_power_int [of "2 :: rat" "ilog2 x"] by linarith

lemma rnd64_mono: "x \<le> y \<Longrightarrow> rnd64 x \<le> rnd64 y"
proof -
  assume le: "x \<le> y"
  consider "0 < x" | "x \<le> 0" "0 \<le> y" | "y < 0" using le by linarith
  then show ?thesis
  proof cases
    case 1
    then show ?thesis using le by (rule rnd64_mono_pos)
  next
    case 2
    have "rnd64 x \<le> 0" using 2 rnd64_pos [of "- x"] by (cases "x = 0") (simp_all add: rnd64_minus)
    moreover have "0 \<le> rnd64 y" using 2 rnd64_pos [of y] by (cases "y = 0") simp_all
    ultimately show ?thesis by linarith
  next
    case 3
    then have "rnd64 (- y) \<le> rnd64 (- x)" using le by (intro rnd64_mono_pos) simp_all
    then show ?thesis by (simp add: rnd64_minus)
  qed
qed

interpretation f64: float_rounding rnd64
  by unfold_locales (rule rnd64_mono rnd64_int rnd64_err; assumption)+

end
