(* ===== verification/Bench_Stats.thy ===== *)
theory Bench_Stats
  imports Go_Float
begin

text \<open>
  \<^verbatim>\<open>benchmark/stats.go\<close>: percentiles and maximum of latency samples (nanoseconds, \<^verbatim>\<open>int64\<close>) in
  milliseconds, and the classification of request errors as timeouts.

  The percentile's index is computed in \<^verbatim>\<open>float64\<close> and truncated; an index outside the slice is a
  panic, \<^const>\<open>None\<close> here. An error value is the chain that \<^verbatim>\<open>errors.Is\<close> and \<^verbatim>\<open>errors.As\<close> walk by
  unwrapping, outermost first; \<^verbatim>\<open>context.DeadlineExceeded\<close> is itself a \<^verbatim>\<open>net.Error\<close> that times out.
\<close>

definition percentileMs :: "int list \<Rightarrow> float64 \<Rightarrow> float64 option" where
  "percentileMs samples p =
     (if samples = [] then Some 0
      else let sorted = sort samples;
               idx = f64_to_int (f64_div (f64_mul (f64_of_int (int (length sorted) - 1)) p) 100)
           in if 0 \<le> idx \<and> idx < int (length sorted)
              then Some (f64_div (f64_of_int (sorted ! nat idx)) 1000000)
              else None)"

fun max_loop :: "int \<Rightarrow> int list \<Rightarrow> int" where
  "max_loop m [] = m"
| "max_loop m (v # vs) = max_loop (if v > m then v else m) vs"

definition maxMs :: "int list \<Rightarrow> float64" where
  "maxMs samples = (if samples = [] then 0 else f64_div (f64_of_int (max_loop 0 samples)) 1000000)"

datatype err_node = DeadlineExceeded | NetErr bool | OtherErr string

type_synonym go_error = "err_node list"

definition errors_Is :: "go_error \<Rightarrow> err_node \<Rightarrow> bool" where
  "errors_Is err target \<longleftrightarrow> target \<in> set err"

fun net_timeout :: "err_node \<Rightarrow> bool option" where
  "net_timeout DeadlineExceeded = Some True"
| "net_timeout (NetErr t) = Some t"
| "net_timeout (OtherErr m) = None"

fun errors_As_net :: "go_error \<Rightarrow> bool option" where
  "errors_As_net [] = None"
| "errors_As_net (e # es) = (case net_timeout e of Some t \<Rightarrow> Some t | None \<Rightarrow> errors_As_net es)"

definition isTimeout :: "go_error \<Rightarrow> bool" where
  "isTimeout err \<longleftrightarrow>
     (if errors_Is err DeadlineExceeded then True
      else (case errors_As_net err of Some t \<Rightarrow> t | None \<Rightarrow> False))"

text \<open>The rank that a percentile selects, in exact arithmetic.\<close>

definition rank_of :: "nat \<Rightarrow> nat \<Rightarrow> nat" where
  "rank_of n k = (n - 1) * k div 100"

definition toMs :: "int \<Rightarrow> float64" where
  "toMs ns = f64_div (f64_of_int ns) 1000000"

subsection \<open>Lemmas\<close>

lemma max_loop_Max: "max_loop m vs = Max (set (m # vs))"
proof (induction vs arbitrary: m)
  case (Cons v vs)
  have "max_loop m (v # vs) = Max (insert (max m v) (set vs))" by (simp add: Cons max_def)
  also have "\<dots> = Max (insert m (insert v (set vs)))"
    by (cases "vs = []") (simp_all add: Max.insert max.assoc)
  finally show ?case by simp
qed simp

lemma toMs_mono: "x \<le> y \<Longrightarrow> toMs x \<le> toMs y"
  by (simp add: toMs_def f64_div_def f64_of_int_def f64.rnd_mono divide_right_mono)

lemma toMs_0 [simp]: "toMs 0 = 0"
  by (simp add: toMs_def f64_div_def f64_of_int_def)

lemma rank_less: "0 < n \<Longrightarrow> k \<le> 100 \<Longrightarrow> rank_of n k < n"
proof -
  assume "0 < n" "k \<le> 100"
  then have "(n - 1) * k \<le> (n - 1) * 100" by simp
  then have "(n - 1) * k div 100 \<le> n - 1" by (metis div_le_mono div_mult_self_is_m zero_less_numeral)
  with \<open>0 < n\<close> show ?thesis by (simp add: rank_of_def)
qed

lemma rank_mono: "j \<le> k \<Longrightarrow> rank_of n j \<le> rank_of n k"
  by (simp add: rank_of_def div_le_mono)

text \<open>The index computed in floating point, for a whole percentage: the exact rank.\<close>

lemma float_index:
  assumes n: "0 < n" "n \<le> 2 ^ 39" and k: "k \<le> 100"
  shows "f64_to_int (f64_div (f64_mul (f64_of_int (int n - 1)) (of_nat k)) 100) = int (rank_of n k)"
proof -
  let ?m = "(int n - 1) * int k"
  have "?m \<le> (int n - 1) * 100" using n k by (intro mult_left_mono) simp_all
  then have m: "0 \<le> ?m" "?m < 2 ^ 46" using n by simp_all
  have "f64_of_int (int n - 1) = of_int (int n - 1)"
    unfolding f64_of_int_def using n by (intro f64.rnd_int) simp
  then have mul: "f64_mul (f64_of_int (int n - 1)) (of_nat k) = of_int ?m"
    unfolding f64_mul_def using f64.rnd_int [of ?m] m by simp
  have "\<lfloor>f64_div (of_int ?m) 100\<rfloor> = ?m div 100"
    using f64.floor_rnd_quotient [OF m, of 100] by (simp add: f64_div_def)
  moreover have "0 \<le> (of_int ?m :: rat)" using m by (simp only: of_int_0_le_iff)
  then have "0 \<le> f64_div (of_int ?m) 100" unfolding f64_div_def by (intro f64.rnd_nonneg) simp
  moreover have "?m div 100 = int (rank_of n k)"
    using n by (simp add: rank_of_def zdiv_int of_nat_diff)
  ultimately show ?thesis by (simp add: f64_to_int_def mul)
qed

lemma percentile_rank:
  assumes "samples \<noteq> []" "length samples \<le> 2 ^ 39" "k \<le> 100"
  shows "percentileMs samples (of_nat k) = Some (toMs (sort samples ! rank_of (length samples) k))"
  using float_index [of "length samples" k] rank_less [of "length samples" k] assms
  by (simp add: percentileMs_def toMs_def Let_def)

text \<open>An element of a sorted list has at least as many elements below it as its position says.\<close>

lemma sorted_rank:
  assumes "i < length xs"
  shows "i + 1 \<le> length (filter (\<lambda>x. x \<le> sort xs ! i) xs)"
    and "length xs - i \<le> length (filter (\<lambda>x. sort xs ! i \<le> x) xs)"
proof -
  let ?s = "sort xs"
  have len: "length (filter P xs) = length (filter P ?s)" for P
    by (metis mset_filter mset_sort size_mset)
  have "length (filter (\<lambda>x. x \<le> ?s ! i) (take (i + 1) ?s)) = i + 1"
    using assms by (subst filter_True) (auto simp: in_set_conv_nth intro!: sorted_nth_mono)
  moreover have "length (filter P ?s) = length (filter P (take n ?s)) + length (filter P (drop n ?s))" for P n
    by (metis append_take_drop_id filter_append length_append)
  ultimately show "i + 1 \<le> length (filter (\<lambda>x. x \<le> ?s ! i) xs)" unfolding len by (metis le_add1)
  have "length (filter (\<lambda>x. ?s ! i \<le> x) (drop i ?s)) = length xs - i"
    using assms by (subst filter_True) (auto simp: in_set_conv_nth intro!: sorted_nth_mono)
  then show "length xs - i \<le> length (filter (\<lambda>x. ?s ! i \<le> x) xs)"
    unfolding len by (metis append_take_drop_id filter_append le_add2 length_append)
qed

text \<open>The latency figures are ordered.\<close>

lemma percentiles_sorted:
  assumes "\<forall>v \<in> set samples. 0 \<le> v" and "length samples \<le> 2 ^ 39"
  shows "\<exists>p50 p95 p99. percentileMs samples 50 = Some p50 \<and> percentileMs samples 95 = Some p95 \<and>
           percentileMs samples 99 = Some p99 \<and> 0 \<le> p50 \<and> p50 \<le> p95 \<and> p95 \<le> p99 \<and> p99 \<le> maxMs samples"
proof (cases "samples = []")
  case True
  then show ?thesis by (simp add: percentileMs_def maxMs_def)
next
  case False
  let ?n = "length samples"
  define v where "v k = sort samples ! rank_of ?n k" for k
  have in_range: "rank_of ?n k < ?n" if "k \<le> 100" for k using that False rank_less by simp
  have mono: "v j \<le> v k" if "j \<le> k" "k \<le> 100" for j k
    unfolding v_def using that in_range by (intro sorted_nth_mono) (simp_all add: rank_mono)
  have mem: "v k \<in> set samples" if "k \<le> 100" for k
    unfolding v_def using in_range [OF that] by (metis length_sort nth_mem set_sort)
  have "v 99 \<le> max_loop 0 samples" unfolding max_loop_Max using mem [of 99] by (intro Max_ge) auto
  then have "toMs (v 99) \<le> maxMs samples" using False by (simp add: maxMs_def toMs_mono flip: toMs_def)
  moreover have "percentileMs samples (of_nat k) = Some (toMs (v k))" if "k \<le> 100" for k
    unfolding v_def by (rule percentile_rank [OF False assms(2) that])
  from this [of 50] this [of 95] this [of 99]
  have "percentileMs samples 50 = Some (toMs (v 50))" "percentileMs samples 95 = Some (toMs (v 95))"
    "percentileMs samples 99 = Some (toMs (v 99))" by simp_all
  moreover have "0 \<le> toMs (v 50)" using toMs_mono [of 0 "v 50"] mem [of 50] assms(1) by simp
  moreover have "toMs (v 50) \<le> toMs (v 95)" "toMs (v 95) \<le> toMs (v 99)" by (simp_all add: toMs_mono mono)
  ultimately show ?thesis by blast
qed

subsection \<open>Properties\<close>

text \<open>C22. A percentile of a whole percentage is the intended order statistic, although its index is
  computed in floating point: for up to \<open>2 ^ 39\<close> samples it is the sample of rank
  \<open>(n - 1) * k div 100\<close> in milliseconds, with at least rank + 1 samples not above it and at least
  n - rank samples not below it.\<close>

theorem percentile_is_order_statistic:
  assumes "samples \<noteq> []" and "length samples \<le> 2 ^ 39" and "k \<le> 100"
  shows "\<exists>v \<in> set samples. percentileMs samples (of_nat k) = Some (toMs v) \<and>
           rank_of (length samples) k + 1 \<le> length (filter (\<lambda>x. x \<le> v) samples) \<and>
           length samples - rank_of (length samples) k \<le> length (filter (\<lambda>x. v \<le> x) samples)"
proof (rule bexI [of _ "sort samples ! rank_of (length samples) k"])
  have i: "rank_of (length samples) k < length samples" using assms rank_less by simp
  then show "sort samples ! rank_of (length samples) k \<in> set samples" by (metis length_sort nth_mem set_sort)
  show "percentileMs samples (of_nat k) = Some (toMs (sort samples ! rank_of (length samples) k)) \<and>
      rank_of (length samples) k + 1 \<le>
        length (filter (\<lambda>x. x \<le> sort samples ! rank_of (length samples) k) samples) \<and>
      length samples - rank_of (length samples) k \<le>
        length (filter (\<lambda>x. sort samples ! rank_of (length samples) k \<le> x) samples)"
    using percentile_rank [OF assms] sorted_rank [OF i] by simp
qed

theorem percentile_is_order_statistic_witness:
  "\<exists>v \<in> set [30, 10, 20 :: int]. percentileMs [30, 10, 20] (of_nat 50) = Some (toMs v) \<and>
     rank_of 3 50 + 1 \<le> length (filter (\<lambda>x. x \<le> v) [30, 10, 20]) \<and>
     3 - rank_of 3 50 \<le> length (filter (\<lambda>x. v \<le> x) [30, 10, 20])"
  using percentile_is_order_statistic [of "[30, 10, 20]" 50] by (simp add: numeral_3_eq_3)

text \<open>No percentage from 0 to 100 makes the index leave the slice (no panic), whole or not, for
  any number of samples whose hundredfold is below \<open>2 ^ 53\<close>.\<close>

lemma percentile_never_panics:
  assumes "0 \<le> p" and "p \<le> 100" and "100 * int (length samples) \<le> 2 ^ 53"
  shows "percentileMs samples p \<noteq> None"
proof (cases "samples = []")
  case False
  let ?n = "int (length samples) - 1"
  have n: "0 \<le> ?n" "\<bar>?n\<bar> \<le> 2 ^ 53" "\<bar>?n * 100\<bar> \<le> 2 ^ 53" using False assms(3) by (simp_all add: Suc_le_eq)
  have "f64_of_int ?n = of_int ?n" unfolding f64_of_int_def by (rule f64.rnd_int [OF n(2)])
  moreover have "of_int ?n * p \<le> of_int (?n * 100)"
    unfolding of_int_mult using n(1) assms(2) by (intro mult_left_mono) (simp_all add: Suc_le_eq)
  then have "rnd64 (of_int ?n * p) \<le> of_int (?n * 100)" by (rule f64.rnd_le_int [OF _ n(3)])
  then have "rnd64 (of_int ?n * p) / 100 \<le> of_int ?n" by simp
  then have "rnd64 (rnd64 (of_int ?n * p) / 100) \<le> of_int ?n" by (rule f64.rnd_le_int [OF _ n(2)])
  moreover have "0 \<le> rnd64 (rnd64 (of_int ?n * p) / 100)"
    using n(1) assms(1) by (intro f64.rnd_nonneg divide_nonneg_nonneg mult_nonneg_nonneg) (simp_all add: Suc_le_eq)
  ultimately have X: "0 \<le> f64_div (f64_mul (f64_of_int ?n) p) 100"
    "f64_div (f64_mul (f64_of_int ?n) p) 100 \<le> of_int ?n"
    by (simp_all only: f64_div_def f64_mul_def)
  from floor_mono [OF X(2)] X(1) have "0 \<le> f64_to_int (f64_div (f64_mul (f64_of_int ?n) p) 100)"
    and "f64_to_int (f64_div (f64_mul (f64_of_int ?n) p) 100) \<le> ?n"
    unfolding floor_of_int by (simp_all only: f64_to_int_def if_True zero_le_floor)
  then show ?thesis by (simp add: percentileMs_def Let_def)
qed (simp add: percentileMs_def)

text \<open>\<open>isTimeout\<close> holds exactly for the errors whose chain has a deadline or whose first network
  error is a timeout.\<close>

lemma isTimeout_iff:
  "isTimeout err \<longleftrightarrow> DeadlineExceeded \<in> set err \<or>
     (\<exists>post. dropWhile (\<lambda>e. net_timeout e = None) err = NetErr True # post)"
proof (induction err)
  case (Cons e es)
  show ?case
  proof (cases e)
    case (NetErr t)
    then show ?thesis by (cases t) (auto simp: isTimeout_def errors_Is_def)
  qed (use Cons in \<open>simp_all add: isTimeout_def errors_Is_def split: if_splits\<close>)
qed (simp add: isTimeout_def errors_Is_def)

end
