(* ===== verification/Bench_Client.thy ===== *)
theory Bench_Client
  imports Lock_Server Bench_Stats
begin

text \<open>
  The HTTP client side of the benchmark: \<^verbatim>\<open>sendLock\<close>, \<^verbatim>\<open>sendUnlock\<close> and \<^verbatim>\<open>findLockSince\<close> of
  \<^verbatim>\<open>benchmark/validate.go\<close>, \<^verbatim>\<open>postLock\<close>, \<^verbatim>\<open>deleteLock\<close> and \<^verbatim>\<open>checkLeakedLocks\<close> of
  \<^verbatim>\<open>benchmark/scenarios.go\<close>.

  The service under test and the network are a parameter \<open>send\<close>, the model of \<^verbatim>\<open>http.Client.Do\<close>: it
  takes a request in some state of the outside world and yields an error or a reply, whose body may
  itself fail to be read. Requests are built with \<^verbatim>\<open>json.Marshal\<close> of a map, which writes the members
  in alphabetical order. The base URL is fixed, so a request is its method, path and body.

  The locale \<open>spec_service\<close> is a service that implements the specification of \<open>Lock_Server\<close>.
  \<open>loopback\<close> connects a client to a modelled server; \<open>Bench_Validate\<close> interprets the locale on the
  loopback of both Go servers.
\<close>

record http_reply =
  reply_Status :: nat
  reply_Body :: "go_error + body"

type_synonym 'w sender = "'w \<Rightarrow> http_request \<Rightarrow> 'w \<times> (go_error + http_reply)"

datatype client_error =
    DoErr go_error
  | ReadErr go_error
  | DecodeErr nat body
  | KeyNotListed string nat body

definition lock_http :: "string \<Rightarrow> string \<Rightarrow> bool \<Rightarrow> http_request" where
  "lock_http key lockee force =
     \<lparr>Method = ''POST'', Path = ''/lock'',
      ReqBody = Json (JObj [(''force'', JBool force), (''key'', JStr key), (''lockee'', JStr lockee)]) []\<rparr>"

definition unlock_http :: "string \<Rightarrow> string \<Rightarrow> http_request" where
  "unlock_http key lockee =
     \<lparr>Method = ''POST'', Path = ''/unlock'',
      ReqBody = Json (JObj [(''key'', JStr key), (''lockee'', JStr lockee)]) []\<rparr>"

definition locks_http :: http_request where
  "locks_http = \<lparr>Method = ''GET'', Path = ''/locks'', ReqBody = Empty\<rparr>"

definition client_Do :: "'w sender \<Rightarrow> http_request \<Rightarrow> ('w, client_error, http_reply) io" where
  "client_Do send r w =
     (case send w r of (w', Inl e) \<Rightarrow> (w', Inl (DoErr e)) | (w', Inr p) \<Rightarrow> (w', Inr p))"

text \<open>
  A request with a context: \<^verbatim>\<open>Do\<close> returns the context's error at once, without sending anything, when the
  context is done already. (A context that ends while the request is under way is the sender's matter.)
\<close>

definition client_DoCtx :: "go_error option \<Rightarrow> 'w sender \<Rightarrow> http_request \<Rightarrow> ('w, client_error, http_reply) io" where
  "client_DoCtx ctx send r = (case ctx of Some e \<Rightarrow> fail_io (DoErr e) | None \<Rightarrow> client_Do send r)"

definition readAll :: "http_reply \<Rightarrow> ('w, client_error, body) io" where
  "readAll p = (case reply_Body p of Inl e \<Rightarrow> fail_io (ReadErr e) | Inr b \<Rightarrow> return_io b)"

subsection \<open>Decoded replies\<close>

record lockResponse =
  rs_Locked :: bool
  rs_Key :: string
  rs_Lockee :: string
  rs_CurrentLockee :: string

definition lockResponse_set :: "string \<Rightarrow> lockResponse \<Rightarrow> json \<Rightarrow> lockResponse \<times> bool" where
  "lockResponse_set tag r v =
     (if tag = ''locked'' then set_bool (\<lambda>b. r\<lparr>rs_Locked := b\<rparr>) r v
      else if tag = ''key'' then set_string (\<lambda>s. r\<lparr>rs_Key := s\<rparr>) r v
      else if tag = ''lockee'' then set_string (\<lambda>s. r\<lparr>rs_Lockee := s\<rparr>) r v
      else set_string (\<lambda>s. r\<lparr>rs_CurrentLockee := s\<rparr>) r v)"

definition decode_lockResponse :: "body \<Rightarrow> lockResponse option" where
  "decode_lockResponse b =
     Option.bind (unmarshal b)
       (\<lambda>v. checked (decode_struct [''locked'', ''key'', ''lockee'', ''currentLockee''] lockResponse_set
               \<lparr>rs_Locked = False, rs_Key = [], rs_Lockee = [], rs_CurrentLockee = []\<rparr> v))"

record lockEntry =
  en_Key :: string
  en_Lockee :: string
  en_Since :: string

definition lockEntry_set :: "string \<Rightarrow> lockEntry \<Rightarrow> json \<Rightarrow> lockEntry \<times> bool" where
  "lockEntry_set tag r v =
     (if tag = ''key'' then set_string (\<lambda>s. r\<lparr>en_Key := s\<rparr>) r v
      else if tag = ''lockee'' then set_string (\<lambda>s. r\<lparr>en_Lockee := s\<rparr>) r v
      else set_string (\<lambda>s. r\<lparr>en_Since := s\<rparr>) r v)"

definition decode_lockEntry :: "lockEntry \<Rightarrow> json \<Rightarrow> lockEntry \<times> bool" where
  "decode_lockEntry = decode_struct [''key'', ''lockee'', ''since''] lockEntry_set"

record locksResponse =
  ls_Locks :: "lockEntry list"

definition decode_locksResponse :: "body \<Rightarrow> locksResponse option" where
  "decode_locksResponse b =
     Option.bind (unmarshal b)
       (\<lambda>v. checked (decode_struct [''locks'']
               (\<lambda>tag r. set_slice decode_lockEntry \<lparr>en_Key = [], en_Lockee = [], en_Since = []\<rparr>
                          (\<lambda>es. r\<lparr>ls_Locks := es\<rparr>) r)
               \<lparr>ls_Locks = []\<rparr> v))"

subsection \<open>The calls\<close>

definition sendLock ::
  "'w sender \<Rightarrow> string \<Rightarrow> string \<Rightarrow> bool \<Rightarrow> ('w, client_error, nat \<times> lockResponse) io" where
  "sendLock send key lockee force =
     bind_io (client_Do send (lock_http key lockee force)) (\<lambda>p.
     bind_io (readAll p) (\<lambda>b.
       case decode_lockResponse b of
         None \<Rightarrow> fail_io (DecodeErr (reply_Status p) b)
       | Some lr \<Rightarrow> return_io (reply_Status p, lr)))"

definition sendUnlock :: "'w sender \<Rightarrow> string \<Rightarrow> string \<Rightarrow> ('w, client_error, nat) io" where
  "sendUnlock send key lockee =
     bind_io (client_Do send (unlock_http key lockee)) (\<lambda>p. return_io (reply_Status p))"

fun find_since :: "string \<Rightarrow> lockEntry list \<Rightarrow> string option" where
  "find_since key [] = None"
| "find_since key (e # es) = (if en_Key e = key then Some (en_Since e) else find_since key es)"

definition findLockSince :: "'w sender \<Rightarrow> string \<Rightarrow> ('w, client_error, string) io" where
  "findLockSince send key =
     bind_io (client_Do send locks_http) (\<lambda>p.
     bind_io (readAll p) (\<lambda>b.
       case decode_locksResponse b of
         None \<Rightarrow> fail_io (DecodeErr (reply_Status p) b)
       | Some lr \<Rightarrow>
           (case find_since key (ls_Locks lr) of
              Some since \<Rightarrow> return_io since
            | None \<Rightarrow> fail_io (KeyNotListed key (reply_Status p) b))))"

text \<open>The workers only look at the status; whether the body can be read does not matter to them. \<open>ctx\<close> is
  the error of the context passed to the call, if it is done.\<close>

definition postLock :: "go_error option \<Rightarrow> 'w sender \<Rightarrow> string \<Rightarrow> string \<Rightarrow> bool \<Rightarrow> ('w, client_error, nat) io" where
  "postLock ctx send key lockee force =
     bind_io (client_DoCtx ctx send (lock_http key lockee force)) (\<lambda>p. return_io (reply_Status p))"

definition deleteLock :: "go_error option \<Rightarrow> 'w sender \<Rightarrow> string \<Rightarrow> string \<Rightarrow> ('w, client_error, nat) io" where
  "deleteLock ctx send key lockee =
     bind_io (client_DoCtx ctx send (unlock_http key lockee)) (\<lambda>p. return_io (reply_Status p))"

text \<open>\<^verbatim>\<open>checkLeakedLocks\<close> counts the elements of \<open>locks\<close> without looking into them; -1 on any error.\<close>

definition decode_leaked :: "body \<Rightarrow> nat option" where
  "decode_leaked b =
     Option.bind (decode_stream b)
       (\<lambda>v. checked (decode_struct [''locks'']
               (\<lambda>tag r u. case u of JArr vs \<Rightarrow> (length vs, True) | JNull \<Rightarrow> (0, True) | _ \<Rightarrow> (r, False)) 0 v))"

definition checkLeakedLocks :: "'w sender \<Rightarrow> 'w \<Rightarrow> 'w \<times> int" where
  "checkLeakedLocks send w =
     (case client_Do send locks_http w of
        (w', Inl e) \<Rightarrow> (w', -1)
      | (w', Inr p) \<Rightarrow>
          (case readAll p w' of
             (w'', Inl e) \<Rightarrow> (w'', -1)
           | (w'', Inr b) \<Rightarrow> (w'', case decode_leaked b of None \<Rightarrow> -1 | Some n \<Rightarrow> int n)))"

subsection \<open>Services that implement the specification\<close>

definition reply_of :: "http_response \<Rightarrow> http_reply" where
  "reply_of resp = \<lparr>reply_Status = StatusCode resp, reply_Body = Inr (RespBody resp)\<rparr>"

locale spec_service =
  fixes send :: "'w sender"
    and wtbl :: "'w \<Rightarrow> lock_table"
    and winv :: "'w \<Rightarrow> bool"
  assumes send_answers: "winv w \<Longrightarrow> \<exists>w' now ls. send w r = (w', Inr (reply_of (answer (wtbl w) ls r))) \<and>
      winv w' \<and> wtbl w' = spec_table (wtbl w) now r \<and> set ls = ran (wtbl w) \<and> distinct (map Key ls)"
    and wtbl_key: "winv w \<Longrightarrow> wtbl w k = Some l \<Longrightarrow> Key l = k"

subsection \<open>Decoding what the servers write\<close>

lemma decode_ok_resp [http_simps]:
  "decode_lockResponse (Json (json_lockOKResp \<lparr>ok_Locked = b, ok_Key = k, ok_Lockee = w\<rparr>) []) =
     Some \<lparr>rs_Locked = b, rs_Key = k, rs_Lockee = w, rs_CurrentLockee = []\<rparr>"
  by (simp add: decode_lockResponse_def json_lockOKResp_def lockResponse_set_def http_simps)

lemma decode_conflict_resp [http_simps]:
  "decode_lockResponse (Json (json_lockConflictResp \<lparr>cf_Locked = b, cf_Key = k, cf_CurrentLockee = w\<rparr>) []) =
     Some \<lparr>rs_Locked = b, rs_Key = k, rs_Lockee = [], rs_CurrentLockee = w\<rparr>"
  by (simp add: decode_lockResponse_def json_lockConflictResp_def lockResponse_set_def http_simps)

definition entry_of :: "Lock \<Rightarrow> lockEntry" where
  "entry_of l = \<lparr>en_Key = Key l, en_Lockee = Lockee l, en_Since = formatRFC3339 (Since l)\<rparr>"

lemma decode_lockEntry_json:
  "decode_lockEntry z (json_lockListEntry (list_entry l)) = (entry_of l, True)"
  by (simp add: decode_lockEntry_def json_lockListEntry_def list_entry_def entry_of_def
      lockEntry_set_def http_simps)

lemma decode_listing:
  "decode_locksResponse (RespBody (listing_response ls)) = Some \<lparr>ls_Locks = map entry_of ls\<rparr>"
  using decode_elems_map [of ls decode_lockEntry _ "\<lambda>l. json_lockListEntry (list_entry l)" entry_of]
  by (simp add: decode_locksResponse_def listing_response_def json_lockListResp_def set_slice_def
      decode_lockEntry_json http_simps comp_def)

lemma decode_leaked_listing: "decode_leaked (RespBody (listing_response ls)) = Some (length ls)"
  by (simp add: decode_leaked_def listing_response_def json_lockListResp_def http_simps)

lemma find_since_entries:
  "distinct (map Key ls) \<Longrightarrow> l \<in> set ls \<Longrightarrow> find_since (Key l) (map entry_of ls) = Some (formatRFC3339 (Since l))"
  by (induction ls) (auto simp: entry_of_def rev_image_eqI)

lemma find_since_absent: "k \<notin> Key ` set ls \<Longrightarrow> find_since k (map entry_of ls) = None"
  by (induction ls) (auto simp: entry_of_def)

lemma http_requests [http_simps]:
  "k \<noteq> [] \<Longrightarrow> w \<noteq> [] \<Longrightarrow>
     lock_request (lock_http k w f) = Some \<lparr>req_Key = k, req_Lockee = w, req_Force = f\<rparr>"
  "k \<noteq> [] \<Longrightarrow> w \<noteq> [] \<Longrightarrow> unlock_request (unlock_http k w) = Some \<lparr>ureq_Key = k, ureq_Lockee = w\<rparr>"
  "lock_request (unlock_http k w) = None" "lock_request locks_http = None" "unlock_request locks_http = None"
  "is_listing locks_http" "\<not> is_listing (lock_http k w f)" "\<not> is_listing (unlock_http k w)"
  by (simp_all add: lock_http_def unlock_http_def locks_http_def is_listing_def http_simps)

lemma listing_sel [simp]: "StatusCode (listing_response ls) = StatusOK"
  by (simp add: listing_response_def)

lemma readAll_reply [simp]: "readAll (reply_of resp) = return_io (RespBody resp)"
  by (simp add: readAll_def reply_of_def)

lemma client_Do_simps [simp]:
  "send w r = (w', Inl e) \<Longrightarrow> client_Do send r w = (w', Inl (DoErr e))"
  "send w r = (w', Inr p) \<Longrightarrow> client_Do send r w = (w', Inr p)"
  by (simp_all add: client_Do_def)

lemma client_DoCtx_simps [simp]:
  "client_DoCtx None send r = client_Do send r" "client_DoCtx (Some e) send r w = (w, Inl (DoErr e))"
  by (simp_all add: client_DoCtx_def)

lemma done_ctx [simp]:
  "postLock (Some e) send k a f w = (w, Inl (DoErr e))" "deleteLock (Some e) send k a w = (w, Inl (DoErr e))"
  by (simp_all add: postLock_def deleteLock_def)

context spec_service
begin

text \<open>The calls against a service that implements the specification.\<close>

lemma sendLock_granted:
  assumes "winv w" "k \<noteq> []" "a \<noteq> []" "may_lock (wtbl w) k a f"
  shows "\<exists>w' now lr. sendLock send k a f w = (w', Inr (StatusOK, lr)) \<and> rs_Locked lr \<and> winv w' \<and>
           wtbl w' = lock_entry (wtbl w) k a f now"
  using send_answers [OF assms(1), of "lock_http k a f"] assms(2-4)
  by (auto simp: sendLock_def answer_def spec_response_def spec_table_def reply_of_def readAll_def http_simps)

lemma sendLock_refused:
  assumes "winv w" "k \<noteq> []" "a \<noteq> []" "\<not> may_lock (wtbl w) k a f"
  shows "\<exists>w' lr. sendLock send k a f w = (w', Inr (StatusConflict, lr)) \<and> \<not> rs_Locked lr \<and>
           rs_CurrentLockee lr = the (holder (wtbl w) k) \<and> winv w' \<and> wtbl w' = wtbl w"
  using send_answers [OF assms(1), of "lock_http k a f"] assms(2-4)
  by (auto simp: sendLock_def answer_def spec_response_def spec_table_def lock_entry_def reply_of_def
      readAll_def http_simps)

lemma sendUnlock_status:
  assumes "winv w" "k \<noteq> []" "a \<noteq> []"
  shows "\<exists>w'. sendUnlock send k a w = (w', Inr (release_status (wtbl w) k a)) \<and> winv w' \<and>
           wtbl w' = release_entry (wtbl w) k a"
  using send_answers [OF assms(1), of "unlock_http k a"] assms(2,3)
  by (auto simp: sendUnlock_def answer_def spec_response_def spec_table_def reply_of_def Let_def http_simps)

lemma listing_answer:
  assumes "winv w"
  shows "\<exists>w' ls. send w locks_http = (w', Inr (reply_of (listing_response ls))) \<and> winv w' \<and> wtbl w' = wtbl w \<and>
           set ls = ran (wtbl w) \<and> distinct (map Key ls)"
  using send_answers [OF assms, of locks_http]
  by (auto simp: answer_def spec_table_def http_simps)

lemma table_finite: "winv w \<Longrightarrow> finite (dom (wtbl w))"
proof -
  assume w: "winv w"
  obtain ls where "set ls = ran (wtbl w)" using listing_answer [OF w] by blast
  then have "finite (ran (wtbl w))" by (metis List.finite_set)
  moreover have "dom (wtbl w) \<subseteq> Key ` ran (wtbl w)" using wtbl_key [OF w] by (force simp: ran_def)
  ultimately show ?thesis using finite_subset by blast
qed

lemma findLockSince_held:
  assumes "winv w" "wtbl w k = Some l"
  shows "\<exists>w'. findLockSince send k w = (w', Inr (formatRFC3339 (Since l))) \<and> winv w' \<and> wtbl w' = wtbl w"
proof -
  obtain w' ls where s: "send w locks_http = (w', Inr (reply_of (listing_response ls)))" "winv w'"
    "wtbl w' = wtbl w" "set ls = ran (wtbl w)" "distinct (map Key ls)"
    using listing_answer [OF assms(1)] by blast
  have "l \<in> set ls" using assms(2) s(4) by (auto simp: ran_def)
  moreover have "Key l = k" by (rule wtbl_key [OF assms])
  ultimately have "find_since k (map entry_of ls) = Some (formatRFC3339 (Since l))"
    using find_since_entries [OF s(5)] by auto
  with s show ?thesis by (auto simp: findLockSince_def decode_listing)
qed

lemma findLockSince_free:
  assumes "winv w" "wtbl w k = None"
  shows "\<exists>w' b. findLockSince send k w = (w', Inl (KeyNotListed k StatusOK b)) \<and> winv w' \<and> wtbl w' = wtbl w"
proof -
  obtain w' ls where s: "send w locks_http = (w', Inr (reply_of (listing_response ls)))" "winv w'"
    "wtbl w' = wtbl w" "set ls = ran (wtbl w)"
    using listing_answer [OF assms(1)] by blast
  have "k \<notin> Key ` set ls" using assms s(4) wtbl_key by (fastforce simp: ran_def)
  then have "find_since k (map entry_of ls) = None" by (rule find_since_absent)
  with s show ?thesis by (auto simp: findLockSince_def decode_listing reply_of_def readAll_def)
qed

lemma checkLeakedLocks_count:
  assumes "winv w"
  shows "\<exists>w'. checkLeakedLocks send w = (w', int (card (dom (wtbl w)))) \<and> winv w' \<and> wtbl w' = wtbl w"
proof -
  obtain w' ls where s: "send w locks_http = (w', Inr (reply_of (listing_response ls)))" "winv w'"
    "wtbl w' = wtbl w" "set ls = ran (wtbl w)" "distinct (map Key ls)"
    using listing_answer [OF assms] by blast
  have "dom (wtbl w) = Key ` set ls" using s(4) wtbl_key [OF assms] by (force simp: ran_def dom_def)
  then have "card (dom (wtbl w)) = length ls" using s(5) by (metis distinct_card length_map list.set_map)
  with s show ?thesis by (simp add: checkLeakedLocks_def decode_leaked_listing)
qed

end

subsection \<open>A client connected to a modelled server\<close>

text \<open>
  The world of a client that is connected to a server and nobody else: the server's store and the
  number of requests served. Each request is served at the time \<open>clock n\<close> and with the map iteration
  order \<open>orders n s\<close>. A handler that panics makes \<^verbatim>\<open>net/http\<close> close the connection, which the client
  sees as an error.
\<close>

definition loopback ::
  "(time \<Rightarrow> 'o \<Rightarrow> 's \<Rightarrow> http_request \<Rightarrow> ('s \<times> http_response) option) \<Rightarrow>
   (nat \<Rightarrow> time) \<Rightarrow> (nat \<Rightarrow> 's \<Rightarrow> 'o) \<Rightarrow> ('s \<times> nat) sender" where
  "loopback sv clock orders w r =
     (case sv (clock (snd w)) (orders (snd w) (fst w)) (fst w) r of
        None \<Rightarrow> ((fst w, snd w + 1), Inl [OtherErr ''EOF''])
      | Some (s', resp) \<Rightarrow> ((s', snd w + 1), Inr (reply_of resp)))"

definition orders_ok :: "('s \<Rightarrow> bool) \<Rightarrow> ('s \<Rightarrow> 'o \<Rightarrow> bool) \<Rightarrow> (nat \<Rightarrow> 's \<Rightarrow> 'o) \<Rightarrow> bool" where
  "orders_ok ok ord_ok orders \<longleftrightarrow> (\<forall>n s. ok s \<longrightarrow> ord_ok s (orders n s))"

definition loopback_inv ::
  "('s \<Rightarrow> bool) \<Rightarrow> ('s \<Rightarrow> 'o \<Rightarrow> bool) \<Rightarrow> (nat \<Rightarrow> 's \<Rightarrow> 'o) \<Rightarrow> 's \<times> nat \<Rightarrow> bool" where
  "loopback_inv ok ord_ok orders w \<longleftrightarrow> ok (fst w) \<and> orders_ok ok ord_ok orders"

context lock_store
begin

lemma loopback_implements_spec:
  "spec_service (loopback (serve acq rel lst) clock orders) (\<lambda>w. tbl (fst w)) (loopback_inv inv ord_ok orders)"
proof unfold_locales
  fix w :: "'s \<times> nat" and r k l
  assume w: "loopback_inv inv ord_ok orders w"
  then have inv: "inv (fst w)" and ord: "ord_ok (fst w) (orders (snd w) (fst w))"
    by (simp_all add: loopback_inv_def orders_ok_def)
  let ?now = "clock (snd w)" and ?ord = "orders (snd w) (fst w)"
  obtain s' where s': "serve acq rel lst ?now ?ord (fst w) r = Some (s', answer (tbl (fst w)) (lst (fst w) ?ord) r)"
    "inv s'" "tbl s' = spec_table (tbl (fst w)) ?now r"
    using serve_refines [OF inv] by blast
  then have "loopback (serve acq rel lst) clock orders w r =
      ((s', snd w + 1), Inr (reply_of (answer (tbl (fst w)) (lst (fst w) ?ord) r)))"
    by (simp add: loopback_def)
  moreover have "loopback_inv inv ord_ok orders (s', snd w + 1)" using w s'(2) by (simp add: loopback_inv_def)
  ultimately show "\<exists>w' now ls. loopback (serve acq rel lst) clock orders w r =
      (w', Inr (reply_of (answer (tbl (fst w)) ls r))) \<and> loopback_inv inv ord_ok orders w' \<and>
      tbl (fst w') = spec_table (tbl (fst w)) now r \<and> set ls = ran (tbl (fst w)) \<and> distinct (map Key ls)"
    using s'(3) lst_set [OF inv ord] lst_distinct [OF inv ord] by fastforce
  show "Key l = k" if "tbl (fst w) k = Some l" using inv that by (rule tbl_key)
qed

end

end
