(* ===== verification/Bench_Worker.thy ===== *)
theory Bench_Worker
  imports Bench_Client
begin

text \<open>
  The load generators of \<^verbatim>\<open>benchmark/scenarios.go\<close>: the loop \<^verbatim>\<open>worker.acquireRelease\<close>, the polling
  loop of the readers of \<^verbatim>\<open>runListHeavy\<close>, and the phase in which they run concurrently.

  The goroutines of a phase share three atomic counters, the latency channel (a buffer of \<open>2 ^ 20\<close>
  elements, written with a non-blocking send), the cause of the cancellation of \<^verbatim>\<open>abortCtx\<close>, and the
  service under test. A goroutine is a program counter that carries its local variables; one step
  performs one access to the shared state. A phase is driven by a list of events: either the phase's
  deadline passes or one goroutine takes its next step, with the network's behaviour and the
  duration measured for the request. A statement about all event lists is a statement about all
  interleavings.

  Every request carries the phase's context. Making one takes two steps: in the first \<^verbatim>\<open>client.Do\<close> is called,
  which fails at once when the context is done; in the second it returns. Between the two the context may
  end: then \<^verbatim>\<open>Do\<close> returns the context's error (\<open>CutOff\<close>), unless the reply has come first, and the service
  may or may not have executed the request. A request can also fail for a reason of its own, before or
  after it has reached the service: \<open>RequestLost\<close> and \<open>ReplyLost\<close>. What a service does with a request it
  does before the client's call returns. The counters and the loop index are natural numbers; \<^verbatim>\<open>int64\<close> counters would wrap
  only after \<open>2 ^ 63\<close> requests. The goroutine that prints the progress every two seconds reads a
  counter and prints, and is left out.
\<close>

subsection \<open>Shared state\<close>

record worker =
  wk_id :: nat
  wk_keys :: "string list"
  wk_lockee :: string

datatype abort_cause = TimedOut string nat \<comment> \<open>the request and its duration in nanoseconds\<close>

record 'w bench =
  world :: 'w
  total :: nat
  errors :: nat
  conflicts :: nat
  latencies :: "int list"
  timed_out :: bool
  cause :: "abort_cause option"

text \<open>\<^verbatim>\<open>phaseCtx\<close> is done when its deadline has passed or its parent \<^verbatim>\<open>abortCtx\<close> is cancelled.\<close>

definition ctx_err :: "'w bench \<Rightarrow> bool" where
  "ctx_err b \<longleftrightarrow> timed_out b \<or> cause b \<noteq> None"

definition ctx_error :: "'w bench \<Rightarrow> go_error option" where
  "ctx_error b =
     (if cause b \<noteq> None then Some [OtherErr ''context canceled'']
      else if timed_out b then Some [DeadlineExceeded] else None)"

text \<open>The first cancellation of a \<^verbatim>\<open>WithCancelCause\<close> context fixes its cause.\<close>

definition abort :: "abort_cause \<Rightarrow> 'w bench \<Rightarrow> 'w bench" where
  "abort c b = (if cause b = None then b\<lparr>cause := Some c\<rparr> else b)"

definition latency_cap :: nat where
  "latency_cap = 2 ^ 20"

definition offer :: "nat \<Rightarrow> 'w bench \<Rightarrow> 'w bench" where
  "offer elapsed b =
     (if length (latencies b) < latency_cap then b\<lparr>latencies := latencies b @ [int elapsed]\<rparr> else b)"

definition client_timeout :: "client_error \<Rightarrow> bool" where
  "client_timeout e = (case e of DoErr g \<Rightarrow> isTimeout g | ReadErr g \<Rightarrow> isTimeout g | _ \<Rightarrow> False)"

subsection \<open>A worker\<close>

datatype worker_pc =
    Select nat
  | Acquire nat
  | AcquireSent nat
  | AcquireDone nat "client_error + nat" nat
  | AcquireFailed nat client_error nat
  | SampleAcquire nat nat nat
  | Release nat
  | ReleaseSent nat
  | ReleaseDone nat "client_error + nat" nat
  | ReleaseFailed nat client_error nat
  | SampleRelease nat nat
  | Aborting nat abort_cause
  | CountError nat
  | CountConflict nat
  | Returned
  | Panicked

definition key_at :: "worker \<Rightarrow> nat \<Rightarrow> string" where
  "key_at w i = wk_keys w ! (i mod length (wk_keys w))"

fun worker_step ::
  "worker \<Rightarrow> 'w sender \<Rightarrow> nat \<Rightarrow> worker_pc \<Rightarrow> 'w bench \<Rightarrow> worker_pc \<times> 'w bench" where
  "worker_step w send elapsed (Select i) b =
     (if ctx_err b then Returned else if wk_keys w = [] then Panicked else Acquire i, b)"
| "worker_step w send elapsed (Acquire i) b =
     (if ctx_err b
      then (let (w', res) = postLock (ctx_error b) send (key_at w i) (wk_lockee w) False (world b)
            in (AcquireDone i res elapsed, b\<lparr>world := w'\<rparr>))
      else (AcquireSent i, b))"
| "worker_step w send elapsed (AcquireSent i) b =
     (let (w', res) = postLock None send (key_at w i) (wk_lockee w) False (world b)
      in (AcquireDone i res elapsed, b\<lparr>world := w'\<rparr>))"
| "worker_step w send elapsed (AcquireDone i res t) b =
     (case res of Inl e \<Rightarrow> AcquireFailed i e t | Inr statusCode \<Rightarrow> SampleAcquire i statusCode t,
      b\<lparr>total := total b + 1\<rparr>)"
| "worker_step w send elapsed (AcquireFailed i e t) b =
     (if \<not> ctx_err b \<and> client_timeout e then Aborting i (TimedOut ''POST /lock'' t) else CountError i, b)"
| "worker_step w send elapsed (SampleAcquire i statusCode t) b =
     (if statusCode = StatusConflict then CountConflict i
      else if statusCode = StatusOK then Release i else CountError i,
      offer t b)"
| "worker_step w send elapsed (Release i) b =
     (if ctx_err b
      then (let (w', res) = deleteLock (ctx_error b) send (key_at w i) (wk_lockee w) (world b)
            in (ReleaseDone i res elapsed, b\<lparr>world := w'\<rparr>))
      else (ReleaseSent i, b))"
| "worker_step w send elapsed (ReleaseSent i) b =
     (let (w', res) = deleteLock None send (key_at w i) (wk_lockee w) (world b)
      in (ReleaseDone i res elapsed, b\<lparr>world := w'\<rparr>))"
| "worker_step w send elapsed (ReleaseDone i res t) b =
     (case res of
        Inl e \<Rightarrow> ReleaseFailed i e t
      | Inr releaseCode \<Rightarrow>
          if releaseCode \<noteq> StatusOK \<and> releaseCode \<noteq> StatusNotFound then CountError i else SampleRelease i t,
      b\<lparr>total := total b + 1\<rparr>)"
| "worker_step w send elapsed (ReleaseFailed i e t) b =
     (if \<not> ctx_err b \<and> client_timeout e then Aborting i (TimedOut ''POST /unlock'' t) else CountError i, b)"
| "worker_step w send elapsed (SampleRelease i t) b = (Select (i + 1), offer t b)"
| "worker_step w send elapsed (Aborting i c) b = (CountError i, abort c b)"
| "worker_step w send elapsed (CountError i) b = (Select (i + 1), b\<lparr>errors := errors b + 1\<rparr>)"
| "worker_step w send elapsed (CountConflict i) b = (Select (i + 1), b\<lparr>conflicts := conflicts b + 1\<rparr>)"
| "worker_step w send elapsed Returned b = (Returned, b)"
| "worker_step w send elapsed Panicked b = (Panicked, b)"

subsection \<open>A reader\<close>

datatype reader_pc =
    RSelect
  | RGet
  | RSent
  | RDone "client_error + http_reply" nat
  | RFailed client_error nat
  | RStatus http_reply nat
  | RAborting abort_cause
  | RCountError
  | RSample nat
  | RReturned

fun reader_step :: "'w sender \<Rightarrow> nat \<Rightarrow> reader_pc \<Rightarrow> 'w bench \<Rightarrow> reader_pc \<times> 'w bench" where
  "reader_step send elapsed RSelect b = (if ctx_err b then RReturned else RGet, b)"
| "reader_step send elapsed RGet b =
     (if ctx_err b
      then (let (w', res) = client_DoCtx (ctx_error b) send locks_http (world b)
            in (RDone res elapsed, b\<lparr>world := w'\<rparr>))
      else (RSent, b))"
| "reader_step send elapsed RSent b =
     (let (w', res) = client_DoCtx None send locks_http (world b) in (RDone res elapsed, b\<lparr>world := w'\<rparr>))"
| "reader_step send elapsed (RDone res t) b =
     (case res of Inl e \<Rightarrow> RFailed e t | Inr resp \<Rightarrow> RStatus resp t, b\<lparr>total := total b + 1\<rparr>)"
| "reader_step send elapsed (RFailed e t) b =
     (if \<not> ctx_err b \<and> client_timeout e then RAborting (TimedOut ''GET /locks'' t) else RCountError, b)"
| "reader_step send elapsed (RStatus resp t) b =
     (if reply_Status resp \<noteq> StatusOK then RCountError else RSample t, b)"
| "reader_step send elapsed (RAborting c) b = (RCountError, abort c b)"
| "reader_step send elapsed RCountError b = (RSelect, b\<lparr>errors := errors b + 1\<rparr>)"
| "reader_step send elapsed (RSample t) b = (RSelect, offer t b)"
| "reader_step send elapsed RReturned b = (RReturned, b)"

subsection \<open>A phase\<close>

datatype proc = Writer worker worker_pc | Reader reader_pc

fun proc_step :: "'w sender \<Rightarrow> nat \<Rightarrow> proc \<Rightarrow> 'w bench \<Rightarrow> proc \<times> 'w bench" where
  "proc_step send elapsed (Writer w pc) b =
     (let (pc', b') = worker_step w send elapsed pc b in (Writer w pc', b'))"
| "proc_step send elapsed (Reader pc) b =
     (let (pc', b') = reader_step send elapsed pc b in (Reader pc', b'))"

fun returned :: "proc \<Rightarrow> bool" where
  "returned (Writer w pc) \<longleftrightarrow> pc = Returned"
| "returned (Reader pc) \<longleftrightarrow> pc = RReturned"

fun panicked :: "proc \<Rightarrow> bool" where
  "panicked (Writer w pc) \<longleftrightarrow> pc = Panicked"
| "panicked (Reader pc) \<longleftrightarrow> False"

text \<open>
  What becomes of a request under way. \<open>CutOff\<close> needs a context that is done when the call returns (\<open>ctx\<close>);
  its argument says whether the service executed the request. While the context is alive there is nothing
  to cut off and the reply arrives.
\<close>

datatype net = Delivered | RequestLost go_error | ReplyLost go_error | CutOff bool

definition net_send :: "go_error option \<Rightarrow> 'w sender \<Rightarrow> net \<Rightarrow> 'w sender" where
  "net_send ctx send n w r =
     (case n of
        Delivered \<Rightarrow> send w r
      | RequestLost e \<Rightarrow> (w, Inl e)
      | ReplyLost e \<Rightarrow> (fst (send w r), Inl e)
      | CutOff executed \<Rightarrow>
          (case ctx of None \<Rightarrow> send w r | Some e \<Rightarrow> (if executed then fst (send w r) else w, Inl e)))"

datatype event = Deadline | Turn nat net nat

fun phase_step :: "'w sender \<Rightarrow> event \<Rightarrow> 'w bench \<times> proc list \<Rightarrow> 'w bench \<times> proc list" where
  "phase_step send Deadline (b, ps) = (b\<lparr>timed_out := True\<rparr>, ps)"
| "phase_step send (Turn j n elapsed) (b, ps) =
     (if j < length ps
      then let (p', b') = proc_step (net_send (ctx_error b) send n) elapsed (ps ! j) b in (b', ps[j := p'])
      else (b, ps))"

definition phase_run :: "'w sender \<Rightarrow> event list \<Rightarrow> 'w bench \<times> proc list \<Rightarrow> 'w bench \<times> proc list" where
  "phase_run send evs s = fold (phase_step send) evs s"

text \<open>
  The outcome of a phase under a list of events: all goroutines have returned (\<^verbatim>\<open>wg.Wait\<close> is over) and
  no request has timed out, or one has, or a goroutine has panicked and taken the program down, or
  some goroutine is still running.
\<close>

datatype 'w phase_result =
    PhaseDone "'w bench"
  | PhaseAborted abort_cause "'w bench"
  | PhasePanic
  | PhaseRunning

definition runPhase :: "'w sender \<Rightarrow> proc list \<Rightarrow> event list \<Rightarrow> 'w bench \<Rightarrow> 'w phase_result" where
  "runPhase send procs evs b =
     (let (b', ps) = phase_run send evs (b\<lparr>timed_out := False\<rparr>, procs)
      in if list_ex panicked ps then PhasePanic
         else if list_all returned ps
              then (case cause b' of Some c \<Rightarrow> PhaseAborted c b' | None \<Rightarrow> PhaseDone b')
              else PhaseRunning)"

subsection \<open>Invariants of a phase\<close>

text \<open>
  The interface of an invariant: what the deadline and the step of one goroutine keep, for network
  behaviours in \<open>allowed\<close>, holds in every state of a phase.
\<close>

fun event_ok :: "(net \<Rightarrow> bool) \<Rightarrow> event \<Rightarrow> bool" where
  "event_ok allowed Deadline \<longleftrightarrow> True"
| "event_ok allowed (Turn j n t) \<longleftrightarrow> allowed n"

locale phase_invariant =
  fixes send :: "'w sender" and allowed :: "net \<Rightarrow> bool" and I :: "'w bench \<Rightarrow> proc list \<Rightarrow> bool"
  assumes deadline: "I b ps \<Longrightarrow> I (b\<lparr>timed_out := True\<rparr>) ps"
    and turn: "I b ps \<Longrightarrow> j < length ps \<Longrightarrow> allowed n \<Longrightarrow> proc_step (net_send (ctx_error b) send n) t (ps ! j) b = (p', b') \<Longrightarrow>
      I b' (ps[j := p'])"
begin

lemma step_keeps: "I b ps \<Longrightarrow> event_ok allowed e \<Longrightarrow> phase_step send e (b, ps) = (b', ps') \<Longrightarrow> I b' ps'"
  by (cases e) (auto simp: deadline intro: turn split: if_splits prod.splits)

lemma run_keeps:
  "I b ps \<Longrightarrow> list_all (event_ok allowed) evs \<Longrightarrow> phase_run send evs (b, ps) = (b', ps') \<Longrightarrow> I b' ps'"
proof (induction evs arbitrary: b ps)
  case (Cons e evs)
  then show ?case by (cases "phase_step send e (b, ps)") (auto simp: phase_run_def dest: step_keeps)
qed (simp add: phase_run_def)

lemma done_keeps:
  assumes "runPhase send ps evs b = PhaseDone b'" "I (b\<lparr>timed_out := False\<rparr>) ps" "list_all (event_ok allowed) evs"
  obtains ps' where "phase_run send evs (b\<lparr>timed_out := False\<rparr>, ps) = (b', ps')" "I b' ps'"
    "list_all returned ps'" "cause b' = None"
proof -
  obtain b1 ps1 where run: "phase_run send evs (b\<lparr>timed_out := False\<rparr>, ps) = (b1, ps1)" by fastforce
  then have "list_all returned ps1" "cause b1 = None" "b1 = b'"
    using assms(1) by (auto simp: runPhase_def split: if_splits option.splits)
  with that run run_keeps [OF assms(2,3) run] show ?thesis by blast
qed

end

text \<open>Generic: sums over the goroutines when one of them takes a step.\<close>

lemma sum_list_update_nat:
  fixes f :: "'a \<Rightarrow> nat"
  shows "j < length ps \<Longrightarrow> sum_list (map f (ps[j := p])) + f (ps ! j) = sum_list (map f ps) + f p"
proof (induction ps arbitrary: j)
  case (Cons q ps)
  then show ?case by (cases j) (auto simp: algebra_simps)
qed simp

lemma event_ok_True [simp]: "event_ok (\<lambda>n. True) e"
  by (cases e) simp_all

lemma list_all_event_ok [simp]: "list_all (event_ok (\<lambda>n. True)) evs"
  by (simp add: list_all_iff)

lemma set_update_cases:
  "q \<in> set (ps[j := p]) \<Longrightarrow> (q = p \<Longrightarrow> P) \<Longrightarrow> (q \<in> set ps \<Longrightarrow> P) \<Longrightarrow> P"
  by (meson insertE set_update_subset_insert subset_iff)

subsubsection \<open>Counting\<close>

text \<open>Requests that are counted in the total and not yet classified.\<close>

fun pending :: "proc \<Rightarrow> nat" where
  "pending (Writer w pc) =
     (case pc of AcquireFailed _ _ _ \<Rightarrow> 1 | SampleAcquire _ _ _ \<Rightarrow> 1 | ReleaseFailed _ _ _ \<Rightarrow> 1
      | Aborting _ _ \<Rightarrow> 1 | CountError _ \<Rightarrow> 1 | CountConflict _ \<Rightarrow> 1 | _ \<Rightarrow> 0)"
| "pending (Reader pc) =
     (case pc of RFailed _ _ \<Rightarrow> 1 | RStatus _ _ \<Rightarrow> 1 | RAborting _ \<Rightarrow> 1 | RCountError \<Rightarrow> 1 | _ \<Rightarrow> 0)"

definition samples_ok :: "'w bench \<Rightarrow> bool" where
  "samples_ok b \<longleftrightarrow> length (latencies b) \<le> latency_cap \<and> (\<forall>v \<in> set (latencies b). 0 \<le> v)"

definition counts_ok :: "'w bench \<Rightarrow> proc list \<Rightarrow> bool" where
  "counts_ok b ps \<longleftrightarrow> errors b + conflicts b + sum_list (map pending ps) \<le> total b \<and> samples_ok b"

lemma offer_simps [simp]:
  "total (offer t b) = total b" "errors (offer t b) = errors b" "conflicts (offer t b) = conflicts b"
  "world (offer t b) = world b" "cause (offer t b) = cause b" "timed_out (offer t b) = timed_out b"
  by (simp_all add: offer_def)

lemma abort_simps [simp]:
  "total (abort c b) = total b" "errors (abort c b) = errors b" "conflicts (abort c b) = conflicts b"
  "world (abort c b) = world b" "latencies (abort c b) = latencies b" "timed_out (abort c b) = timed_out b"
  "ctx_err b \<Longrightarrow> ctx_err (abort c b)" "cause (abort c b) \<noteq> None"
  by (simp_all add: abort_def ctx_err_def)

lemma samples_ok_offer: "samples_ok b \<Longrightarrow> samples_ok (offer t b)"
  by (auto simp: samples_ok_def offer_def)

lemma samples_ok_simps [simp]:
  "samples_ok (b\<lparr>world := x\<rparr>) = samples_ok b" "samples_ok (b\<lparr>total := n\<rparr>) = samples_ok b"
  "samples_ok (b\<lparr>errors := n\<rparr>) = samples_ok b" "samples_ok (b\<lparr>conflicts := n\<rparr>) = samples_ok b"
  "samples_ok (b\<lparr>timed_out := d\<rparr>) = samples_ok b" "samples_ok (abort c b) = samples_ok b"
  by (simp_all add: samples_ok_def)

lemma worker_step_counts:
  "worker_step w send t pc b = (pc', b') \<Longrightarrow>
     errors b' + conflicts b' + pending (Writer w pc') + total b \<le> errors b + conflicts b + pending (Writer w pc) + total b' \<and>
     (samples_ok b \<longrightarrow> samples_ok b')"
  by (cases pc) (auto simp: samples_ok_offer split: if_splits prod.splits sum.splits)

lemma reader_step_counts:
  "reader_step send t pc b = (pc', b') \<Longrightarrow>
     errors b' + conflicts b' + pending (Reader pc') + total b \<le> errors b + conflicts b + pending (Reader pc) + total b' \<and>
     (samples_ok b \<longrightarrow> samples_ok b')"
  by (cases pc) (auto simp: samples_ok_offer split: if_splits prod.splits sum.splits)

lemma proc_step_counts:
  "proc_step send t p b = (p', b') \<Longrightarrow>
     errors b' + conflicts b' + pending p' + total b \<le> errors b + conflicts b + pending p + total b' \<and>
     (samples_ok b \<longrightarrow> samples_ok b')"
  by (cases p) (auto split: prod.splits dest!: worker_step_counts reader_step_counts simp del: pending.simps)

interpretation counting: phase_invariant send "\<lambda>n. True" counts_ok for send :: "'w sender"
proof unfold_locales
  fix b :: "'w bench" and ps j n t p' b'
  show "counts_ok b ps \<Longrightarrow> counts_ok (b\<lparr>timed_out := True\<rparr>) ps" by (simp add: counts_ok_def)
  assume "counts_ok b ps" "j < length ps" "proc_step (net_send (ctx_error b) send n) t (ps ! j) b = (p', b')"
  then show "counts_ok b' (ps[j := p'])"
    using proc_step_counts [of "net_send (ctx_error b) send n" t "ps ! j" b p' b'] sum_list_update_nat [of j ps pending p']
    by (simp add: counts_ok_def)
qed

subsubsection \<open>The goroutines return\<close>

text \<open>The number of its own steps after which a goroutine has returned, once the context is done.\<close>

fun steps_left :: "proc \<Rightarrow> nat" where
  "steps_left (Writer w pc) =
     (case pc of Select _ \<Rightarrow> 1 | Acquire _ \<Rightarrow> 8 | AcquireSent _ \<Rightarrow> 8 | AcquireDone _ _ _ \<Rightarrow> 7 | AcquireFailed _ _ _ \<Rightarrow> 3
      | SampleAcquire _ _ _ \<Rightarrow> 6 | Release _ \<Rightarrow> 5 | ReleaseSent _ \<Rightarrow> 5 | ReleaseDone _ _ _ \<Rightarrow> 4 | ReleaseFailed _ _ _ \<Rightarrow> 3
      | SampleRelease _ _ \<Rightarrow> 2 | Aborting _ _ \<Rightarrow> 3 | CountError _ \<Rightarrow> 2 | CountConflict _ \<Rightarrow> 2
      | Returned \<Rightarrow> 0 | Panicked \<Rightarrow> 0)"
| "steps_left (Reader pc) =
     (case pc of RSelect \<Rightarrow> 1 | RGet \<Rightarrow> 6 | RSent \<Rightarrow> 6 | RDone _ _ \<Rightarrow> 5 | RFailed _ _ \<Rightarrow> 3 | RStatus _ _ \<Rightarrow> 3 | RAborting _ \<Rightarrow> 3
      | RCountError \<Rightarrow> 2 | RSample _ \<Rightarrow> 2 | RReturned \<Rightarrow> 0)"

fun turn_of :: "nat \<Rightarrow> event \<Rightarrow> bool" where
  "turn_of j Deadline \<longleftrightarrow> False"
| "turn_of j (Turn i n t) \<longleftrightarrow> i = j"

definition turns :: "nat \<Rightarrow> event list \<Rightarrow> nat" where
  "turns j evs = length (filter (turn_of j) evs)"

fun has_keys :: "proc \<Rightarrow> bool" where
  "has_keys (Writer w pc) \<longleftrightarrow> wk_keys w \<noteq> [] \<and> pc \<noteq> Panicked"
| "has_keys (Reader pc) \<longleftrightarrow> True"

lemma ctx_err_simps [simp]:
  "ctx_err (b\<lparr>world := x\<rparr>) = ctx_err b" "ctx_err (b\<lparr>total := n\<rparr>) = ctx_err b"
  "ctx_err (b\<lparr>errors := n\<rparr>) = ctx_err b" "ctx_err (b\<lparr>conflicts := n\<rparr>) = ctx_err b"
  "ctx_err (b\<lparr>timed_out := True\<rparr>)" "ctx_err (offer t b) = ctx_err b"
  by (simp_all add: ctx_err_def)

lemma ctx_error_simps [simp]:
  "ctx_error (b\<lparr>world := x\<rparr>) = ctx_error b" "ctx_error (b\<lparr>total := n\<rparr>) = ctx_error b"
  "ctx_error (b\<lparr>errors := n\<rparr>) = ctx_error b" "ctx_error (b\<lparr>conflicts := n\<rparr>) = ctx_error b"
  "ctx_error (offer t b) = ctx_error b"
  by (simp_all add: ctx_error_def)

lemma ctx_err_error: "ctx_err b \<longleftrightarrow> (\<exists>e. ctx_error b = Some e)"
  by (auto simp: ctx_err_def ctx_error_def)

lemma worker_step_left:
  "ctx_err b \<Longrightarrow> worker_step w send t pc b = (pc', b') \<Longrightarrow>
     steps_left (Writer w pc') \<le> steps_left (Writer w pc) - 1 \<and> ctx_err b'"
  by (cases pc) (auto split: if_splits prod.splits sum.splits)

lemma reader_step_left:
  "ctx_err b \<Longrightarrow> reader_step send t pc b = (pc', b') \<Longrightarrow>
     steps_left (Reader pc') \<le> steps_left (Reader pc) - 1 \<and> ctx_err b'"
  by (cases pc) (auto split: if_splits prod.splits sum.splits)

lemma proc_step_left:
  "ctx_err b \<Longrightarrow> proc_step send t p b = (p', b') \<Longrightarrow> steps_left p' \<le> steps_left p - 1 \<and> ctx_err b'"
  by (cases p) (auto split: prod.splits dest: worker_step_left reader_step_left simp del: steps_left.simps)

lemma steps_left_0: "steps_left p = 0 \<longleftrightarrow> returned p \<or> panicked p"
proof (cases p)
  case (Writer w pc)
  then show ?thesis by (cases pc) auto
next
  case (Reader pc)
  then show ?thesis by (cases pc) auto
qed

lemma steps_left_le: "steps_left p \<le> 8"
proof (cases p)
  case (Writer w pc)
  then show ?thesis by (cases pc) auto
next
  case (Reader pc)
  then show ?thesis by (cases pc) auto
qed

lemma phase_step_length: "phase_step send e (b, ps) = (b', ps') \<Longrightarrow> length ps' = length ps"
  by (cases e) (auto split: if_splits prod.splits)

lemma phase_run_length: "phase_run send evs (b, ps) = (b', ps') \<Longrightarrow> length ps' = length ps"
proof (induction evs arbitrary: b ps)
  case (Cons e evs)
  then show ?case by (cases "phase_step send e (b, ps)") (auto simp: phase_run_def dest: phase_step_length)
qed (simp add: phase_run_def)

lemma phase_step_left:
  assumes "ctx_err b" "phase_step send e (b, ps) = (b', ps')" "j < length ps"
  shows "steps_left (ps' ! j) \<le> steps_left (ps ! j) - turns j [e] \<and> ctx_err b'"
proof (cases e)
  case Deadline
  with assms show ?thesis by (auto simp: turns_def)
next
  case (Turn i n t)
  show ?thesis
  proof (cases "i < length ps")
    case True
    obtain p' b1 where p': "proc_step (net_send (ctx_error b) send n) t (ps ! i) b = (p', b1)" by fastforce
    then have "b' = b1" "ps' = ps[i := p']" using assms(2) Turn True by simp_all
    with proc_step_left [OF assms(1) p'] assms(3) Turn show ?thesis by (auto simp: turns_def nth_list_update)
  next
    case False
    with assms Turn show ?thesis by (auto simp: turns_def)
  qed
qed

lemma phase_run_left:
  "ctx_err b \<Longrightarrow> phase_run send evs (b, ps) = (b', ps') \<Longrightarrow> j < length ps \<Longrightarrow>
     steps_left (ps' ! j) \<le> steps_left (ps ! j) - turns j evs"
proof (induction evs arbitrary: b ps)
  case (Cons e evs)
  obtain b1 ps1 where 1: "phase_step send e (b, ps) = (b1, ps1)" by fastforce
  have "turns j (e # evs) = turns j [e] + turns j evs" by (simp add: turns_def)
  moreover have "phase_run send evs (b1, ps1) = (b', ps')" using Cons.prems(2) 1 by (simp add: phase_run_def)
  ultimately show ?case
    using Cons.IH [of b1 ps1] phase_step_left [OF Cons.prems(1) 1 Cons.prems(3)] phase_step_length [OF 1] Cons.prems(3)
    by linarith
qed (simp add: phase_run_def turns_def)

lemma worker_step_keys: "wk_keys w \<noteq> [] \<Longrightarrow> pc \<noteq> Panicked \<Longrightarrow> fst (worker_step w send t pc b) \<noteq> Panicked"
  by (cases pc) (auto split: prod.splits sum.splits)

lemma proc_step_keys: "has_keys p \<Longrightarrow> proc_step send t p b = (p', b') \<Longrightarrow> has_keys p'"
  using worker_step_keys [of _ _ send t b] by (cases p) (fastforce split: prod.splits)+

interpretation keyed: phase_invariant send "\<lambda>n. True" "\<lambda>b ps. list_all has_keys ps" for send :: "'w sender"
proof unfold_locales
  fix b :: "'w bench" and ps j n t p' b'
  assume "list_all has_keys ps" "j < length ps" "proc_step (net_send (ctx_error b) send n) t (ps ! j) b = (p', b')"
  then show "list_all has_keys (ps[j := p'])"
    by (auto simp: list_all_length nth_list_update intro: proc_step_keys)
qed

text \<open>After the deadline, eight turns for every goroutine end the phase.\<close>

lemma phase_run_returns:
  assumes keys: "list_all has_keys procs" and run: "phase_run send (evs1 @ Deadline # evs2) (b, procs) = (b', ps')"
    and fair: "\<forall>j < length procs. 8 \<le> turns j evs2"
  shows "list_all returned ps' \<and> \<not> list_ex panicked ps'"
proof -
  obtain b1 ps1 where 1: "phase_run send evs1 (b, procs) = (b1, ps1)" by fastforce
  have 2: "phase_run send evs2 (b1\<lparr>timed_out := True\<rparr>, ps1) = (b', ps')"
    using run 1 by (simp add: phase_run_def)
  have len: "length ps1 = length procs" "length ps' = length procs"
    using phase_run_length [OF 1] phase_run_length [OF run] by simp_all
  have nopanic: "list_all has_keys ps'" by (rule keyed.run_keeps [OF keys _ run]) simp
  then have np: "\<not> panicked p" if "p \<in> set ps'" for p
    using that by (cases p) (auto simp: list_all_iff)
  have "steps_left (ps' ! j) = 0" if "j < length ps'" for j
    using phase_run_left [OF _ 2, of j] steps_left_le [of "ps1 ! j"] fair that len by fastforce
  then have "returned (ps' ! j)" if "j < length ps'" for j
    using that np by (metis nth_mem steps_left_0)
  then show ?thesis using np by (auto simp: list_all_length list_ex_iff)
qed

subsection \<open>Workers against a service that implements the specification\<close>

text \<open>Requests that fail for no other reason than the end of their context.\<close>

fun undisturbed :: "net \<Rightarrow> bool" where
  "undisturbed Delivered = True"
| "undisturbed (CutOff x) = True"
| "undisturbed n = False"

fun proc_keys :: "proc \<Rightarrow> string set" where
  "proc_keys (Writer w pc) = set (wk_keys w)"
| "proc_keys (Reader pc) = {}"

text \<open>A worker has keys, and neither its keys nor its lockee are empty strings.\<close>

fun writer_ok :: "proc \<Rightarrow> bool" where
  "writer_ok (Writer w pc) \<longleftrightarrow> wk_keys w \<noteq> [] \<and> [] \<notin> set (wk_keys w) \<and> wk_lockee w \<noteq> []"
| "writer_ok (Reader pc) \<longleftrightarrow> True"

fun owns_keys :: "lock_table \<Rightarrow> proc \<Rightarrow> bool" where
  "owns_keys T (Writer w pc) \<longleftrightarrow> (\<forall>k \<in> set (wk_keys w). T k = None \<or> holder T k = Some (wk_lockee w))"
| "owns_keys T (Reader pc) \<longleftrightarrow> True"

fun no_conflict :: "proc \<Rightarrow> bool" where
  "no_conflict (Writer w pc) =
     (case pc of AcquireDone _ res _ \<Rightarrow> res \<noteq> Inr StatusConflict | SampleAcquire _ c _ \<Rightarrow> c \<noteq> StatusConflict
      | CountConflict _ \<Rightarrow> False | _ \<Rightarrow> True)"
| "no_conflict (Reader pc) \<longleftrightarrow> True"

definition partitioned :: "proc list \<Rightarrow> bool" where
  "partitioned ps \<longleftrightarrow> (\<forall>i < length ps. \<forall>j < length ps. i \<noteq> j \<longrightarrow> proc_keys (ps ! i) \<inter> proc_keys (ps ! j) = {})"

definition owned :: "('w \<Rightarrow> lock_table) \<Rightarrow> ('w \<Rightarrow> bool) \<Rightarrow> 'w bench \<Rightarrow> proc list \<Rightarrow> bool" where
  "owned wtbl winv b ps \<longleftrightarrow> winv (world b) \<and> partitioned ps \<and> conflicts b = 0 \<and>
     (\<forall>p \<in> set ps. writer_ok p \<and> owns_keys (wtbl (world b)) p \<and> no_conflict p)"

lemma key_at_in: "wk_keys w \<noteq> [] \<Longrightarrow> key_at w i \<in> set (wk_keys w)"
  by (simp add: key_at_def)

lemma proc_step_static:
  "proc_step send t p b = (p', b') \<Longrightarrow> proc_keys p' = proc_keys p \<and> writer_ok p' = writer_ok p"
  by (cases p) (auto split: prod.splits)

lemma partitioned_update:
  assumes "partitioned ps" "proc_keys p' = proc_keys (ps ! j)"
  shows "partitioned (ps[j := p'])"
proof -
  have "proc_keys (ps[j := p'] ! i) = proc_keys (ps ! i)" if "i < length ps" for i
    using assms(2) that by (cases "i = j") simp_all
  with assms(1) show ?thesis by (simp add: partitioned_def)
qed

lemma owns_keys_lock:
  "owns_keys T (Writer w pc) \<Longrightarrow> owns_keys (lock_entry T k (wk_lockee w) False now) (Writer w pc')"
  unfolding owns_keys.simps holder_None [symmetric] by (auto simp: holder_lock_entry simp del: holder_None)

lemma owns_keys_release:
  "owns_keys T (Writer w pc) \<Longrightarrow> owns_keys (release_entry T k (wk_lockee w)) (Writer w pc')"
  unfolding owns_keys.simps holder_None [symmetric] by (auto simp: holder_release_entry simp del: holder_None)

lemma owns_keys_cong: "(\<And>k. k \<in> proc_keys p \<Longrightarrow> T' k = T k) \<Longrightarrow> owns_keys T' p = owns_keys T p"
  by (cases p) (auto simp: holder_def)

context spec_service
begin

text \<open>The three requests of the load generators under each behaviour of the network.\<close>

lemma postLock_net:
  assumes "winv w" "k \<noteq> []" "a \<noteq> []" "postLock None (net_send ctx send n) k a False w = (w', res)"
  shows "winv w'"
    and "wtbl w' = wtbl w \<or> (\<exists>now. wtbl w' = lock_entry (wtbl w) k a False now)"
    and "res = Inr c \<Longrightarrow> c = (if may_lock (wtbl w) k a False then StatusOK else StatusConflict) \<and>
           (\<exists>now. wtbl w' = lock_entry (wtbl w) k a False now)"
    and "undisturbed n \<Longrightarrow> (\<exists>c. res = Inr c) \<or> ctx \<noteq> None"
  using send_answers [OF assms(1), of "lock_http k a False"] assms
  by (auto simp: postLock_def net_send_def client_Do_def bind_io_def answer_def spec_response_def spec_table_def
      reply_of_def http_simps split: net.splits if_splits option.splits)

lemma deleteLock_net:
  assumes "winv w" "k \<noteq> []" "a \<noteq> []" "deleteLock None (net_send ctx send n) k a w = (w', res)"
  shows "winv w'"
    and "wtbl w' = wtbl w \<or> wtbl w' = release_entry (wtbl w) k a"
    and "res = Inr c \<Longrightarrow> c = release_status (wtbl w) k a \<and> wtbl w' = release_entry (wtbl w) k a"
    and "undisturbed n \<Longrightarrow> (\<exists>c. res = Inr c) \<or> ctx \<noteq> None"
  using send_answers [OF assms(1), of "unlock_http k a"] assms
  by (auto simp: deleteLock_def net_send_def client_Do_def bind_io_def answer_def spec_response_def spec_table_def
      reply_of_def Let_def http_simps split: net.splits if_splits option.splits)

lemma getLocks_net:
  assumes "winv w" "client_Do (net_send ctx send n) locks_http w = (w', res)"
  shows "winv w'" and "wtbl w' = wtbl w"
    and "undisturbed n \<Longrightarrow> (\<exists>p. res = Inr p \<and> reply_Status p = StatusOK) \<or> (\<exists>e. res = Inl e) \<and> ctx \<noteq> None"
  using listing_answer [OF assms(1)] assms
  by (auto simp: net_send_def client_Do_def reply_of_def split: net.splits option.splits if_splits)

text \<open>A worker whose keys nobody else holds is never refused, and touches only its own keys.\<close>

lemma worker_step_owned:
  assumes w: "winv (world b)" and ok: "writer_ok (Writer w pc)" and own: "owns_keys (wtbl (world b)) (Writer w pc)"
    and nc: "no_conflict (Writer w pc)" and step: "worker_step w (net_send ctx send n) t pc b = (pc', b')"
  shows "winv (world b') \<and> owns_keys (wtbl (world b')) (Writer w pc') \<and> no_conflict (Writer w pc') \<and>
    conflicts b' = conflicts b \<and> (\<forall>k. k \<notin> set (wk_keys w) \<longrightarrow> wtbl (world b') k = wtbl (world b) k)"
proof (cases pc)
  case (AcquireSent i)
  let ?k = "key_at w i" and ?a = "wk_lockee w"
  have k: "?k \<in> set (wk_keys w)" "?k \<noteq> []" "?a \<noteq> []" using ok key_at_in [of w i] by auto
  obtain w' res where r: "postLock None (net_send ctx send n) ?k ?a False (world b) = (w', res)" by fastforce
  have b': "b' = b\<lparr>world := w'\<rparr>" "pc' = AcquireDone i res t" using step AcquireSent r by simp_all
  note net = postLock_net [OF w k(2,3) r]
  have may: "may_lock (wtbl (world b)) ?k ?a False" using own k(1) by (auto simp: may_lock_def holder_def)
  have "res \<noteq> Inr StatusConflict" using net(3) may by auto
  moreover have "owns_keys (wtbl w') (Writer w pc')"
    using net(2) own owns_keys_lock [OF own, of ?k _ pc'] by (elim disjE exE) (simp_all only: owns_keys.simps)
  moreover have "\<forall>k. k \<notin> set (wk_keys w) \<longrightarrow> wtbl w' k = wtbl (world b) k"
    using net(2) k(1) by (auto simp: lock_entry_def)
  ultimately show ?thesis using net(1) b' by simp
next
  case (ReleaseSent i)
  let ?k = "key_at w i" and ?a = "wk_lockee w"
  have k: "?k \<in> set (wk_keys w)" "?k \<noteq> []" "?a \<noteq> []" using ok key_at_in [of w i] by auto
  obtain w' res where r: "deleteLock None (net_send ctx send n) ?k ?a (world b) = (w', res)" by fastforce
  have b': "b' = b\<lparr>world := w'\<rparr>" "pc' = ReleaseDone i res t" using step ReleaseSent r by simp_all
  note net = deleteLock_net [OF w k(2,3) r]
  have "owns_keys (wtbl w') (Writer w pc')"
    using net(2) own owns_keys_release [OF own, of ?k pc'] by (elim disjE exE) (simp_all only: owns_keys.simps)
  moreover have "\<forall>k. k \<notin> set (wk_keys w) \<longrightarrow> wtbl w' k = wtbl (world b) k"
    using net(2) k(1) by (auto simp: release_entry_def)
  ultimately show ?thesis using net(1) b' by simp
qed (use assms in \<open>auto simp: ctx_err_error split: if_splits sum.splits\<close>)

lemma reader_step_owned:
  assumes "winv (world b)" and "reader_step (net_send ctx send n) t pc b = (pc', b')"
  shows "winv (world b') \<and> wtbl (world b') = wtbl (world b) \<and> conflicts b' = conflicts b"
  using assms getLocks_net [OF assms(1)] by (cases pc) (auto simp: ctx_err_error split: prod.splits if_splits)

lemma proc_step_owned:
  assumes "winv (world b)" "writer_ok p" "owns_keys (wtbl (world b)) p" "no_conflict p"
    and "proc_step (net_send ctx send n) t p b = (p', b')"
  shows "winv (world b') \<and> owns_keys (wtbl (world b')) p' \<and> no_conflict p' \<and>
    conflicts b' = conflicts b \<and> (\<forall>k. k \<notin> proc_keys p \<longrightarrow> wtbl (world b') k = wtbl (world b) k)"
proof (cases p)
  case (Writer w pc)
  with assms obtain pc' where "worker_step w (net_send ctx send n) t pc b = (pc', b')" "p' = Writer w pc'"
    by (auto split: prod.splits)
  with worker_step_owned [of b w pc ctx n t pc' b'] assms Writer show ?thesis by simp
next
  case (Reader pc)
  with assms obtain pc' where "reader_step (net_send ctx send n) t pc b = (pc', b')" "p' = Reader pc'"
    by (auto split: prod.splits)
  with reader_step_owned [OF assms(1), of ctx n t pc pc' b'] Reader show ?thesis by simp
qed

lemma owned_turn:
  assumes I: "owned wtbl winv b ps" and j: "j < length ps" and step: "proc_step (net_send (ctx_error b) send n) t (ps ! j) b = (p', b')"
  shows "owned wtbl winv b' (ps[j := p'])"
proof -
  let ?T = "wtbl (world b)" and ?T' = "wtbl (world b')"
  have p: "writer_ok (ps ! j)" "owns_keys ?T (ps ! j)" "no_conflict (ps ! j)" "winv (world b)"
    using I j by (simp_all add: owned_def)
  note st = proc_step_owned [OF p(4) p(1-3) step] and static = proc_step_static [OF step]
  have other: "owns_keys ?T' (ps ! i)" if i: "i < length ps" "i \<noteq> j" for i
  proof -
    have "proc_keys (ps ! i) \<inter> proc_keys (ps ! j) = {}" using I i j by (simp add: owned_def partitioned_def)
    then have "owns_keys ?T' (ps ! i) = owns_keys ?T (ps ! i)" using st by (intro owns_keys_cong) blast
    then show ?thesis using I i(1) by (simp add: owned_def)
  qed
  have "writer_ok q \<and> owns_keys ?T' q \<and> no_conflict q" if q: "q \<in> set (ps[j := p'])" for q
  proof -
    obtain i where i: "i < length ps" "q = ps[j := p'] ! i" using q by (auto simp: in_set_conv_nth)
    show ?thesis
    proof (cases "i = j")
      case True
      then show ?thesis using i j st static p by simp
    next
      case False
      then show ?thesis using i I other by (simp add: owned_def)
    qed
  qed
  moreover have "partitioned (ps[j := p'])" using I static partitioned_update by (simp add: owned_def)
  ultimately show ?thesis using I st by (simp add: owned_def)
qed

end

sublocale spec_service \<subseteq> own: phase_invariant send "\<lambda>n. True" "owned wtbl winv"
proof unfold_locales
  show "owned wtbl winv (b\<lparr>timed_out := True\<rparr>) ps" if "owned wtbl winv b ps" for b ps
    using that by (simp add: owned_def)
qed (rule owned_turn)

subsubsection \<open>Runs in which requests fail only because their phase ends\<close>

text \<open>The key and lockee of the lock that a worker holds between its two requests.\<close>

fun holding :: "proc \<Rightarrow> (string \<times> string) option" where
  "holding (Writer w pc) =
     (case pc of
        AcquireDone i res _ \<Rightarrow> if res = Inr StatusOK then Some (key_at w i, wk_lockee w) else None
      | SampleAcquire i c _ \<Rightarrow> if c = StatusOK then Some (key_at w i, wk_lockee w) else None
      | Release i \<Rightarrow> Some (key_at w i, wk_lockee w)
      | ReleaseSent i \<Rightarrow> Some (key_at w i, wk_lockee w)
      | _ \<Rightarrow> None)"
| "holding (Reader pc) = None"

text \<open>On the way from a failed request to its count.\<close>

fun failing :: "proc \<Rightarrow> bool" where
  "failing (Writer w pc) =
     (case pc of AcquireDone _ res _ \<Rightarrow> isl res | AcquireFailed _ _ _ \<Rightarrow> True | ReleaseDone _ res _ \<Rightarrow> isl res
      | ReleaseFailed _ _ _ \<Rightarrow> True | CountError _ \<Rightarrow> True | _ \<Rightarrow> False)"
| "failing (Reader pc) =
     (case pc of RDone res _ \<Rightarrow> isl res | RFailed _ _ \<Rightarrow> True | RCountError \<Rightarrow> True | _ \<Rightarrow> False)"

text \<open>Replies are those of a lock service, and nobody aborts the run.\<close>

fun proper :: "proc \<Rightarrow> bool" where
  "proper (Writer w pc) =
     (case pc of AcquireDone _ res _ \<Rightarrow> isl res \<or> res = Inr StatusOK \<or> res = Inr StatusConflict
      | SampleAcquire _ c _ \<Rightarrow> c = StatusOK \<or> c = StatusConflict
      | ReleaseDone _ res _ \<Rightarrow> isl res \<or> res = Inr StatusOK
      | Aborting _ _ \<Rightarrow> False | _ \<Rightarrow> True)"
| "proper (Reader pc) =
     (case pc of RDone res _ \<Rightarrow> isl res \<or> (\<exists>p. res = Inr p \<and> reply_Status p = StatusOK)
      | RStatus p _ \<Rightarrow> reply_Status p = StatusOK
      | RAborting _ \<Rightarrow> False | _ \<Rightarrow> True)"

text \<open>
  How many errors a goroutine may still count, and how many locks it may still add to the table, given
  whether the context is done: one as long as it can begin another request, none afterwards.
\<close>

fun err_credit :: "bool \<Rightarrow> proc \<Rightarrow> nat" where
  "err_credit d (Writer w pc) =
     (case pc of Select _ \<Rightarrow> if d then 0 else 1 | Returned \<Rightarrow> 0 | Panicked \<Rightarrow> 0 | _ \<Rightarrow> 1)"
| "err_credit d (Reader pc) = (case pc of RSelect \<Rightarrow> if d then 0 else 1 | RReturned \<Rightarrow> 0 | _ \<Rightarrow> 1)"

fun lock_credit :: "bool \<Rightarrow> proc \<Rightarrow> nat" where
  "lock_credit d (Writer w pc) =
     (case pc of Select _ \<Rightarrow> if d then 0 else 1 | Acquire _ \<Rightarrow> 1 | AcquireSent _ \<Rightarrow> 1
      | AcquireDone _ res _ \<Rightarrow> if res = Inr StatusConflict then 1 else 0
      | SampleAcquire _ c _ \<Rightarrow> if c = StatusConflict then 1 else 0 | CountConflict _ \<Rightarrow> 1
      | ReleaseDone _ res _ \<Rightarrow> if res = Inr StatusOK then 1 else 0 | SampleRelease _ _ \<Rightarrow> 1 | _ \<Rightarrow> 0)"
| "lock_credit d (Reader pc) = 0"

fun proc_lockee :: "proc \<Rightarrow> string option" where
  "proc_lockee (Writer w pc) = Some (wk_lockee w)"
| "proc_lockee (Reader pc) = None"

definition distinct_lockees :: "proc list \<Rightarrow> bool" where
  "distinct_lockees ps \<longleftrightarrow> (\<forall>i < length ps. \<forall>j < length ps. i \<noteq> j \<longrightarrow>
     proc_lockee (ps ! i) = None \<or> proc_lockee (ps ! i) \<noteq> proc_lockee (ps ! j))"

definition holds_rightly :: "lock_table \<Rightarrow> proc \<Rightarrow> bool" where
  "holds_rightly T p \<longleftrightarrow> (\<forall>k a. holding p = Some (k, a) \<longrightarrow> holder T k = Some a)"

definition contained ::
  "('w \<Rightarrow> lock_table) \<Rightarrow> ('w \<Rightarrow> bool) \<Rightarrow> nat \<Rightarrow> nat \<Rightarrow> 'w bench \<Rightarrow> proc list \<Rightarrow> bool" where
  "contained wtbl winv E L b ps \<longleftrightarrow> winv (world b) \<and> cause b = None \<and> distinct_lockees ps \<and>
     (\<forall>p \<in> set ps. writer_ok p \<and> proper p \<and> (failing p \<longrightarrow> ctx_err b) \<and> holds_rightly (wtbl (world b)) p) \<and>
     errors b + sum_list (map (err_credit (ctx_err b)) ps) \<le> E \<and>
     card (dom (wtbl (world b))) + sum_list (map (lock_credit (ctx_err b)) ps) \<le> L"

lemma holding_lockee: "holding p = Some (k, a) \<Longrightarrow> proc_lockee p = Some a"
proof (cases p)
  case (Writer w pc)
  then show "holding p = Some (k, a) \<Longrightarrow> proc_lockee p = Some a" by (cases pc) (auto split: if_splits)
qed simp

lemma proc_step_lockee: "proc_step send t p b = (p', b') \<Longrightarrow> proc_lockee p' = proc_lockee p"
  by (cases p) (auto split: prod.splits)

lemma distinct_lockees_update:
  assumes "distinct_lockees ps" "proc_lockee p' = proc_lockee (ps ! j)"
  shows "distinct_lockees (ps[j := p'])"
proof -
  have "proc_lockee (ps[j := p'] ! i) = proc_lockee (ps ! i)" if "i < length ps" for i
    using assms(2) that by (cases "i = j") simp_all
  with assms(1) show ?thesis by (simp add: distinct_lockees_def)
qed

text \<open>The size of the table, and the locks of others, under the requests of one lockee.\<close>

lemma card_lock_entry: "finite (dom T) \<Longrightarrow> card (dom (lock_entry T k a f now)) \<le> Suc (card (dom T))"
  by (auto simp: lock_entry_def card_insert_if)

lemma card_release_entry: "finite (dom T) \<Longrightarrow> card (dom (release_entry T k a)) \<le> card (dom T)"
  by (auto simp: release_entry_def intro: card_mono)

lemma card_release_held: "finite (dom T) \<Longrightarrow> holder T k = Some a \<Longrightarrow> Suc (card (dom (release_entry T k a))) = card (dom T)"
proof -
  assume T: "finite (dom T)" "holder T k = Some a"
  then have "k \<in> dom T" by (auto simp: holder_eq_Some)
  with T show ?thesis using card_Suc_Diff1 [of "dom T" k] by (simp add: release_entry_def)
qed

lemma others_keep:
  "holder T k = Some h \<Longrightarrow> h \<noteq> a \<Longrightarrow> holder (lock_entry T k' a False now) k = Some h"
  "holder T k = Some h \<Longrightarrow> h \<noteq> a \<Longrightarrow> holder (release_entry T k' a) k = Some h"
  by (auto simp: holder_lock_entry holder_release_entry)

text \<open>What one step of one goroutine does to everything that \<open>contained\<close> speaks of.\<close>

definition keeps_bounds :: "lock_table \<Rightarrow> 'w bench \<Rightarrow> proc \<Rightarrow> lock_table \<Rightarrow> 'w bench \<Rightarrow> proc \<Rightarrow> bool" where
  "keeps_bounds T b p T' b' p' \<longleftrightarrow> cause b' = None \<and> ctx_err b' = ctx_err b \<and> proper p' \<and>
     (failing p' \<longrightarrow> ctx_err b) \<and> holds_rightly T' p' \<and>
     errors b' + err_credit (ctx_err b) p' \<le> errors b + err_credit (ctx_err b) p \<and>
     card (dom T') + lock_credit (ctx_err b) p' \<le> card (dom T) + lock_credit (ctx_err b) p \<and>
     (\<forall>k h. holder T k = Some h \<and> Some h \<noteq> proc_lockee p \<longrightarrow> holder T' k = Some h)"

context spec_service
begin

lemma acquire_contained:
  assumes w: "winv (world b)" and ok: "writer_ok (Writer w pc)" and n: "undisturbed n" and c: "cause b = None"
    and pc: "pc = AcquireSent i" and step: "worker_step w (net_send (ctx_error b) send n) t pc b = (pc', b')"
  shows "winv (world b') \<and> keeps_bounds (wtbl (world b)) b (Writer w pc) (wtbl (world b')) b' (Writer w pc')"
proof -
  let ?k = "key_at w i" and ?a = "wk_lockee w" and ?T = "wtbl (world b)"
  have k: "?k \<noteq> []" "?a \<noteq> []" using ok key_at_in [of w i] by auto
  obtain w' res where r: "postLock None (net_send (ctx_error b) send n) ?k ?a False (world b) = (w', res)" by fastforce
  have b': "b' = b\<lparr>world := w'\<rparr>" "pc' = AcquireDone i res t" using step pc r by simp_all
  note net = postLock_net [OF w k r] and T = table_finite [OF w]
  have T': "wtbl w' = ?T \<or> (\<exists>now. wtbl w' = lock_entry ?T ?k ?a False now)" by (rule net(2))
  have card: "card (dom (wtbl w')) \<le> Suc (card (dom ?T))" using T' card_lock_entry [OF T] by auto
  have others: "\<forall>k h. holder ?T k = Some h \<and> h \<noteq> ?a \<longrightarrow> holder (wtbl w') k = Some h"
    using T' others_keep(1) by auto
  show ?thesis
  proof (cases res)
    case (Inl e)
    then have "ctx_err b" using net(4) [OF n] by (auto simp: ctx_err_error)
    then show ?thesis using b' pc net(1) c card others Inl
      by (simp add: keeps_bounds_def holds_rightly_def)
  next
    case (Inr st)
    from net(3) [OF Inr] obtain now where st: "st = (if may_lock ?T ?k ?a False then StatusOK else StatusConflict)"
      and now: "wtbl w' = lock_entry ?T ?k ?a False now" by blast
    show ?thesis
    proof (cases "may_lock ?T ?k ?a False")
      case True
      then have "holder (wtbl w') ?k = Some ?a" by (simp add: now holder_lock_entry)
      then show ?thesis using True b' pc net(1) c card others Inr st
        by (simp add: keeps_bounds_def holds_rightly_def)
    next
      case False
      then have "wtbl w' = ?T" by (simp add: now lock_entry_def)
      then show ?thesis using False b' pc net(1) c Inr st by (simp add: keeps_bounds_def holds_rightly_def)
    qed
  qed
qed

lemma release_contained:
  assumes w: "winv (world b)" and ok: "writer_ok (Writer w pc)" and n: "undisturbed n" and c: "cause b = None"
    and held: "holds_rightly (wtbl (world b)) (Writer w pc)"
    and pc: "pc = ReleaseSent i" and step: "worker_step w (net_send (ctx_error b) send n) t pc b = (pc', b')"
  shows "winv (world b') \<and> keeps_bounds (wtbl (world b)) b (Writer w pc) (wtbl (world b')) b' (Writer w pc')"
proof -
  let ?k = "key_at w i" and ?a = "wk_lockee w" and ?T = "wtbl (world b)"
  have k: "?k \<noteq> []" "?a \<noteq> []" using ok key_at_in [of w i] by auto
  obtain w' res where r: "deleteLock None (net_send (ctx_error b) send n) ?k ?a (world b) = (w', res)" by fastforce
  have b': "b' = b\<lparr>world := w'\<rparr>" "pc' = ReleaseDone i res t" using step pc r by simp_all
  note net = deleteLock_net [OF w k r] and T = table_finite [OF w]
  have T': "wtbl w' = ?T \<or> wtbl w' = release_entry ?T ?k ?a" by (rule net(2))
  have card: "card (dom (wtbl w')) \<le> card (dom ?T)" using T' card_release_entry [OF T, of ?k ?a] by auto
  have others: "\<forall>k h. holder ?T k = Some h \<and> h \<noteq> ?a \<longrightarrow> holder (wtbl w') k = Some h"
    using T' others_keep(2) by auto
  have h: "holder ?T ?k = Some ?a" using held pc by (simp add: holds_rightly_def)
  show ?thesis
  proof (cases res)
    case (Inl e)
    then have "ctx_err b" using net(4) [OF n] by (auto simp: ctx_err_error)
    then show ?thesis using b' pc net(1) c card others Inl by (simp add: keeps_bounds_def holds_rightly_def)
  next
    case (Inr st)
    from net(3) [OF Inr] h have "st = StatusOK" "wtbl w' = release_entry ?T ?k ?a" by (simp_all add: release_status_def)
    moreover from this(2) have "Suc (card (dom (wtbl w'))) = card (dom ?T)" using card_release_held [OF T h] by simp
    ultimately show ?thesis using b' pc net(1) c others Inr by (simp add: keeps_bounds_def holds_rightly_def)
  qed
qed

lemma worker_step_contained:
  assumes w: "winv (world b)" and ok: "writer_ok (Writer w pc)" and n: "undisturbed n" and c: "cause b = None"
    and p: "proper (Writer w pc)" "failing (Writer w pc) \<longrightarrow> ctx_err b" and held: "holds_rightly (wtbl (world b)) (Writer w pc)"
    and step: "worker_step w (net_send (ctx_error b) send n) t pc b = (pc', b')"
  shows "winv (world b') \<and> keeps_bounds (wtbl (world b)) b (Writer w pc) (wtbl (world b')) b' (Writer w pc')"
proof (cases pc)
  case (AcquireSent i)
  then show ?thesis using acquire_contained [OF w ok n c _ step] by blast
next
  case (ReleaseSent i)
  then show ?thesis using release_contained [OF w ok n c held _ step] by blast
qed (use assms in \<open>auto simp: keeps_bounds_def holds_rightly_def ctx_err_error split: if_splits sum.splits\<close>)

lemma reader_step_contained:
  assumes w: "winv (world b)" and n: "undisturbed n" and c: "cause b = None"
    and p: "proper (Reader pc)" "failing (Reader pc) \<longrightarrow> ctx_err b"
    and step: "reader_step (net_send (ctx_error b) send n) t pc b = (pc', b')"
  shows "winv (world b') \<and> keeps_bounds (wtbl (world b)) b (Reader pc) (wtbl (world b')) b' (Reader pc')"
proof (cases pc)
  case RSent
  obtain w' res where r: "client_Do (net_send (ctx_error b) send n) locks_http (world b) = (w', res)" by fastforce
  note net = getLocks_net [OF w r]
  have "b' = b\<lparr>world := w'\<rparr>" "pc' = RDone res t" using step RSent r by simp_all
  then show ?thesis using RSent net(1,2) net(3) [OF n] c
    by (auto simp: keeps_bounds_def holds_rightly_def ctx_err_error)
qed (use assms in \<open>auto simp: keeps_bounds_def holds_rightly_def ctx_err_error split: if_splits sum.splits\<close>)

lemma proc_step_contained:
  assumes "winv (world b)" "writer_ok p" "undisturbed n" "cause b = None" "proper p" "failing p \<longrightarrow> ctx_err b"
    and "holds_rightly (wtbl (world b)) p" "proc_step (net_send (ctx_error b) send n) t p b = (p', b')"
  shows "winv (world b') \<and> keeps_bounds (wtbl (world b)) b p (wtbl (world b')) b' p'"
proof (cases p)
  case (Writer w pc)
  with assms(8) obtain pc' where "worker_step w (net_send (ctx_error b) send n) t pc b = (pc', b')" "p' = Writer w pc'"
    by (auto split: prod.splits)
  with worker_step_contained [of b w pc n t pc' b'] assms Writer show ?thesis by blast
next
  case (Reader pc)
  with assms(8) obtain pc' where "reader_step (net_send (ctx_error b) send n) t pc b = (pc', b')" "p' = Reader pc'"
    by (auto split: prod.splits)
  with reader_step_contained [of b n pc t pc' b'] assms Reader show ?thesis by blast
qed

lemma contained_turn:
  assumes I: "contained wtbl winv E L b ps" and j: "j < length ps" and n: "undisturbed n"
    and step: "proc_step (net_send (ctx_error b) send n) t (ps ! j) b = (p', b')"
  shows "contained wtbl winv E L b' (ps[j := p'])"
proof -
  let ?d = "ctx_err b" and ?T' = "wtbl (world b')"
  have all: "writer_ok p \<and> proper p \<and> (failing p \<longrightarrow> ?d) \<and> holds_rightly (wtbl (world b)) p" if "p \<in> set ps" for p
    using I that by (simp add: contained_def)
  have b: "winv (world b)" "cause b = None" using I by (simp_all add: contained_def)
  have st: "winv (world b')" "keeps_bounds (wtbl (world b)) b (ps ! j) ?T' b' p'"
    using proc_step_contained [OF b(1) _ n b(2) _ _ _ step] all [OF nth_mem [OF j]] by blast+
  have other: "holds_rightly ?T' (ps ! i)" if i: "i < length ps" "i \<noteq> j" for i
    unfolding holds_rightly_def
  proof (intro allI impI)
    fix k h
    assume h: "holding (ps ! i) = Some (k, h)"
    then have lockee: "proc_lockee (ps ! i) = Some h" by (rule holding_lockee)
    have "proc_lockee (ps ! i) = None \<or> proc_lockee (ps ! i) \<noteq> proc_lockee (ps ! j)"
      using I i j by (simp add: contained_def distinct_lockees_def)
    with lockee have "Some h \<noteq> proc_lockee (ps ! j)" by simp
    moreover have "holder (wtbl (world b)) k = Some h" using all [OF nth_mem [OF i(1)]] h by (simp add: holds_rightly_def)
    ultimately show "holder ?T' k = Some h" using st(2) by (simp add: keeps_bounds_def)
  qed
  have "writer_ok q \<and> proper q \<and> (failing q \<longrightarrow> ctx_err b') \<and> holds_rightly ?T' q" if q: "q \<in> set (ps[j := p'])" for q
  proof -
    obtain i where i: "i < length ps" "q = ps[j := p'] ! i" using q by (auto simp: in_set_conv_nth)
    show ?thesis
    proof (cases "i = j")
      case True
      then show ?thesis using i j st proc_step_static [OF step] all [OF nth_mem [OF j]] by (simp add: keeps_bounds_def)
    next
      case False
      then show ?thesis using i st other all [OF nth_mem [OF i(1)]] by (simp add: keeps_bounds_def)
    qed
  qed
  moreover have "distinct_lockees (ps[j := p'])"
    using I proc_step_lockee [OF step] by (simp add: contained_def distinct_lockees_update)
  moreover have "errors b' + sum_list (map (err_credit ?d) (ps[j := p'])) \<le> E"
    and "card (dom ?T') + sum_list (map (lock_credit ?d) (ps[j := p'])) \<le> L"
    using I st(2) sum_list_update_nat [OF j, of "err_credit ?d" p'] sum_list_update_nat [OF j, of "lock_credit ?d" p']
    by (simp_all add: contained_def keeps_bounds_def)
  ultimately show ?thesis using st by (simp add: contained_def keeps_bounds_def)
qed

end

lemma credit_deadline: "err_credit True p \<le> err_credit d p" "lock_credit True p \<le> lock_credit d p"
proof -
  show "err_credit True p \<le> err_credit d p"
  proof (cases p)
    case (Writer w pc)
    then show ?thesis by (cases pc) auto
  next
    case (Reader pc)
    then show ?thesis by (cases pc) auto
  qed
  show "lock_credit True p \<le> lock_credit d p"
  proof (cases p)
    case (Writer w pc)
    then show ?thesis by (cases pc) auto
  qed simp
qed

sublocale spec_service \<subseteq> bounded: phase_invariant send undisturbed "contained wtbl winv E L" for E L
proof unfold_locales
  fix b ps
  assume I: "contained wtbl winv E L b ps"
  have "sum_list (map (err_credit True) ps) \<le> sum_list (map (err_credit (ctx_err b)) ps)"
    and "sum_list (map (lock_credit True) ps) \<le> sum_list (map (lock_credit (ctx_err b)) ps)"
    by (intro sum_list_mono credit_deadline)+
  with I show "contained wtbl winv E L (b\<lparr>timed_out := True\<rparr>) ps" by (auto simp: contained_def)
qed (rule contained_turn)

subsubsection \<open>Starting a phase\<close>

fun proc_worker :: "proc \<Rightarrow> worker option" where
  "proc_worker (Writer w pc) = Some w"
| "proc_worker (Reader pc) = None"

fun starting :: "proc \<Rightarrow> bool" where
  "starting (Writer w pc) \<longleftrightarrow> pc = Select 0"
| "starting (Reader pc) \<longleftrightarrow> pc = RSelect"

lemma proc_step_worker: "proc_step send t p b = (p', b') \<Longrightarrow> proc_worker p' = proc_worker p"
  by (cases p) (auto split: prod.splits)

interpretation roster: phase_invariant send "\<lambda>n. True" "\<lambda>b ps. map proc_worker ps = ws" for send :: "'w sender" and ws
proof unfold_locales
  fix b :: "'w bench" and ps j n t p' b'
  assume "map proc_worker ps = ws" "j < length ps" "proc_step (net_send (ctx_error b) send n) t (ps ! j) b = (p', b')"
  then show "map proc_worker (ps[j := p']) = ws"
    using proc_step_worker [of "net_send (ctx_error b) send n" t "ps ! j" b p' b']
    by (metis length_map list_update_id map_update nth_map)
qed

lemma owns_keys_worker: "proc_worker p = proc_worker q \<Longrightarrow> owns_keys T p = owns_keys T q"
  by (cases p; cases q) simp_all

lemma owns_keys_roster:
  assumes "map proc_worker ps = map proc_worker qs" "\<forall>p \<in> set ps. owns_keys T p"
  shows "\<forall>q \<in> set qs. owns_keys T q"
proof
  fix q
  assume "q \<in> set qs"
  then have "proc_worker q \<in> set (map proc_worker ps)" using assms(1) by simp
  then obtain p where "p \<in> set ps" "proc_worker p = proc_worker q" by auto
  then show "owns_keys T q" using assms(2) owns_keys_worker by blast
qed

lemma starting_simps:
  "starting p \<Longrightarrow> no_conflict p" "starting p \<Longrightarrow> proper p" "starting p \<Longrightarrow> \<not> failing p" "starting p \<Longrightarrow> holding p = None"
  "starting p \<Longrightarrow> err_credit d p \<le> 1" "starting p \<Longrightarrow> lock_credit d p \<le> (if proc_worker p = None then 0 else 1)"
  "starting p \<Longrightarrow> pending p = 0"
  "starting p \<Longrightarrow> has_keys p \<longleftrightarrow> proc_worker p \<noteq> None \<longrightarrow> wk_keys (the (proc_worker p)) \<noteq> []"
  by (cases p; simp)+

end
