(* ===== verification/Bench_Validate.thy ===== *)
theory Bench_Validate
  imports Bench_Client Go_Sharded "HOL-Library.Char_ord" "HOL-Library.List_Lexorder"
begin

text \<open>
  \<^verbatim>\<open>validateSpec\<close> of \<^verbatim>\<open>benchmark/validate.go\<close>: five steps of requests that a service must answer
  as \<^verbatim>\<open>spec.md\<close> says before it is benchmarked. The error values keep what the Go code formats into
  its messages: the step, the call that failed, the statuses expected and received.
\<close>

definition validate_key :: string where
  "validate_key = ''__validate__''"

definition lockeeA :: string where
  "lockeeA = ''lockee-a''"

definition lockeeB :: string where
  "lockeeB = ''lockee-b''"

datatype valid_error =
    CallFailed nat client_error
  | WrongStatus nat nat nat \<comment> \<open>step, expected, got\<close>
  | NotLocked nat
  | SinceChanged string string
  | StillListed

text \<open>Step 1 and its listing, then steps 2 to 5, as the code runs them.\<close>

definition validate_lock :: "'w sender \<Rightarrow> nat \<Rightarrow> string \<Rightarrow> bool \<Rightarrow> ('w, valid_error, unit) io" where
  "validate_lock send n lockee force =
     bind_io (map_err (CallFailed n) (sendLock send validate_key lockee force)) (\<lambda>(status, resp).
     bind_io (check_io (status = StatusOK) (WrongStatus n StatusOK status)) (\<lambda>_.
       check_io (rs_Locked resp) (NotLocked n)))"

text \<open>The end of step 5: any error of \<^verbatim>\<open>findLockSince\<close> counts as the key's absence.\<close>

definition validate_unlisted :: "'w sender \<Rightarrow> ('w, valid_error, unit) io" where
  "validate_unlisted send w =
     (case findLockSince send validate_key w of
        (w', Inr since) \<Rightarrow> (w', Inl StillListed)
      | (w', Inl e) \<Rightarrow> (w', Inr ()))"

definition validateSpec :: "'w sender \<Rightarrow> ('w, valid_error, unit) io" where
  "validateSpec send =
     bind_io (validate_lock send 1 lockeeA False) (\<lambda>_.
     bind_io (map_err (CallFailed 1) (findLockSince send validate_key)) (\<lambda>since1.
     bind_io (validate_lock send 2 lockeeA False) (\<lambda>_.
     bind_io (map_err (CallFailed 2) (findLockSince send validate_key)) (\<lambda>since2.
     bind_io (check_io (since2 = since1) (SinceChanged since1 since2)) (\<lambda>_.
     bind_io (map_err (CallFailed 3) (sendLock send validate_key lockeeB False)) (\<lambda>(status, _).
     bind_io (check_io (status = StatusConflict) (WrongStatus 3 StatusConflict status)) (\<lambda>_.
     bind_io (validate_lock send 4 lockeeB True) (\<lambda>_.
     bind_io (map_err (CallFailed 5) (sendUnlock send validate_key lockeeB)) (\<lambda>status.
     bind_io (check_io (status = StatusOK) (WrongStatus 5 StatusOK status)) (\<lambda>_.
     validate_unlisted send))))))))))"

subsection \<open>Lemmas\<close>

lemma validate_names [simp]: "validate_key \<noteq> []" "lockeeA \<noteq> []" "lockeeB \<noteq> []" "lockeeA \<noteq> lockeeB" "lockeeB \<noteq> lockeeA"
  by (simp_all add: validate_key_def lockeeA_def lockeeB_def)

lemma validate_lock_Inr:
  "validate_lock send n a f w = (w', Inr u) \<longleftrightarrow>
     (\<exists>lr. sendLock send validate_key a f w = (w', Inr (StatusOK, lr)) \<and> rs_Locked lr)"
  by (auto simp: validate_lock_def bind_io_Inr map_err_Inr check_io_Inr)

lemma validate_unlisted_Inr:
  "validate_unlisted send w = (w', Inr u) \<longleftrightarrow> (\<exists>e. findLockSince send validate_key w = (w', Inl e))"
  by (auto simp: validate_unlisted_def split: prod.splits sum.splits)

subsection \<open>What the requests show\<close>

text \<open>
  The replies of a service, seen from outside: a lock request was answered with this status and decoded
  body; a listing was answered and its first entry for the key has this timestamp; and the seven requests
  up to the release went as \<^verbatim>\<open>spec.md\<close> says.
\<close>

definition lock_answer :: "'w sender \<Rightarrow> 'w \<Rightarrow> string \<Rightarrow> string \<Rightarrow> bool \<Rightarrow> 'w \<Rightarrow> nat \<Rightarrow> lockResponse \<Rightarrow> bool" where
  "lock_answer send w k a f w' status lr \<longleftrightarrow>
     (\<exists>p b. send w (lock_http k a f) = (w', Inr p) \<and> reply_Status p = status \<and> reply_Body p = Inr b \<and>
        decode_lockResponse b = Some lr)"

definition granted :: "'w sender \<Rightarrow> 'w \<Rightarrow> string \<Rightarrow> string \<Rightarrow> bool \<Rightarrow> 'w \<Rightarrow> bool" where
  "granted send w k a f w' \<longleftrightarrow> (\<exists>lr. lock_answer send w k a f w' StatusOK lr \<and> rs_Locked lr)"

definition listed_since :: "'w sender \<Rightarrow> 'w \<Rightarrow> string \<Rightarrow> 'w \<Rightarrow> string \<Rightarrow> bool" where
  "listed_since send w k w' since \<longleftrightarrow>
     (\<exists>p b lr e. send w locks_http = (w', Inr p) \<and> reply_Body p = Inr b \<and> decode_locksResponse b = Some lr \<and>
        find (\<lambda>e. en_Key e = k) (ls_Locks lr) = Some e \<and> en_Since e = since)"

definition released :: "'w sender \<Rightarrow> 'w \<Rightarrow> 'w \<Rightarrow> bool" where
  "released send w w7 \<longleftrightarrow>
     (\<exists>w1 w2 w3 w4 w5 w6 since lr p.
        granted send w validate_key lockeeA False w1 \<and> listed_since send w1 validate_key w2 since \<and>
        granted send w2 validate_key lockeeA False w3 \<and> listed_since send w3 validate_key w4 since \<and>
        lock_answer send w4 validate_key lockeeB False w5 StatusConflict lr \<and>
        granted send w5 validate_key lockeeB True w6 \<and>
        send w6 (unlock_http validate_key lockeeB) = (w7, Inr p) \<and> reply_Status p = StatusOK)"

lemma client_Do_Inr: "client_Do send r w = (w', Inr p) \<longleftrightarrow> send w r = (w', Inr p)"
  by (auto simp: client_Do_def split: prod.splits sum.splits)

lemma sendLock_Inr: "sendLock send k a f w = (w', Inr (status, lr)) \<longleftrightarrow> lock_answer send w k a f w' status lr"
  by (cases "send w (lock_http k a f)")
    (auto simp: sendLock_def lock_answer_def bind_io_def client_Do_def readAll_def split: sum.splits option.splits)

lemma find_since_find: "find_since k es = map_option en_Since (find (\<lambda>e. en_Key e = k) es)"
  by (induction es) auto

lemma findLockSince_Inr: "findLockSince send k w = (w', Inr since) \<longleftrightarrow> listed_since send w k w' since"
  by (cases "send w locks_http")
    (auto simp: findLockSince_def listed_since_def find_since_find bind_io_def client_Do_def readAll_def
      split: sum.splits option.splits)

lemma sendUnlock_Inr: "sendUnlock send k a w = (w', Inr status) \<longleftrightarrow>
    (\<exists>p. send w (unlock_http k a) = (w', Inr p) \<and> reply_Status p = status)"
  by (auto simp: sendUnlock_def bind_io_Inr client_Do_Inr)

lemma findLockSince_world: "fst (findLockSince send k w) = fst (send w locks_http)"
  by (auto simp: findLockSince_def bind_io_def client_Do_def readAll_def split: prod.splits sum.splits option.splits)

lemma findLockSince_Inl:
  "(\<exists>e. findLockSince send k w = (w', Inl e)) \<longleftrightarrow> fst (send w locks_http) = w' \<and> (\<nexists>since. listed_since send w k w' since)"
  unfolding findLockSince_Inr [symmetric] findLockSince_world [of send k, symmetric]
  by (cases "findLockSince send k w"; cases "snd (findLockSince send k w)") auto

lemma validateSpec_Inr:
  "validateSpec send w = (w', Inr ()) \<longleftrightarrow>
     (\<exists>w7. released send w w7 \<and> fst (send w7 locks_http) = w' \<and> (\<nexists>since. listed_since send w7 validate_key w' since))"
proof -
  have "validateSpec send w = (w', Inr ()) \<longleftrightarrow> (\<exists>w7. released send w w7 \<and> validate_unlisted send w7 = (w', Inr ()))"
    unfolding validateSpec_def bind_io_Inr map_err_Inr check_io_Inr validate_lock_Inr case_prod_beta released_def
      granted_def findLockSince_Inr sendUnlock_Inr sendLock_Inr [symmetric]
    by (safe; fastforce)
  then show ?thesis unfolding validate_unlisted_Inr findLockSince_Inl .
qed

context spec_service
begin

lemma validate_lock_granted:
  assumes "winv w" "a \<noteq> []" "may_lock (wtbl w) validate_key a f"
  shows "\<exists>w' now. validate_lock send n a f w = (w', Inr ()) \<and> winv w' \<and>
           wtbl w' = lock_entry (wtbl w) validate_key a f now"
  using sendLock_granted [OF assms(1) _ assms(2,3)] by (auto simp: validate_lock_def)

lemma validate_passes:
  assumes w: "winv w" and free: "wtbl w validate_key = None"
  shows "\<exists>w'. validateSpec send w = (w', Inr ()) \<and> winv w' \<and> wtbl w' = wtbl w"
proof -
  let ?k = validate_key
  obtain w1 now where 1: "validate_lock send 1 lockeeA False w = (w1, Inr ())" "winv w1"
    and t1: "wtbl w1 = (wtbl w)(?k \<mapsto> \<lparr>Key = ?k, Lockee = lockeeA, Since = UTC now\<rparr>)"
    using validate_lock_granted [OF w, of lockeeA False 1] free by (auto simp: lock_entry_def holder_def)
  obtain w2 where 2: "findLockSince send ?k w1 = (w2, Inr (formatRFC3339 (UTC now)))" "winv w2"
    and t2: "wtbl w2 = wtbl w1" using findLockSince_held [OF 1(2), of ?k] t1 by auto
  obtain w3 where 3: "validate_lock send 2 lockeeA False w2 = (w3, Inr ())" "winv w3" and t3: "wtbl w3 = wtbl w1"
    using validate_lock_granted [OF 2(2), of lockeeA False 2] t1 t2 by (auto simp: lock_entry_again)
  obtain w4 where 4: "findLockSince send ?k w3 = (w4, Inr (formatRFC3339 (UTC now)))" "winv w4" and t4: "wtbl w4 = wtbl w1"
    using findLockSince_held [OF 3(2), of ?k] t1 t3 by auto
  have "\<not> may_lock (wtbl w4) ?k lockeeB False" by (simp add: t4 t1)
  then obtain w5 lr where 5: "sendLock send ?k lockeeB False w4 = (w5, Inr (StatusConflict, lr))" "winv w5"
    and t5: "wtbl w5 = wtbl w1" using sendLock_refused [OF 4(2), of ?k lockeeB False] t4 by auto
  obtain w6 now' where 6: "validate_lock send 4 lockeeB True w5 = (w6, Inr ())" "winv w6"
    and t6: "wtbl w6 = (wtbl w1)(?k \<mapsto> \<lparr>Key = ?k, Lockee = lockeeB, Since = UTC now'\<rparr>)"
    using validate_lock_granted [OF 5(2), of lockeeB True 4] by (auto simp: lock_entry_def t5 t1)
  have "release_status (wtbl w6) ?k lockeeB = StatusOK" by (simp add: release_status_def t6)
  then obtain w7 where 7: "sendUnlock send ?k lockeeB w6 = (w7, Inr StatusOK)" "winv w7"
    and t7: "wtbl w7 = wtbl w" using sendUnlock_status [OF 6(2), of ?k lockeeB] free
    by (auto simp: release_entry_def t6 t1 fun_upd_idem)
  obtain w8 b where 8: "findLockSince send ?k w7 = (w8, Inl (KeyNotListed ?k StatusOK b))" "winv w8"
    and t8: "wtbl w8 = wtbl w" using findLockSince_free [OF 7(2), of ?k] free t7 by auto
  have "validateSpec send w = (w8, Inr ())"
    by (simp add: validateSpec_def validate_unlisted_def 1 2 3 4 5 6 7 8 del: One_nat_def)
  with 8 t8 show ?thesis by blast
qed

end

text \<open>Both Go servers, reached over the loopback, are services that implement the specification.\<close>

interpretation iml: spec_service "loopback inmemory_serve clock orders" "\<lambda>w. locks (fst w)"
  "loopback_inv store_inv (\<lambda>s ord. range_ok (locks s) ord) orders" for clock orders
  unfolding inmemory_serve_def by (rule lock_store.loopback_implements_spec [OF im.lock_store_axioms])

interpretation shl: spec_service "loopback (sharded_serve Hash) clock orders" "\<lambda>w. sharded_table Hash (fst w)"
  "loopback_inv (sharded_inv Hash) sharded_ord_ok orders" for Hash clock orders
  unfolding sharded_serve_def by (rule lock_store.loopback_implements_spec [OF sh.lock_store_axioms])

text \<open>A service that replays a fixed list of replies.\<close>

fun scripted :: "(go_error + http_reply) list sender" where
  "scripted [] r = ([], Inl [OtherErr ''connection refused''])"
| "scripted (p # ps) r = (ps, p)"

definition granted_reply :: "string \<Rightarrow> http_reply" where
  "granted_reply a = reply_of (writeJSON StatusOK (json_lockOKResp \<lparr>ok_Locked = True, ok_Key = validate_key, ok_Lockee = a\<rparr>))"

definition refused_reply :: http_reply where
  "refused_reply = reply_of (writeJSON StatusConflict
     (json_lockConflictResp \<lparr>cf_Locked = False, cf_Key = validate_key, cf_CurrentLockee = lockeeA\<rparr>))"

definition held_reply :: "time \<Rightarrow> http_reply" where
  "held_reply t = reply_of (listing_response [\<lparr>Key = validate_key, Lockee = lockeeA, Since = t\<rparr>])"

definition lost_listing_script :: "(go_error + http_reply) list" where
  "lost_listing_script =
     [Inr (granted_reply lockeeA), Inr (held_reply (utc 0)), Inr (granted_reply lockeeA), Inr (held_reply (utc 0)),
      Inr refused_reply, Inr (granted_reply lockeeB),
      Inr \<lparr>reply_Status = StatusOK, reply_Body = Inr Empty\<rparr>, Inl [NetErr True]]"

lemma findLockSince_held_reply:
  "send w locks_http = (w', Inr (held_reply t)) \<Longrightarrow> findLockSince send validate_key w = (w', Inr (formatRFC3339 t))"
  by (simp add: findLockSince_def held_reply_def decode_listing entry_of_def)

lemma findLockSince_lost:
  "send w locks_http = (w', Inl e) \<Longrightarrow> findLockSince send k w = (w', Inl (DoErr e))"
  by (simp add: findLockSince_def)

subsection \<open>Properties\<close>

text \<open>C18. The benchmark's specification check accepts the single-map server, whatever locks it holds
  under other keys, whatever the clock shows and in whatever order the server iterates over its map,
  and leaves the locks as it found them.\<close>

theorem inmemory_passes_validation:
  assumes "store_inv s" and "locks s validate_key = None"
    and "orders_ok store_inv (\<lambda>s ord. range_ok (locks s) ord) orders"
  shows "\<exists>w'. validateSpec (loopback inmemory_serve clock orders) (s, n) = (w', Inr ()) \<and>
           store_inv (fst w') \<and> locks (fst w') = locks s"
  using iml.validate_passes [of orders "(s, n)"] assms by (auto simp: loopback_inv_def)

theorem inmemory_passes_validation_witness:
  "\<exists>w'. validateSpec (loopback inmemory_serve utc (\<lambda>_ s. sorted_list_of_set (dom (locks s)))) (newStore, 0) =
     (w', Inr ())"
  using inmemory_passes_validation [OF store_inv_newStore, of "\<lambda>_ s. sorted_list_of_set (dom (locks s))" utc 0]
  by (auto simp: orders_ok_def range_ok_def store_inv_def)

text \<open>C19. The same for the sharded server, for every hash function.\<close>

theorem sharded_passes_validation:
  assumes "sharded_inv Hash s" and "sharded_table Hash s validate_key = None"
    and "orders_ok (sharded_inv Hash) sharded_ord_ok orders"
  shows "\<exists>w'. validateSpec (loopback (sharded_serve Hash) clock orders) (s, n) = (w', Inr ()) \<and>
           sharded_inv Hash (fst w') \<and> sharded_table Hash (fst w') = sharded_table Hash s"
  using shl.validate_passes [of Hash orders "(s, n)"] assms by (auto simp: loopback_inv_def)

theorem sharded_passes_validation_witness:
  "\<exists>w'. validateSpec (loopback (sharded_serve (\<lambda>k. word_of_nat (length k))) utc
       (\<lambda>_ s i. sorted_list_of_set (dom (shard_locks (shards s ! i))))) (sharded_newStore, 0) = (w', Inr ())"
  using sharded_passes_validation [OF sharded_inv_newStore,
      of "\<lambda>k. word_of_nat (length k)" "\<lambda>_ s i. sorted_list_of_set (dom (shard_locks (shards s ! i)))" utc 0]
  by (auto simp: orders_ok_def range_ok_def sharded_ord_ok_def sharded_inv_def sharded_table_newStore)

text \<open>C20. What acceptance means for an arbitrary service: the check accepts exactly when the first
  lockee's two lock requests are granted and the key is listed after each with the same timestamp, the
  second lockee's request is refused with 409, its forced request is granted, its unlock request is
  answered 200, and the last listing does not show the key.\<close>

theorem validation_exact:
  "validateSpec send w = (w', Inr ()) \<longleftrightarrow>
     (\<exists>w1 w2 w3 w4 w5 w6 w7 since lr p.
        granted send w validate_key lockeeA False w1 \<and> listed_since send w1 validate_key w2 since \<and>
        granted send w2 validate_key lockeeA False w3 \<and> listed_since send w3 validate_key w4 since \<and>
        lock_answer send w4 validate_key lockeeB False w5 StatusConflict lr \<and>
        granted send w5 validate_key lockeeB True w6 \<and>
        send w6 (unlock_http validate_key lockeeB) = (w7, Inr p) \<and> reply_Status p = StatusOK \<and>
        fst (send w7 locks_http) = w' \<and> (\<nexists>since. listed_since send w7 validate_key w' since))"
  unfolding validateSpec_Inr released_def by blast

text \<open>C23. The last step does not test what its message says: for every service that has answered as it
  should up to the release, the check accepts when the listing after it cannot be fetched at all, with no
  evidence that the key is gone. The same failure of the first listing is reported.\<close>

theorem validation_accepts_lost_listing:
  assumes "granted send w validate_key lockeeA False w1"
  shows "(\<forall>w7 w8 e. released send w w7 \<and> send w7 locks_http = (w8, Inl e) \<longrightarrow> validateSpec send w = (w8, Inr ())) \<and>
         (\<forall>w2 e. send w1 locks_http = (w2, Inl e) \<longrightarrow> validateSpec send w = (w2, Inl (CallFailed 1 (DoErr e))))"
proof (intro conjI allI impI)
  fix w7 w8 e
  assume "released send w w7 \<and> send w7 locks_http = (w8, Inl e)"
  then show "validateSpec send w = (w8, Inr ())" unfolding validateSpec_Inr by (auto simp: listed_since_def)
next
  fix w2 e
  assume e: "send w1 locks_http = (w2, Inl e)"
  have "validate_lock send 1 lockeeA False w = (w1, Inr ())"
    using assms unfolding validate_lock_Inr sendLock_Inr granted_def .
  then show "validateSpec send w = (w2, Inl (CallFailed 1 (DoErr e)))"
    using findLockSince_lost [where send = send and w = w1 and w' = w2 and e = e] e
    by (simp add: validateSpec_def del: One_nat_def)
qed

theorem validation_accepts_lost_listing_witness:
  "validateSpec scripted lost_listing_script = ([], Inr ()) \<and>
   validateSpec scripted [Inr (granted_reply lockeeA), Inl [NetErr True]] = ([], Inl (CallFailed 1 (DoErr [NetErr True])))"
proof
  let ?s = "lost_listing_script"
  have g: "granted scripted (Inr (granted_reply a) # ps) validate_key a f ps" for a f ps
    by (auto simp: granted_def lock_answer_def granted_reply_def reply_of_def http_simps)
  have l: "listed_since scripted (Inr (held_reply t) # ps) validate_key ps (formatRFC3339 t)" for t ps
    unfolding findLockSince_Inr [symmetric] by (rule findLockSince_held_reply) simp
  obtain lr where c: "lock_answer scripted (Inr refused_reply # ps) validate_key lockeeB False ps StatusConflict lr" for ps
    by (auto simp: lock_answer_def refused_reply_def reply_of_def http_simps)
  have rel: "released scripted ?s [Inl [NetErr True]]"
    unfolding released_def lost_listing_script_def
    by (intro exI conjI, rule g, rule l, rule g, rule l, rule c, rule g, rule scripted.simps(2)) simp
  have "granted scripted ?s validate_key lockeeA False (tl ?s)" unfolding lost_listing_script_def list.sel by (rule g)
  then show "validateSpec scripted ?s = ([], Inr ())"
    by (rule validation_accepts_lost_listing [THEN conjunct1, rule_format, OF _ conjI [OF rel]]) simp
  show "validateSpec scripted [Inr (granted_reply lockeeA), Inl [NetErr True]] = ([], Inl (CallFailed 1 (DoErr [NetErr True])))"
    by (rule validation_accepts_lost_listing [OF g, THEN conjunct2, rule_format]) simp
qed

end
