(* ===== verification/Bench_Scenario.thy ===== *)
theory Bench_Scenario
  imports Bench_Worker Bench_Validate
begin

text \<open>
  The scenarios of \<^verbatim>\<open>benchmark/scenarios.go\<close> and the result types of \<^verbatim>\<open>benchmark/types.go\<close>: the keys
  each worker gets, the warmup and measurement phases, the metrics computed from the shared
  counters, and the check for leaked locks.

  \<^verbatim>\<open>runScenario\<close> and \<^verbatim>\<open>runListHeavy\<close> are the same code but for the goroutines they start, so both are
  \<open>run_load\<close> on their list of goroutines. What the outside world decides during a run is the record
  \<open>load_env\<close>: the events of the two phases, the measured duration in nanoseconds and the fate of the
  final listing. Numbers of workers and keys are natural numbers: they are positive constants in
  the source.
\<close>

subsection \<open>Configurations and keys\<close>

record scenarioCfg =
  cfg_ID :: string
  cfg_Concurrency :: nat
  cfg_KeyPoolSize :: nat
  cfg_Duration :: int
  cfg_Warmup :: int
  cfg_PartitionKeys :: bool

definition defaultScenarios :: "scenarioCfg list" where
  "defaultScenarios =
     [\<lparr>cfg_ID = ''sequential'', cfg_Concurrency = 1, cfg_KeyPoolSize = 1000, cfg_Duration = 0, cfg_Warmup = 0,
       cfg_PartitionKeys = True\<rparr>,
      \<lparr>cfg_ID = ''low_concurrency'', cfg_Concurrency = 10, cfg_KeyPoolSize = 1000, cfg_Duration = 0, cfg_Warmup = 0,
       cfg_PartitionKeys = True\<rparr>,
      \<lparr>cfg_ID = ''high_concurrency'', cfg_Concurrency = 100, cfg_KeyPoolSize = 10000, cfg_Duration = 0, cfg_Warmup = 0,
       cfg_PartitionKeys = True\<rparr>,
      \<lparr>cfg_ID = ''contention'', cfg_Concurrency = 50, cfg_KeyPoolSize = 5, cfg_Duration = 0, cfg_Warmup = 0,
       cfg_PartitionKeys = False\<rparr>]"

definition key_name :: "nat \<Rightarrow> string" where
  "key_name n = ''key-'' @ itoa n"

definition makeKeys :: "nat \<Rightarrow> nat \<Rightarrow> nat \<Rightarrow> string list" where
  "makeKeys workerID poolSize totalWorkers =
     (let q = poolSize div totalWorkers;
          perWorker = (if q < 1 then 1 else q);
          offset = workerID * perWorker
      in map (\<lambda>i. key_name (offset + i)) [0..<perWorker])"

definition buildWorker :: "scenarioCfg \<Rightarrow> nat \<Rightarrow> worker" where
  "buildWorker cfg n =
     \<lparr>wk_id = n,
      wk_keys = (if cfg_PartitionKeys cfg
                 then let q = cfg_KeyPoolSize cfg div cfg_Concurrency cfg;
                          perWorker = (if q < 1 then 1 else q);
                          offset = n * perWorker
                      in map (\<lambda>j. key_name (offset + j)) [0..<perWorker]
                 else map key_name [0..<cfg_KeyPoolSize cfg]),
      wk_lockee = ''worker-'' @ itoa n\<rparr>"

definition scenario_procs :: "scenarioCfg \<Rightarrow> proc list" where
  "scenario_procs cfg = map (\<lambda>i. Writer (buildWorker cfg i) (Select 0)) [0..<cfg_Concurrency cfg]"

definition list_heavy_procs :: "proc list" where
  "list_heavy_procs =
     map (\<lambda>i. Writer \<lparr>wk_id = i, wk_keys = makeKeys i 1000 20, wk_lockee = ''writer-'' @ itoa i\<rparr> (Select 0)) [0..<20]
     @ replicate 5 (Reader RSelect)"

subsection \<open>Results\<close>

record ScenarioResult =
  res_ScenarioID :: string
  res_RequestsTotal :: nat
  res_DurationMs :: int
  res_RPS :: float64
  res_P50Ms :: float64
  res_P95Ms :: float64
  res_P99Ms :: float64
  res_MaxMs :: float64
  res_ErrorRate :: float64
  res_ConflictRate :: float64
  res_LeakedLocks :: int

definition zero_result :: "string \<Rightarrow> ScenarioResult" where
  "zero_result i =
     \<lparr>res_ScenarioID = i, res_RequestsTotal = 0, res_DurationMs = 0, res_RPS = 0, res_P50Ms = 0, res_P95Ms = 0,
      res_P99Ms = 0, res_MaxMs = 0, res_ErrorRate = 0, res_ConflictRate = 0, res_LeakedLocks = 0\<rparr>"

text \<open>\<^verbatim>\<open>Duration.Seconds\<close> and \<^verbatim>\<open>Duration.Milliseconds\<close>.\<close>

definition duration_Seconds :: "nat \<Rightarrow> float64" where
  "duration_Seconds d =
     f64_add (f64_of_int (int (d div 1000000000))) (f64_div (f64_of_int (int (d mod 1000000000))) 1000000000)"

definition duration_Milliseconds :: "nat \<Rightarrow> int" where
  "duration_Milliseconds d = int (d div 1000000)"

definition rate :: "nat \<Rightarrow> nat \<Rightarrow> float64" where
  "rate n m = (if m > 0 then f64_div (f64_of_int (int n)) (f64_of_int (int m)) else 0)"

text \<open>The metrics; \<^const>\<open>None\<close> when a percentile panics.\<close>

definition scenario_result :: "string \<Rightarrow> nat \<Rightarrow> int \<Rightarrow> 'w bench \<Rightarrow> ScenarioResult option" where
  "scenario_result i elapsed leakedLocks b =
     (let samples = latencies b;
          rps = (if duration_Seconds elapsed > 0
                 then f64_div (f64_of_int (int (total b))) (duration_Seconds elapsed) else 0)
      in case (percentileMs samples 50, percentileMs samples 95, percentileMs samples 99) of
           (Some p50, Some p95, Some p99) \<Rightarrow>
             Some \<lparr>res_ScenarioID = i, res_RequestsTotal = total b, res_DurationMs = duration_Milliseconds elapsed,
                   res_RPS = rps, res_P50Ms = p50, res_P95Ms = p95, res_P99Ms = p99, res_MaxMs = maxMs samples,
                   res_ErrorRate = rate (errors b) (total b), res_ConflictRate = rate (conflicts b) (total b),
                   res_LeakedLocks = leakedLocks\<rparr>
         | _ \<Rightarrow> None)"

subsection \<open>Running a scenario\<close>

record load_env =
  warm_events :: "event list"
  measure_events :: "event list"
  measured_ns :: nat
  leak_net :: net

datatype 'w outcome =
    Returns ScenarioResult "abort_cause option" 'w
  | Crashes
  | StillRunning

definition new_bench :: "'w \<Rightarrow> 'w bench" where
  "new_bench w = \<lparr>world = w, total = 0, errors = 0, conflicts = 0, latencies = [], timed_out = False, cause = None\<rparr>"

text \<open>After the warmup the counters are set to zero and the channel is drained; all senders have returned.\<close>

definition discard_metrics :: "'w bench \<Rightarrow> 'w bench" where
  "discard_metrics b = b\<lparr>errors := 0, conflicts := 0, total := 0, latencies := []\<rparr>"

definition measure_load :: "'w sender \<Rightarrow> string \<Rightarrow> proc list \<Rightarrow> load_env \<Rightarrow> 'w bench \<Rightarrow> 'w outcome" where
  "measure_load send i procs env b =
     (case runPhase send procs (measure_events env) b of
        PhaseAborted c b' \<Rightarrow> Returns (zero_result i) (Some c) (world b')
      | PhasePanic \<Rightarrow> Crashes
      | PhaseRunning \<Rightarrow> StillRunning
      | PhaseDone b' \<Rightarrow>
          (let (w', leakedLocks) = checkLeakedLocks (net_send None send (leak_net env)) (world b')
           in case scenario_result i (measured_ns env) leakedLocks b' of
                None \<Rightarrow> Crashes
              | Some r \<Rightarrow> Returns r None w'))"

definition run_load :: "'w sender \<Rightarrow> string \<Rightarrow> proc list \<Rightarrow> int \<Rightarrow> load_env \<Rightarrow> 'w \<Rightarrow> 'w outcome" where
  "run_load send i procs warmup env w =
     (if warmup > 0
      then (case runPhase send procs (warm_events env) (new_bench w) of
              PhaseAborted c b \<Rightarrow> Returns (zero_result i) (Some c) (world b)
            | PhasePanic \<Rightarrow> Crashes
            | PhaseRunning \<Rightarrow> StillRunning
            | PhaseDone b \<Rightarrow> measure_load send i procs env (discard_metrics b))
      else measure_load send i procs env (new_bench w))"

definition runScenario :: "'w sender \<Rightarrow> scenarioCfg \<Rightarrow> load_env \<Rightarrow> 'w \<Rightarrow> 'w outcome" where
  "runScenario send cfg = run_load send (cfg_ID cfg) (scenario_procs cfg) (cfg_Warmup cfg)"

definition runListHeavy :: "'w sender \<Rightarrow> int \<Rightarrow> load_env \<Rightarrow> 'w \<Rightarrow> 'w outcome" where
  "runListHeavy send warmup = run_load send ''list_heavy'' list_heavy_procs warmup"

subsection \<open>Keys\<close>

lemma key_name_inject [simp]: "key_name m = key_name n \<longleftrightarrow> m = n"
  by (simp add: key_name_def)

lemma key_name_nonempty [simp]: "key_name n \<noteq> []" "[] \<noteq> key_name n"
  by (simp_all add: key_name_def)

lemma makeKeys_eq: "makeKeys i pool n = map key_name [i * max 1 (pool div n)..<(i + 1) * max 1 (pool div n)]"
proof -
  have "map (\<lambda>j. key_name (i * q + j)) [0..<q] = map key_name [i * q..<(i + 1) * q]" for q
    by (rule nth_equalityI) simp_all
  moreover have "(if pool div n < 1 then 1 else pool div n) = max 1 (pool div n)" by simp
  ultimately show ?thesis unfolding makeKeys_def Let_def by presburger
qed

lemma buildWorker_partitioned: "cfg_PartitionKeys cfg \<Longrightarrow>
    wk_keys (buildWorker cfg i) = makeKeys i (cfg_KeyPoolSize cfg) (cfg_Concurrency cfg)"
  by (simp add: buildWorker_def makeKeys_def)

lemma set_makeKeys: "set (makeKeys i pool n) = key_name ` {i * max 1 (pool div n)..<(i + 1) * max 1 (pool div n)}"
  by (simp add: makeKeys_eq)

lemma intervals_disjoint:
  fixes q :: nat
  assumes "i \<noteq> j"
  shows "{i * q..<(i + 1) * q} \<inter> {j * q..<(j + 1) * q} = {}"
proof -
  have "(i + 1) * q \<le> j * q \<or> (j + 1) * q \<le> i * q" using assms by (metis Suc_eq_plus1 mult_le_mono1 not_less_eq_eq order_antisym)
  then show ?thesis by fastforce
qed

lemma makeKeys_disjoint: "i \<noteq> j \<Longrightarrow> set (makeKeys i pool n) \<inter> set (makeKeys j pool n) = {}"
  using intervals_disjoint [of i j "max 1 (pool div n)"]
  unfolding set_makeKeys by (subst image_Int [symmetric]) (auto intro: injI)

lemma makeKeys_ok [simp]: "makeKeys i pool n \<noteq> []" "[] \<notin> set (makeKeys i pool n)" "distinct (makeKeys i pool n)"
  by (simp_all add: makeKeys_eq distinct_map inj_on_def max_def) auto

subsection \<open>The goroutines of the scenarios\<close>

definition load_ok :: "proc list \<Rightarrow> bool" where
  "load_ok procs \<longleftrightarrow> list_all starting procs \<and> list_all writer_ok procs \<and> distinct_lockees procs"

lemma scenario_procs_ok:
  assumes "cfg_PartitionKeys cfg \<or> 0 < cfg_KeyPoolSize cfg"
  shows "load_ok (scenario_procs cfg)"
proof -
  have "writer_ok (Writer (buildWorker cfg i) (Select 0))" for i
  proof (cases "cfg_PartitionKeys cfg")
    case True
    then show ?thesis by (simp add: buildWorker_partitioned) (simp add: buildWorker_def)
  next
    case False
    with assms show ?thesis by (auto simp: buildWorker_def)
  qed
  then show ?thesis
    by (auto simp: load_ok_def scenario_procs_def list_all_length distinct_lockees_def buildWorker_def)
qed

lemma scenario_procs_partitioned: "cfg_PartitionKeys cfg \<Longrightarrow> partitioned (scenario_procs cfg)"
  by (auto simp: partitioned_def scenario_procs_def buildWorker_partitioned dest: makeKeys_disjoint)

lemma list_heavy_nth:
  "j < 20 \<Longrightarrow> list_heavy_procs ! j =
     Writer \<lparr>wk_id = j, wk_keys = makeKeys j 1000 20, wk_lockee = ''writer-'' @ itoa j\<rparr> (Select 0)"
  "20 \<le> j \<Longrightarrow> j < 25 \<Longrightarrow> list_heavy_procs ! j = Reader RSelect"
  by (simp_all add: list_heavy_procs_def nth_append)

lemma list_heavy_length [simp]: "length list_heavy_procs = 25"
  by (simp add: list_heavy_procs_def)

lemma list_heavy_ok: "load_ok list_heavy_procs"
proof -
  have "list_all starting list_heavy_procs" "list_all writer_ok list_heavy_procs"
    by (auto simp: list_heavy_procs_def list_all_iff)
  moreover have "proc_lockee (list_heavy_procs ! i) = None \<or>
      proc_lockee (list_heavy_procs ! i) \<noteq> proc_lockee (list_heavy_procs ! j)"
    if "i < 25" "j < 25" "i \<noteq> j" for i j
    using that by (cases "i < 20"; cases "j < 20") (simp_all add: list_heavy_nth)
  ultimately show ?thesis by (simp add: load_ok_def distinct_lockees_def)
qed

lemma list_heavy_partitioned: "partitioned list_heavy_procs"
proof -
  have "proc_keys (list_heavy_procs ! i) \<inter> proc_keys (list_heavy_procs ! j) = {}"
    if "i < 25" "j < 25" "i \<noteq> j" for i j
    using that makeKeys_disjoint [of i j 1000 20] by (cases "i < 20"; cases "j < 20") (simp_all add: list_heavy_nth)
  then show ?thesis by (simp add: partitioned_def)
qed

subsection \<open>Lemmas on runs\<close>

lemma run_load_Returns:
  assumes "run_load send i procs warmup env w = Returns r None w'"
  obtains b b' l where "runPhase send procs (measure_events env) b = PhaseDone b'"
    "checkLeakedLocks (net_send None send (leak_net env)) (world b') = (w', l)"
    "scenario_result i (measured_ns env) l b' = Some r"
    "b = new_bench w \<or>
       (\<exists>b0. runPhase send procs (warm_events env) (new_bench w) = PhaseDone b0 \<and> b = discard_metrics b0)"
  using assms unfolding run_load_def measure_load_def
  by (auto split: if_splits phase_result.splits prod.splits option.splits)

lemma zero_metrics:
  "total (new_bench w) = 0" "errors (new_bench w) = 0" "conflicts (new_bench w) = 0" "latencies (new_bench w) = []"
  "cause (new_bench w) = None" "world (new_bench w) = w"
  "total (discard_metrics b) = 0" "errors (discard_metrics b) = 0" "conflicts (discard_metrics b) = 0"
  "latencies (discard_metrics b) = []" "cause (discard_metrics b) = cause b" "world (discard_metrics b) = world b"
  by (simp_all add: new_bench_def discard_metrics_def)

lemma sum_pending_starting: "list_all starting procs \<Longrightarrow> sum_list (map pending procs) = 0"
  by (auto simp: list_all_iff starting_simps)

definition zeroed :: "'w bench \<Rightarrow> bool" where
  "zeroed b \<longleftrightarrow> total b = 0 \<and> errors b = 0 \<and> conflicts b = 0 \<and> latencies b = []"

lemma zeroed_simps [simp]: "zeroed (new_bench w)" "zeroed (discard_metrics b)"
  by (simp_all add: zeroed_def zero_metrics)

lemma counts_ok_start: "list_all starting procs \<Longrightarrow> zeroed b \<Longrightarrow> counts_ok (b\<lparr>timed_out := False\<rparr>) procs"
  by (auto simp: counts_ok_def samples_ok_def sum_pending_starting zeroed_def)

lemma rate_bounds: "n \<le> m \<Longrightarrow> 0 \<le> rate n m \<and> rate n m \<le> 1"
proof (cases "m = 0")
  case False
  assume "n \<le> m"
  then have nm: "f64_of_int (int n) \<le> f64_of_int (int m)" unfolding f64_of_int_def by (intro f64.rnd_mono) simp
  have n0: "0 \<le> f64_of_int (int n)" unfolding f64_of_int_def by (intro f64.rnd_nonneg) simp
  have "(1 :: rat) = rnd64 (of_int 1)" using f64.rnd_int [of 1] by simp
  also have "\<dots> \<le> f64_of_int (int m)" unfolding f64_of_int_def using False by (intro f64.rnd_mono) simp
  finally have m1: "1 \<le> f64_of_int (int m)" .
  have "f64_of_int (int n) / f64_of_int (int m) \<le> of_int 1" using nm m1 by simp
  then have "rnd64 (f64_of_int (int n) / f64_of_int (int m)) \<le> of_int 1" by (rule f64.rnd_le_int) simp
  moreover have "0 \<le> rnd64 (f64_of_int (int n) / f64_of_int (int m))"
    using n0 m1 by (intro f64.rnd_nonneg divide_nonneg_nonneg) simp_all
  ultimately show ?thesis using False by (simp add: rate_def f64_div_def)
qed (simp add: rate_def)

definition sane_result :: "ScenarioResult \<Rightarrow> bool" where
  "sane_result r \<longleftrightarrow>
     0 \<le> res_ErrorRate r \<and> res_ErrorRate r \<le> 1 \<and> 0 \<le> res_ConflictRate r \<and> res_ConflictRate r \<le> 1 \<and>
     0 \<le> res_P50Ms r \<and> res_P50Ms r \<le> res_P95Ms r \<and> res_P95Ms r \<le> res_P99Ms r \<and> res_P99Ms r \<le> res_MaxMs r \<and>
     0 \<le> res_RPS r \<and> 0 \<le> res_DurationMs r"

lemma duration_nonneg: "0 \<le> duration_Seconds d"
  unfolding duration_Seconds_def f64_add_def f64_div_def f64_of_int_def
  by (intro f64.rnd_nonneg add_nonneg_nonneg divide_nonneg_nonneg) simp_all

lemma scenario_result_ok:
  assumes "samples_ok b"
  obtains p50 p95 p99 r where "scenario_result i d l b = Some r" "res_P50Ms r = p50" "res_P95Ms r = p95" "res_P99Ms r = p99"
    "0 \<le> p50" "p50 \<le> p95" "p95 \<le> p99" "p99 \<le> maxMs (latencies b)"
proof -
  have "length (latencies b) \<le> 2 ^ 39"
    using assms by (simp add: samples_ok_def latency_cap_def)
  then show ?thesis
    using percentiles_sorted [of "latencies b"] assms that by (auto simp: samples_ok_def scenario_result_def Let_def)
qed

lemma scenario_result_fields:
  assumes "scenario_result i d l b = Some r"
  shows "res_ErrorRate r = rate (errors b) (total b)" "res_ConflictRate r = rate (conflicts b) (total b)"
    "res_MaxMs r = maxMs (latencies b)" "res_LeakedLocks r = l" "res_DurationMs r = duration_Milliseconds d"
    "res_ScenarioID r = i" "res_RequestsTotal r = total b"
    "res_RPS r = (if duration_Seconds d > 0 then f64_div (f64_of_int (int (total b))) (duration_Seconds d) else 0)"
  using assms by (auto simp: scenario_result_def Let_def split: option.splits)

lemma rps_nonneg: "scenario_result i d l b = Some r \<Longrightarrow> 0 \<le> res_RPS r"
  using duration_nonneg [of d]
  by (auto simp: scenario_result_fields f64_div_def f64_of_int_def intro!: f64.rnd_nonneg divide_nonneg_nonneg)

lemma counts_ok_sane:
  assumes "counts_ok b ps" "scenario_result i d l b = Some r"
  shows "sane_result r"
proof -
  have "samples_ok b" "errors b \<le> total b" "conflicts b \<le> total b" using assms(1) by (simp_all add: counts_ok_def)
  then show ?thesis
    using scenario_result_ok [of b i d l] scenario_result_fields [OF assms(2)] rps_nonneg [OF assms(2)] assms(2)
      rate_bounds [of "errors b" "total b"] rate_bounds [of "conflicts b" "total b"]
    by (fastforce simp: sane_result_def duration_Milliseconds_def)
qed

lemma run_load_sane:
  assumes "list_all starting procs" "run_load send i procs warmup env w = Returns r None w'"
  shows "sane_result r \<and> res_ScenarioID r = i"
proof -
  obtain b b' l where run: "runPhase send procs (measure_events env) b = PhaseDone b'"
    "scenario_result i (measured_ns env) l b' = Some r"
    and b: "zeroed b"
    by (rule run_load_Returns [OF assms(2)]) auto
  have "counts_ok (b\<lparr>timed_out := False\<rparr>) procs" by (rule counts_ok_start [OF assms(1) b])
  then obtain ps' where "counts_ok b' ps'" by (rule counting.done_keeps [OF run(1)]) simp_all
  then show ?thesis using counts_ok_sane run(2) scenario_result_fields(6) [OF run(2)] by blast
qed

subsubsection \<open>A fair run returns\<close>

text \<open>A phase whose deadline passes and whose goroutines are all scheduled afterwards.\<close>

definition fair_phase :: "nat \<Rightarrow> event list \<Rightarrow> bool" where
  "fair_phase n evs \<longleftrightarrow> (\<exists>evs1 evs2. evs = evs1 @ Deadline # evs2 \<and> (\<forall>j < n. 8 \<le> turns j evs2))"

lemma load_ok_has_keys: "load_ok procs \<Longrightarrow> list_all has_keys procs"
  unfolding load_ok_def list_all_iff
proof (intro ballI, elim conjE)
  fix p
  assume "p \<in> set procs" "\<forall>p \<in> set procs. starting p" "\<forall>p \<in> set procs. writer_ok p"
  then have "starting p" "writer_ok p" by blast+
  then show "has_keys p" by (induction p) auto
qed

lemma runPhase_returns:
  assumes "load_ok procs" "fair_phase (length procs) evs"
  shows "(\<exists>b'. runPhase send procs evs b = PhaseDone b') \<or> (\<exists>c b'. runPhase send procs evs b = PhaseAborted c b')"
proof -
  obtain evs1 evs2 where evs: "evs = evs1 @ Deadline # evs2" "\<forall>j < length procs. 8 \<le> turns j evs2"
    using assms(2) by (auto simp: fair_phase_def)
  obtain b' ps' where run: "phase_run send evs (b\<lparr>timed_out := False\<rparr>, procs) = (b', ps')" by fastforce
  show ?thesis
    using phase_run_returns [OF load_ok_has_keys [OF assms(1)] run [unfolded evs(1)] evs(2)] run
    by (auto simp: runPhase_def split: option.splits)
qed

lemma done_samples_ok:
  assumes "list_all starting procs" "runPhase send procs evs b = PhaseDone b'" "zeroed b"
  shows "samples_ok b'"
  using counting.done_keeps [OF assms(2) counts_ok_start [OF assms(1,3)]] by (auto simp: counts_ok_def)

lemma run_load_returns:
  assumes ok: "load_ok procs" and fair: "fair_phase (length procs) (warm_events env)" "fair_phase (length procs) (measure_events env)"
  shows "\<exists>r c w'. run_load send i procs warmup env w = Returns r c w'"
proof -
  have st: "list_all starting procs" using ok by (simp add: load_ok_def)
  have measure: "\<exists>r c w'. measure_load send i procs env b = Returns r c w'"
    if b: "zeroed b" for b
  proof (cases "\<exists>b'. runPhase send procs (measure_events env) b = PhaseDone b'")
    case True
    then obtain b' where b': "runPhase send procs (measure_events env) b = PhaseDone b'" by blast
    obtain w' l where l: "checkLeakedLocks (net_send None send (leak_net env)) (world b') = (w', l)" by fastforce
    obtain r where "scenario_result i (measured_ns env) l b' = Some r"
      using scenario_result_ok [OF done_samples_ok [OF st b' b]] by metis
    with b' l show ?thesis by (simp add: measure_load_def)
  next
    case False
    with runPhase_returns [OF ok fair(2), of send b] show ?thesis by (auto simp: measure_load_def)
  qed
  from measure runPhase_returns [OF ok fair(1), of send "new_bench w"]
  show ?thesis by (auto simp: run_load_def)
qed

text \<open>A run whose requests fail only because their phase ends, and whose final listing arrives.\<close>

definition undisturbed_env :: "nat \<Rightarrow> load_env \<Rightarrow> bool" where
  "undisturbed_env n env \<longleftrightarrow> leak_net env = Delivered \<and> fair_phase n (warm_events env) \<and> fair_phase n (measure_events env) \<and>
     list_all (event_ok undisturbed) (warm_events env @ measure_events env)"

definition writers :: "proc list \<Rightarrow> nat" where
  "writers ps = length (filter (\<lambda>p. proc_worker p \<noteq> None) ps)"

lemma start_credits:
  "list_all starting ps \<Longrightarrow> sum_list (map (err_credit d) ps) \<le> length ps"
  "list_all starting ps \<Longrightarrow> sum_list (map (lock_credit d) ps) \<le> writers ps"
proof (induction ps)
  case (Cons p ps)
  {
    case 1
    with Cons.IH(1) starting_simps(5) [of p d] show ?case by simp
  next
    case 2
    with Cons.IH(2) starting_simps(6) [of p d] show ?case by (auto simp: writers_def split: if_splits)
  }
qed simp_all

lemma net_send_None [simp]: "net_send None send Delivered = send"
  by (intro ext) (simp add: net_send_def)

subsubsection \<open>Runs against a service that implements the specification\<close>

context spec_service
begin

lemma owned_start:
  assumes "load_ok procs" "partitioned procs" "winv (world b)" "\<forall>p \<in> set procs. owns_keys (wtbl (world b)) p" "zeroed b"
  shows "owned wtbl winv (b\<lparr>timed_out := False\<rparr>) procs"
  using assms by (auto simp: owned_def load_ok_def list_all_iff zeroed_def starting_simps)

lemma owned_done:
  assumes "owned wtbl winv (b\<lparr>timed_out := False\<rparr>) procs" "runPhase send procs evs b = PhaseDone b'"
  shows "winv (world b') \<and> conflicts b' = 0 \<and> (\<forall>p \<in> set procs. owns_keys (wtbl (world b')) p)"
proof -
  obtain ps' where run: "phase_run send evs (b\<lparr>timed_out := False\<rparr>, procs) = (b', ps')" "owned wtbl winv b' ps'"
    by (rule own.done_keeps [OF assms(2,1)], simp, blast)
  have "map proc_worker ps' = map proc_worker procs"
    by (rule roster.run_keeps [OF _ _ run(1)]) simp_all
  then have "\<forall>p \<in> set procs. owns_keys (wtbl (world b')) p"
    by (rule owns_keys_roster) (use run(2) in \<open>simp add: owned_def\<close>)
  then show ?thesis using run(2) by (simp add: owned_def)
qed

lemma load_no_conflict:
  assumes ok: "load_ok procs" "partitioned procs" and w: "winv w" "\<forall>p \<in> set procs. owns_keys (wtbl w) p"
    and run: "run_load send i procs warmup env w = Returns r None w'"
  shows "res_ConflictRate r = 0"
proof -
  note start = owned_start [OF ok]
  obtain b b' l where b: "runPhase send procs (measure_events env) b = PhaseDone b'"
    "scenario_result i (measured_ns env) l b' = Some r"
    and from_warmup: "b = new_bench w \<or>
       (\<exists>b0. runPhase send procs (warm_events env) (new_bench w) = PhaseDone b0 \<and> b = discard_metrics b0)"
    by (rule run_load_Returns [OF run]) blast
  have "owned wtbl winv (new_bench w\<lparr>timed_out := False\<rparr>) procs" by (rule start) (simp_all add: w zero_metrics)
  from owned_done [OF this] from_warmup
  have "winv (world b) \<and> (\<forall>p \<in> set procs. owns_keys (wtbl (world b)) p) \<and> zeroed b"
    using w by (auto simp: zero_metrics)
  then have "owned wtbl winv (b\<lparr>timed_out := False\<rparr>) procs" by (intro start) simp_all
  from owned_done [OF this b(1)] show ?thesis
    by (simp add: scenario_result_fields [OF b(2)] rate_def f64_div_def f64_of_int_def)
qed

lemma contained_start:
  assumes "load_ok procs" "winv (world b)" "zeroed b" "cause b = None"
  shows "contained wtbl winv (length procs) (card (dom (wtbl (world b))) + writers procs) (b\<lparr>timed_out := False\<rparr>) procs"
proof -
  have "starting p \<and> writer_ok p" if "p \<in> set procs" for p using that assms(1) by (simp add: load_ok_def list_all_iff)
  moreover have "sum_list (map (err_credit d) procs) \<le> length procs"
    and "sum_list (map (lock_credit d) procs) \<le> writers procs" for d
    using assms(1) by (auto simp: load_ok_def intro: start_credits)
  ultimately show ?thesis
    using assms by (auto simp: contained_def load_ok_def zeroed_def starting_simps holds_rightly_def)
qed

text \<open>A fair phase in which requests fail only because it ends.\<close>

lemma contained_done:
  assumes ok: "load_ok procs" and fair: "fair_phase (length procs) evs" and ev: "list_all (event_ok undisturbed) evs"
    and b: "winv (world b)" "zeroed b" "cause b = None"
  obtains b' where "runPhase send procs evs b = PhaseDone b'" "winv (world b')" "cause b' = None"
    "errors b' \<le> length procs" "card (dom (wtbl (world b'))) \<le> card (dom (wtbl (world b))) + writers procs"
proof -
  let ?L = "card (dom (wtbl (world b))) + writers procs"
  note start = contained_start [OF ok b]
  obtain b1 ps1 where run: "phase_run send evs (b\<lparr>timed_out := False\<rparr>, procs) = (b1, ps1)" by fastforce
  have inv: "contained wtbl winv (length procs) ?L b1 ps1" by (rule bounded.run_keeps [OF start ev run])
  then have "cause b1 = None" by (simp add: contained_def)
  then obtain b' where b': "runPhase send procs evs b = PhaseDone b'"
    using runPhase_returns [OF ok fair, of send b] run by (auto simp: runPhase_def split: if_splits)
  obtain ps' where ps': "contained wtbl winv (length procs) ?L b' ps'"
    by (rule bounded.done_keeps [OF b' start ev]) blast
  then have "errors b' \<le> length procs" "card (dom (wtbl (world b'))) \<le> ?L" "winv (world b')" "cause b' = None"
    by (simp_all add: contained_def)
  with that b' show ?thesis by blast
qed

lemma load_bounded:
  assumes ok: "load_ok procs" and w: "winv w" and env: "undisturbed_env (length procs) env"
  shows "\<exists>r w' e. run_load send i procs warmup env w = Returns r None w' \<and> winv w' \<and>
           card (dom (wtbl w')) \<le> card (dom (wtbl w)) + 2 * writers procs \<and>
           res_LeakedLocks r = int (card (dom (wtbl w'))) \<and>
           e \<le> length procs \<and> res_ErrorRate r = rate e (res_RequestsTotal r)"
proof -
  have st: "list_all starting procs" using ok by (simp add: load_ok_def)
  have measure: "\<exists>r w' e. measure_load send i procs env b = Returns r None w' \<and> winv w' \<and>
      card (dom (wtbl w')) \<le> card (dom (wtbl (world b))) + writers procs \<and>
      res_LeakedLocks r = int (card (dom (wtbl w'))) \<and> e \<le> length procs \<and> res_ErrorRate r = rate e (res_RequestsTotal r)"
    if b: "winv (world b)" "zeroed b" "cause b = None" for b
  proof -
    obtain b' where b': "runPhase send procs (measure_events env) b = PhaseDone b'" "winv (world b')"
      "errors b' \<le> length procs" "card (dom (wtbl (world b'))) \<le> card (dom (wtbl (world b))) + writers procs"
      by (rule contained_done [OF ok _ _ b, of "measure_events env"]) (use env in \<open>simp_all add: undisturbed_env_def\<close>)
    let ?l = "int (card (dom (wtbl (world b'))))"
    obtain w' where w': "checkLeakedLocks (net_send None send (leak_net env)) (world b') = (w', ?l)" "winv w'"
      "wtbl w' = wtbl (world b')" using checkLeakedLocks_count [OF b'(2)] env by (auto simp: undisturbed_env_def)
    obtain r where r: "scenario_result i (measured_ns env) ?l b' = Some r"
      using scenario_result_ok [OF done_samples_ok [OF st b'(1) b(2)]] by metis
    then show ?thesis using b' w' scenario_result_fields [OF r]
      by (intro exI [of _ r] exI [of _ w'] exI [of _ "errors b'"]) (simp add: measure_load_def)
  qed
  obtain b0 where b0: "runPhase send procs (warm_events env) (new_bench w) = PhaseDone b0" "winv (world b0)" "cause b0 = None"
    "card (dom (wtbl (world b0))) \<le> card (dom (wtbl w)) + writers procs"
    by (rule contained_done [OF ok, of "warm_events env" "new_bench w"])
      (use w env in \<open>auto simp: zero_metrics undisturbed_env_def\<close>)
  show ?thesis
  proof (cases "0 < warmup")
    case True
    with measure [of "discard_metrics b0"] b0 show ?thesis by (fastforce simp: run_load_def zero_metrics)
  next
    case False
    with measure [of "new_bench w"] w show ?thesis by (fastforce simp: run_load_def zero_metrics)
  qed
qed

end

text \<open>A run of \<open>n\<close> goroutines that make requests before and after the deadline.\<close>

definition rounds :: "nat \<Rightarrow> nat \<Rightarrow> nat \<Rightarrow> event list" where
  "rounds m n t = concat (map (\<lambda>j. replicate m (Turn j Delivered t)) [0..<n])"

definition sample_events :: "nat \<Rightarrow> event list" where
  "sample_events n = rounds 9 n 7000000 @ Deadline # rounds 8 n 9000000"

definition sample_env :: "nat \<Rightarrow> load_env" where
  "sample_env n = \<lparr>warm_events = sample_events n, measure_events = sample_events n, measured_ns = 15000000000,
     leak_net = Delivered\<rparr>"

definition sample_cfg :: scenarioCfg where
  "sample_cfg = (defaultScenarios ! 0)\<lparr>cfg_Duration := 15000000000, cfg_Warmup := 5000000000\<rparr>"

definition key_order :: "nat \<Rightarrow> store \<Rightarrow> string list" where
  "key_order n s = sorted_list_of_set (dom (locks s))"


lemma key_order_ok: "orders_ok store_inv (\<lambda>s ord. range_ok (locks s) ord) key_order"
  by (auto simp: orders_ok_def range_ok_def store_inv_def key_order_def)


lemma turns_rounds: "j < n \<Longrightarrow> m \<le> turns j (rounds m n t)"
proof (induction n)
  case (Suc n)
  then show ?case by (cases "j = n") (auto simp: turns_def rounds_def)
qed simp

lemma rounds_undisturbed [simp]: "list_all (event_ok undisturbed) (rounds m n t)"
  by (auto simp: rounds_def list_all_iff)

lemma sample_events_fair [simp]: "fair_phase n (sample_events n)"
  unfolding fair_phase_def sample_events_def using turns_rounds by blast

lemma sample_env_simps [simp]:
  "warm_events (sample_env n) = sample_events n" "measure_events (sample_env n) = sample_events n"
  by (simp_all add: sample_env_def)

lemma sample_env_undisturbed [simp]: "undisturbed_env n (sample_env n)"
  using sample_events_fair [of n] by (simp add: undisturbed_env_def sample_env_def) (simp add: sample_events_def)

lemma sample_cfg_simps [simp]:
  "cfg_Concurrency sample_cfg = Suc 0" "cfg_PartitionKeys sample_cfg" "cfg_KeyPoolSize sample_cfg = 1000"
  by (simp_all add: sample_cfg_def defaultScenarios_def)

lemma scenario_procs_length [simp]: "length (scenario_procs cfg) = cfg_Concurrency cfg"
  by (simp add: scenario_procs_def)

lemma inmemory_sample_run:
  "\<exists>r w'. runScenario (loopback inmemory_serve utc key_order) sample_cfg (sample_env 1) (newStore, 0) = Returns r None w'"
  using iml.load_bounded [OF scenario_procs_ok, of sample_cfg key_order "(newStore, 0)" "sample_env 1"] key_order_ok
    sample_env_undisturbed [of 1]
  by (fastforce simp: runScenario_def loopback_inv_def)

subsection \<open>Properties\<close>

text \<open>C25. Each worker of a partitioned scenario gets keys of its own: at least one, none twice, none
  of another worker's, and all from the pool when the pool has a key for every worker.\<close>

theorem buildWorker_partition:
  assumes "cfg_PartitionKeys cfg" and "i < cfg_Concurrency cfg" and "j < cfg_Concurrency cfg" and "i \<noteq> j"
    and "cfg_Concurrency cfg \<le> cfg_KeyPoolSize cfg"
  shows "wk_keys (buildWorker cfg i) \<noteq> [] \<and> distinct (wk_keys (buildWorker cfg i)) \<and>
    set (wk_keys (buildWorker cfg i)) \<inter> set (wk_keys (buildWorker cfg j)) = {} \<and>
    set (wk_keys (buildWorker cfg i)) \<subseteq> key_name ` {0..<cfg_KeyPoolSize cfg} \<and>
    wk_lockee (buildWorker cfg i) \<noteq> wk_lockee (buildWorker cfg j)"
proof -
  let ?q = "cfg_KeyPoolSize cfg div cfg_Concurrency cfg"
  have "1 \<le> ?q" using assms(2,5) by (simp add: Suc_le_eq div_greater_zero_iff)
  then have q: "max 1 ?q = ?q" by simp
  have "(i + 1) * ?q \<le> cfg_Concurrency cfg * ?q" using assms(2) by (intro mult_le_mono1) simp
  also have "\<dots> \<le> cfg_KeyPoolSize cfg" by simp
  finally have "set (makeKeys i (cfg_KeyPoolSize cfg) (cfg_Concurrency cfg)) \<subseteq> key_name ` {0..<cfg_KeyPoolSize cfg}"
    unfolding set_makeKeys q by (intro image_mono) auto
  then show ?thesis
    using assms(1,4) makeKeys_disjoint [OF assms(4)] by (simp add: buildWorker_partitioned) (simp add: buildWorker_def)
qed

theorem buildWorker_partition_witness:
  "set (wk_keys (buildWorker (defaultScenarios ! 1) 2)) \<inter> set (wk_keys (buildWorker (defaultScenarios ! 1) 7)) = {}"
  using buildWorker_partition [of "defaultScenarios ! 1" 2 7] by (simp add: defaultScenarios_def)

text \<open>C16. The metrics of a finished run make sense for every service, network and interleaving of the
  workers: error and conflict rates lie between 0 and 1 (no request is classified before it is
  counted), P50, P95, P99 and the maximum are in order, throughput and duration are not negative.\<close>

theorem scenario_metrics_sane:
  assumes "runScenario send cfg env w = Returns r None w' \<or> runListHeavy send warmup env w = Returns r None w'"
  shows "0 \<le> res_ErrorRate r \<and> res_ErrorRate r \<le> 1 \<and> 0 \<le> res_ConflictRate r \<and> res_ConflictRate r \<le> 1 \<and>
     0 \<le> res_P50Ms r \<and> res_P50Ms r \<le> res_P95Ms r \<and> res_P95Ms r \<le> res_P99Ms r \<and> res_P99Ms r \<le> res_MaxMs r \<and>
     0 \<le> res_RPS r \<and> 0 \<le> res_DurationMs r"
proof -
  have "list_all starting (scenario_procs cfg)" by (auto simp: scenario_procs_def list_all_iff)
  moreover have "list_all starting list_heavy_procs" using list_heavy_ok by (simp add: load_ok_def)
  ultimately have "sane_result r"
    using assms run_load_sane [of "scenario_procs cfg"] run_load_sane [of list_heavy_procs]
    unfolding runScenario_def runListHeavy_def by metis
  then show ?thesis by (simp add: sane_result_def)
qed

theorem scenario_metrics_sane_witness:
  "\<exists>r w'. runScenario (loopback inmemory_serve utc key_order) sample_cfg (sample_env 1) (newStore, 0) = Returns r None w' \<and>
     res_ErrorRate r \<le> 1 \<and> res_P99Ms r \<le> res_MaxMs r"
proof -
  obtain r w' where run: "runScenario (loopback inmemory_serve utc key_order) sample_cfg (sample_env 1) (newStore, 0) =
      Returns r None w'" using inmemory_sample_run by blast
  from scenario_metrics_sane [OF disjI1 [OF run]] run show ?thesis by simp
qed

text \<open>C17. Scenarios end: whatever the service and the network do, a run in which each phase's deadline
  passes and each goroutine then gets eight more turns returns a result; no goroutine panics and
  none is left running.\<close>

theorem scenario_returns:
  assumes "cfg_PartitionKeys cfg \<or> 0 < cfg_KeyPoolSize cfg"
    and "fair_phase (cfg_Concurrency cfg) (warm_events env)" and "fair_phase (cfg_Concurrency cfg) (measure_events env)"
  shows "\<exists>r c w'. runScenario send cfg env w = Returns r c w'"
  unfolding runScenario_def using run_load_returns [OF scenario_procs_ok [OF assms(1)]] assms(2,3) by simp

theorem scenario_returns_witness:
  "\<exists>r c w'. runScenario scripted sample_cfg (sample_env 1) [] = Returns r c w'"
  using sample_events_fair [of 1] by (intro scenario_returns) simp_all

text \<open>C15. In a partitioned scenario against the single-map server no lock request is refused, even
  when requests or replies get lost, as long as no key of the pool is held by anybody else at the
  start: the reported conflict rate is 0.\<close>

theorem inmemory_partitioned_no_conflicts:
  assumes "cfg_PartitionKeys cfg" and "store_inv s" and "\<forall>n. locks s (key_name n) = None"
    and "orders_ok store_inv (\<lambda>s ord. range_ok (locks s) ord) orders"
    and "runScenario (loopback inmemory_serve clock orders) cfg env (s, n) = Returns r None w'"
  shows "res_ConflictRate r = 0"
proof -
  have "\<forall>p \<in> set (scenario_procs cfg). owns_keys (locks (fst (s, n))) p"
    using assms(1,3) by (auto simp: scenario_procs_def buildWorker_partitioned set_makeKeys)
  with assms show ?thesis unfolding runScenario_def
    by (intro iml.load_no_conflict [OF scenario_procs_ok scenario_procs_partitioned]) (auto simp: loopback_inv_def)
qed

theorem inmemory_partitioned_no_conflicts_witness:
  "\<exists>r w'. runScenario (loopback inmemory_serve utc key_order) sample_cfg (sample_env 1) (newStore, 0) = Returns r None w' \<and>
     res_ConflictRate r = 0"
proof -
  obtain r w' where run: "runScenario (loopback inmemory_serve utc key_order) sample_cfg (sample_env 1) (newStore, 0) =
      Returns r None w'" using inmemory_sample_run by blast
  from inmemory_partitioned_no_conflicts [OF sample_cfg_simps(2) store_inv_newStore _ key_order_ok run] run
  show ?thesis by simp
qed

text \<open>The same for the \<open>list_heavy\<close> scenario against the sharded server.\<close>

lemma sharded_list_heavy_no_conflicts:
  assumes "sharded_inv Hash s" and "\<forall>n. sharded_table Hash s (key_name n) = None"
    and "orders_ok (sharded_inv Hash) sharded_ord_ok orders"
    and "runListHeavy (loopback (sharded_serve Hash) clock orders) warmup env (s, n) = Returns r None w'"
  shows "res_ConflictRate r = 0"
proof -
  have "\<forall>p \<in> set list_heavy_procs. owns_keys (sharded_table Hash (fst (s, n))) p"
    using assms(2) by (auto simp: list_heavy_procs_def set_makeKeys)
  with assms show ?thesis unfolding runListHeavy_def
    by (intro shl.load_no_conflict [OF list_heavy_ok list_heavy_partitioned]) (auto simp: loopback_inv_def)
qed

lemma scenario_procs_writers [simp]: "writers (scenario_procs cfg) = cfg_Concurrency cfg"
  by (simp add: writers_def scenario_procs_def)

lemma list_heavy_writers [simp]: "writers list_heavy_procs = 20"
  by (simp add: writers_def list_heavy_procs_def)





end
