(* ===== verification/Bench_Leak.thy ===== *)
theory Bench_Leak
  imports Bench_Scenario
begin

text \<open>
  What one scenario of \<^verbatim>\<open>benchmark/scenarios.go\<close> leaves to the next. The scenarios of a solution run one after
  the other against the same server, with the same key names and lockees of the same form, but with other
  assignments of keys to workers. A worker whose phase ends between its two requests leaves its lock behind
  (its release is sent with a context that is done); the next scenario then meets it.

  The lemmas follow one worker through whole rounds of its loop against a service that implements the
  specification, as explicit runs of \<open>phase_run\<close>.
\<close>

subsection \<open>Runs of one worker\<close>

lemma phase_run_append: "phase_run send (evs @ evs') s = phase_run send evs' (phase_run send evs s)"
  by (simp add: phase_run_def)

lemma phase_run_Cons: "phase_run send (e # evs) s = phase_run send evs (phase_step send e s)"
  by (simp add: phase_run_def)

lemma phase_run_Nil: "phase_run send [] s = s"
  by (simp add: phase_run_def)

lemmas phase_run_simps = phase_run_Cons phase_run_Nil

context spec_service
begin

text \<open>The first five steps of a round take the lock of a free key; four more give it back.\<close>

lemma worker_takes:
  assumes w: "winv (world b)" and ok: "writer_ok (Writer w (Select i))" and live: "ctx_error b = None"
    and free: "wtbl (world b) (key_at w i) = None" and j: "j < length ps" "ps ! j = Writer w (Select i)"
  shows "\<exists>b' now. phase_run send (replicate 5 (Turn j Delivered t)) (b, ps) = (b', ps[j := Writer w (Release i)]) \<and>
    winv (world b') \<and> ctx_error b' = None \<and> wtbl (world b') = lock_entry (wtbl (world b)) (key_at w i) (wk_lockee w) False now"
proof -
  let ?k = "key_at w i" and ?a = "wk_lockee w"
  have k: "?k \<noteq> []" "?a \<noteq> []" "wk_keys w \<noteq> []" using ok key_at_in [of w i] by auto
  obtain w' res where r: "postLock None send ?k ?a False (world b) = (w', res)" by fastforce
  then have "postLock None (net_send None send Delivered) ?k ?a False (world b) = (w', res)" by simp
  note net = postLock_net [OF w k(1,2) this]
  have "may_lock (wtbl (world b)) ?k ?a False" using free by simp
  then obtain now where res: "res = Inr StatusOK" "winv w'" "wtbl w' = lock_entry (wtbl (world b)) ?k ?a False now"
    using net(1) net(3) net(4) by fastforce
  have nctx: "\<not> ctx_err b" using live by (simp add: ctx_err_error)
  have five: "replicate 5 e = [e, e, e, e, e]" for e :: event by (simp add: numeral_eq_Suc)
  show ?thesis unfolding five phase_run_simps using r res j k live nctx by (auto simp: Let_def)
qed

lemma worker_gives:
  assumes w: "winv (world b)" and ok: "writer_ok (Writer w (Release i))" and live: "ctx_error b = None"
    and held: "holder (wtbl (world b)) (key_at w i) = Some (wk_lockee w)" and j: "j < length ps" "ps ! j = Writer w (Release i)"
  shows "\<exists>b'. phase_run send (replicate 4 (Turn j Delivered t)) (b, ps) = (b', ps[j := Writer w (Select (i + 1))]) \<and>
    winv (world b') \<and> ctx_error b' = None \<and> wtbl (world b') = release_entry (wtbl (world b)) (key_at w i) (wk_lockee w)"
proof -
  let ?k = "key_at w i" and ?a = "wk_lockee w"
  have k: "?k \<noteq> []" "?a \<noteq> []" "wk_keys w \<noteq> []" using ok key_at_in [of w i] by auto
  obtain w' res where r: "deleteLock None send ?k ?a (world b) = (w', res)" by fastforce
  then have "deleteLock None (net_send None send Delivered) ?k ?a (world b) = (w', res)" by simp
  note net = deleteLock_net [OF w k(1,2) this]
  have "release_status (wtbl (world b)) ?k ?a = StatusOK" using held by (simp add: release_status_def)
  then have res: "res = Inr StatusOK" "winv w'" "wtbl w' = release_entry (wtbl (world b)) ?k ?a"
    using net(1) net(3) net(4) by fastforce+
  have nctx: "\<not> ctx_err b" using live by (simp add: ctx_err_error)
  have four: "replicate 4 e = [e, e, e, e]" for e :: event by (simp add: numeral_eq_Suc)
  show ?thesis unfolding four phase_run_simps using r res j k live nctx by (simp add: Let_def)
qed

lemma worker_round:
  assumes w: "winv (world b)" and ok: "writer_ok (Writer w (Select i))" and live: "ctx_error b = None"
    and free: "wtbl (world b) (key_at w i) = None" and j: "j < length ps" "ps ! j = Writer w (Select i)"
  shows "\<exists>b'. phase_run send (replicate 9 (Turn j Delivered t)) (b, ps) = (b', ps[j := Writer w (Select (i + 1))]) \<and>
    winv (world b') \<and> ctx_error b' = None \<and> wtbl (world b') = wtbl (world b)"
proof -
  let ?k = "key_at w i" and ?a = "wk_lockee w" and ?T = "wtbl (world b)" and ?e = "Turn j Delivered t"
  obtain b1 now where 1: "phase_run send (replicate 5 ?e) (b, ps) = (b1, ps[j := Writer w (Release i)])"
    "winv (world b1)" "ctx_error b1 = None" "wtbl (world b1) = lock_entry ?T ?k ?a False now"
    using worker_takes [OF assms] by blast
  have held: "holder (wtbl (world b1)) ?k = Some ?a" using free by (simp add: 1(4) holder_lock_entry)
  obtain b2 where 2: "phase_run send (replicate 4 ?e) (b1, ps[j := Writer w (Release i)]) = (b2, ps[j := Writer w (Select (i + 1))])"
    "winv (world b2)" "ctx_error b2 = None" "wtbl (world b2) = release_entry (wtbl (world b1)) ?k ?a"
    using worker_gives [OF 1(2) _ 1(3) held, of j "ps[j := Writer w (Release i)]" t] ok j by auto
  have "replicate 9 ?e = replicate 5 ?e @ replicate 4 ?e" by (simp flip: replicate_add)
  then have "phase_run send (replicate 9 ?e) (b, ps) = (b2, ps[j := Writer w (Select (i + 1))])"
    by (simp only: phase_run_append 1(1) 2(1))
  moreover have "wtbl (world b2) = ?T"
    using free held by (auto simp: 2(4) 1(4) release_entry_def lock_entry_def holder_lock_entry fun_upd_idem)
  ultimately show ?thesis using 2 by blast
qed

lemma worker_rounds:
  assumes ok: "writer_ok (Writer w (Select 0))" and j: "j < length ps"
    and w: "winv (world b)" "ctx_error b = None" "ps ! j = Writer w (Select 0)"
    and free: "\<forall>k \<in> set (wk_keys w). wtbl (world b) k = None"
  shows "\<exists>b'. phase_run send (replicate (9 * n) (Turn j Delivered t)) (b, ps) = (b', ps[j := Writer w (Select n)]) \<and>
    winv (world b') \<and> ctx_error b' = None \<and> wtbl (world b') = wtbl (world b)"
proof (induction n)
  case 0
  have "ps[j := Writer w (Select 0)] = ps" using w(3) by (metis list_update_id)
  then show ?case using w by (simp add: phase_run_Nil)
next
  case (Suc n)
  let ?e = "Turn j Delivered t"
  obtain b1 where 1: "phase_run send (replicate (9 * n) ?e) (b, ps) = (b1, ps[j := Writer w (Select n)])"
    "winv (world b1)" "ctx_error b1 = None" "wtbl (world b1) = wtbl (world b)" using Suc.IH by blast
  have "wtbl (world b1) (key_at w n) = None" using free ok key_at_in [of w n] by (simp add: 1(4))
  then obtain b2 where 2: "phase_run send (replicate 9 ?e) (b1, ps[j := Writer w (Select n)]) = (b2, ps[j := Writer w (Select (Suc n))])"
    "winv (world b2)" "ctx_error b2 = None" "wtbl (world b2) = wtbl (world b)"
    using worker_round [OF 1(2) _ 1(3), of w n j "ps[j := Writer w (Select n)]" t] ok j 1(4) by auto
  have "replicate (9 * Suc n) ?e = replicate (9 * n) ?e @ replicate 9 ?e" by (simp add: add.commute flip: replicate_add)
  then show ?case using 2 by (simp only: phase_run_append 1(1)) blast
qed

text \<open>A worker that meets a lock of somebody else counts a conflict and moves on.\<close>

lemma worker_refused:
  assumes w: "winv (world b)" and ok: "writer_ok (Writer w (Select i))" and live: "ctx_error b = None"
    and held: "holder (wtbl (world b)) (key_at w i) = Some a" "a \<noteq> wk_lockee w"
    and j: "j < length ps" "ps ! j = Writer w (Select i)"
  shows "\<exists>b'. phase_run send (replicate 6 (Turn j Delivered t)) (b, ps) = (b', ps[j := Writer w (Select (i + 1))]) \<and>
    winv (world b') \<and> ctx_error b' = None \<and> conflicts b' = conflicts b + 1 \<and> total b' = total b + 1"
proof -
  let ?k = "key_at w i" and ?l = "wk_lockee w"
  have k: "?k \<noteq> []" "?l \<noteq> []" "wk_keys w \<noteq> []" using ok key_at_in [of w i] by auto
  obtain w' res where r: "postLock None send ?k ?l False (world b) = (w', res)" by fastforce
  then have "postLock None (net_send None send Delivered) ?k ?l False (world b) = (w', res)" by simp
  note net = postLock_net [OF w k(1,2) this]
  have "\<not> may_lock (wtbl (world b)) ?k ?l False" using held by (simp add: may_lock_def)
  then have res: "res = Inr StatusConflict" "winv w'" using net(1) net(3) net(4) by fastforce+
  have nctx: "\<not> ctx_err b" using live by (simp add: ctx_err_error)
  have six: "replicate 6 e = [e, e, e, e, e, e]" for e :: event by (simp add: numeral_eq_Suc)
  show ?thesis unfolding six phase_run_simps using r res j k live nctx by (simp add: Let_def)
qed

end

subsection \<open>The end of a phase\<close>

text \<open>A worker that the deadline meets before its release request never sends it.\<close>

lemma release_not_sent:
  assumes "cause b = None" "timed_out b" "j < length ps" "ps ! j = Writer w (Release i)"
  shows "\<exists>b'. phase_run send (replicate 8 (Turn j Delivered t)) (b, ps) = (b', ps[j := Writer w Returned]) \<and>
    world b' = world b \<and> cause b' = None"
proof -
  have e: "ctx_err b" "ctx_error b = Some [DeadlineExceeded]" using assms by (simp_all add: ctx_err_def ctx_error_def)
  have eight: "replicate 8 e = [e, e, e, e, e, e, e, e]" for e :: event by (simp add: numeral_eq_Suc)
  show ?thesis unfolding eight phase_run_simps using assms e by (simp add: Let_def)
qed

text \<open>Goroutines at the top of their loops return at their next step once the context is done.\<close>

fun resting :: "proc \<Rightarrow> bool" where
  "resting (Writer w pc) \<longleftrightarrow> pc = Returned \<or> (\<exists>i. pc = Select i)"
| "resting (Reader pc) \<longleftrightarrow> pc = RReturned \<or> pc = RSelect"

lemma resting_step: "resting p \<Longrightarrow> ctx_err b \<Longrightarrow> proc_step send t p b = (p', b') \<Longrightarrow> resting p' \<and> b' = b"
  by (cases p) auto

lemma resting_run:
  "list_all resting ps \<Longrightarrow> timed_out b \<Longrightarrow> phase_run send evs (b, ps) = (b', ps') \<Longrightarrow> b' = b"
proof (induction evs arbitrary: ps)
  case (Cons e evs)
  have d: "ctx_err b" "b\<lparr>timed_out := True\<rparr> = b" using Cons.prems(2) by (simp_all add: ctx_err_def)
  obtain b1 ps1 where 1: "phase_step send e (b, ps) = (b1, ps1)" by fastforce
  have "b1 = b \<and> list_all resting ps1"
  proof (cases e)
    case Deadline
    then show ?thesis using 1 Cons.prems(1) d(2) by simp
  next
    case (Turn j n t)
    obtain p' b2 where p': "proc_step (net_send (ctx_error b) send n) t (ps ! j) b = (p', b2)" by fastforce
    have "j < length ps \<Longrightarrow> resting p' \<and> b2 = b"
      using resting_step [OF _ d(1) p'] Cons.prems(1) by (simp add: list_all_length)
    then show ?thesis using 1 Turn p' Cons.prems(1)
      by (cases "j < length ps") (auto simp: list_all_length nth_list_update)
  qed
  moreover from this have "phase_run send evs (b, ps1) = (b', ps')" using Cons.prems(3) 1 by (simp add: phase_run_Cons)
  ultimately show ?case using Cons.IH [of ps1] Cons.prems(2) by blast
qed (simp add: phase_run_Nil)

lemma resting_phase:
  assumes "load_ok procs" "phase_run send evs (b\<lparr>timed_out := False\<rparr>, procs) = (b1, ps1)" "cause b1 = None" "list_all resting ps1"
  shows "runPhase send procs (evs @ Deadline # rounds 8 (length procs) t) b = PhaseDone (b1\<lparr>timed_out := True\<rparr>)"
proof -
  let ?evs = "evs @ Deadline # rounds 8 (length procs) t"
  obtain b' ps' where run: "phase_run send ?evs (b\<lparr>timed_out := False\<rparr>, procs) = (b', ps')" by fastforce
  have "phase_run send (rounds 8 (length procs) t) (b1\<lparr>timed_out := True\<rparr>, ps1) = (b', ps')"
    using run assms(2) by (simp add: phase_run_append phase_run_Cons)
  then have "b' = b1\<lparr>timed_out := True\<rparr>" by (rule resting_run [OF assms(4), rotated]) simp
  moreover have "list_all returned ps' \<and> \<not> list_ex panicked ps'"
    by (rule phase_run_returns [OF load_ok_has_keys [OF assms(1)] run]) (simp add: turns_rounds)
  ultimately show ?thesis using run assms(3) by (simp add: runPhase_def)
qed

lemma starting_resting: "load_ok procs \<Longrightarrow> list_all resting procs"
  unfolding load_ok_def list_all_iff
proof (intro ballI, elim conjE)
  fix p
  assume "p \<in> set procs" "\<forall>p \<in> set procs. starting p"
  then have "starting p" by blast
  then show "resting p" by (cases p) auto
qed

subsection \<open>Two scenarios in a row\<close>

text \<open>
  The sequential worker goes through its keys up to \<open>key-100\<close> and is met by the deadline with that lock in
  its hands. In the low-concurrency scenario \<open>key-100\<close> is the first key of worker 1. Warmups pass before any
  worker begins.
\<close>

definition leak_env :: load_env where
  "leak_env = \<lparr>warm_events = Deadline # rounds 8 1 2,
     measure_events = replicate 905 (Turn 0 Delivered 2) @ Deadline # rounds 8 1 2, measured_ns = 0, leak_net = Delivered\<rparr>"

definition conflict_env :: load_env where
  "conflict_env = \<lparr>warm_events = Deadline # rounds 8 10 2,
     measure_events = replicate 6 (Turn 1 Delivered 2) @ Deadline # rounds 8 10 2, measured_ns = 0, leak_net = Delivered\<rparr>"

definition timed_cfg :: "nat \<Rightarrow> int \<Rightarrow> int \<Rightarrow> scenarioCfg" where
  "timed_cfg i warmup duration = (defaultScenarios ! i)\<lparr>cfg_Duration := duration, cfg_Warmup := warmup\<rparr>"

lemma env_fair:
  "fair_phase n (Deadline # rounds 8 n t)" "fair_phase n (evs @ Deadline # rounds 8 n t)"
  unfolding fair_phase_def using turns_rounds [of _ n 8 t] by (blast intro: append_Nil [symmetric])+

lemma replicate_undisturbed: "list_all (event_ok undisturbed) (replicate n (Turn j Delivered t))"
  by (simp add: list_all_iff)

lemma envs_undisturbed: "undisturbed_env 1 leak_env" "undisturbed_env 10 conflict_env"
  using env_fair(1) [of 1 2] env_fair(2) [of 1 _ 2] env_fair(1) [of 10 2] env_fair(2) [of 10 _ 2]
  by (simp_all add: undisturbed_env_def leak_env_def conflict_env_def replicate_undisturbed del: One_nat_def)

lemma timed_cfg_simps:
  "cfg_PartitionKeys (timed_cfg 0 u d)" "cfg_Concurrency (timed_cfg 0 u d) = 1" "cfg_KeyPoolSize (timed_cfg 0 u d) = 1000"
  "cfg_PartitionKeys (timed_cfg 1 u d)" "cfg_Concurrency (timed_cfg 1 u d) = 10" "cfg_KeyPoolSize (timed_cfg 1 u d) = 1000"
  by (simp_all add: timed_cfg_def defaultScenarios_def)

text \<open>The measured phase of a run, whatever the warmup flag, when the warmup ends before anybody begins.\<close>

lemma run_load_after_quick_warmup:
  assumes ok: "load_ok procs" and warm: "warm_events env = Deadline # rounds 8 (length procs) t"
  shows "\<exists>b. world b = w \<and> zeroed b \<and> cause b = None \<and> run_load send i procs warmup env w = measure_load send i procs env b"
proof (cases "0 < warmup")
  case True
  have "runPhase send procs ([] @ Deadline # rounds 8 (length procs) t) (new_bench w) =
      PhaseDone ((new_bench w)\<lparr>timed_out := False, timed_out := True\<rparr>)"
    by (rule resting_phase [OF ok _ _ starting_resting [OF ok]]) (simp_all add: phase_run_Nil zero_metrics)
  with True warm show ?thesis
    by (intro exI [of _ "discard_metrics (new_bench w\<lparr>timed_out := True\<rparr>)"]) (simp add: run_load_def zero_metrics)
next
  case False
  then show ?thesis by (intro exI [of _ "new_bench w"]) (simp add: run_load_def zero_metrics)
qed

context spec_service
begin

lemma measured_result:
  assumes ok: "load_ok procs" and fin: "runPhase send procs (measure_events env) b = PhaseDone b'" "zeroed b"
    and w: "winv (world b')" "leak_net env = Delivered"
  shows "\<exists>r w'. measure_load send i procs env b = Returns r None w' \<and> winv w' \<and> wtbl w' = wtbl (world b') \<and>
    res_LeakedLocks r = int (card (dom (wtbl w'))) \<and> res_ConflictRate r = rate (conflicts b') (total b')"
proof -
  have st: "list_all starting procs" using ok by (simp add: load_ok_def)
  obtain w' where w': "checkLeakedLocks (net_send None send (leak_net env)) (world b') = (w', int (card (dom (wtbl (world b')))))"
    "winv w'" "wtbl w' = wtbl (world b')" using checkLeakedLocks_count [OF w(1)] w(2) by auto
  obtain r where r: "scenario_result i (measured_ns env) (int (card (dom (wtbl (world b'))))) b' = Some r"
    using scenario_result_ok [OF done_samples_ok [OF st fin]] by metis
  with w' fin show ?thesis using scenario_result_fields [OF r] by (intro exI [of _ r] exI [of _ w']) (simp add: measure_load_def)
qed

lemma sequential_leaks:
  assumes w: "winv w" and free: "\<And>n. wtbl w (key_name n) = None"
  shows "\<exists>r w'. runScenario send (timed_cfg 0 u d) leak_env w = Returns r None w' \<and> winv w' \<and>
    res_LeakedLocks r = int (card (dom (wtbl w))) + 1 \<and> holder (wtbl w') (key_name 100) = Some (''worker-'' @ itoa 0)"
proof -
  let ?cfg = "timed_cfg 0 u d" let ?W = "buildWorker ?cfg 0" and ?e = "Turn 0 Delivered 2"
  have procs: "scenario_procs ?cfg = [Writer ?W (Select 0)]" by (simp add: scenario_procs_def timed_cfg_simps)
  have ok: "load_ok (scenario_procs ?cfg)" by (rule scenario_procs_ok) (simp add: timed_cfg_simps)
  then have okW: "writer_ok (Writer ?W pc)" for pc by (auto simp: load_ok_def procs)
  have keys: "wk_keys ?W = map key_name [0..<1000]" by (simp add: buildWorker_partitioned makeKeys_eq timed_cfg_simps)
  then have key: "key_at ?W 100 = key_name 100" by (simp add: key_at_def)
  obtain b where b: "world b = w" "zeroed b" "cause b = None" and run:
    "run_load send (cfg_ID ?cfg) (scenario_procs ?cfg) (cfg_Warmup ?cfg) leak_env w =
      measure_load send (cfg_ID ?cfg) (scenario_procs ?cfg) leak_env b"
    using run_load_after_quick_warmup [OF ok, of leak_env 2 w send "cfg_ID ?cfg" "cfg_Warmup ?cfg"]
    by (auto simp: leak_env_def procs)
  obtain b1 where 1: "phase_run send (replicate (9 * 100) ?e) (b\<lparr>timed_out := False\<rparr>, [Writer ?W (Select 0)]) =
      (b1, [Writer ?W (Select 100)])" "winv (world b1)" "ctx_error b1 = None" "wtbl (world b1) = wtbl w"
    using worker_rounds [OF okW, of 0 "[Writer ?W (Select 0)]" "b\<lparr>timed_out := False\<rparr>" 100 2] b w free keys
    by (auto simp: ctx_error_def)
  obtain b2 now where 2: "phase_run send (replicate 5 ?e) (b1, [Writer ?W (Select 100)]) = (b2, [Writer ?W (Release 100)])"
    "winv (world b2)" "ctx_error b2 = None"
    "wtbl (world b2) = lock_entry (wtbl w) (key_name 100) (wk_lockee ?W) False now"
    using worker_takes [OF 1(2) okW 1(3), of 100 0 "[Writer ?W (Select 100)]" 2] 1(4) free key by auto
  have c2: "cause (b2\<lparr>timed_out := True\<rparr>) = None" using 2(3) by (simp add: ctx_error_def split: if_splits)
  obtain b3 where 3: "phase_run send (replicate 8 ?e) (b2\<lparr>timed_out := True\<rparr>, [Writer ?W (Release 100)]) = (b3, [Writer ?W Returned])"
    "world b3 = world b2" "cause b3 = None"
    using release_not_sent [OF c2, of 0 "[Writer ?W (Release 100)]" ?W 100 send 2] by auto
  have "replicate 905 ?e = replicate (9 * 100) ?e @ replicate 5 ?e" by (simp flip: replicate_add)
  then have "measure_events leak_env = replicate (9 * 100) ?e @ replicate 5 ?e @ Deadline # replicate 8 ?e"
    by (simp add: leak_env_def rounds_def)
  then have "phase_run send (measure_events leak_env) (b\<lparr>timed_out := False\<rparr>, [Writer ?W (Select 0)]) = (b3, [Writer ?W Returned])"
    by (simp only: phase_run_append phase_run_Cons 1(1) 2(1) phase_step.simps 3(1))
  then have "runPhase send (scenario_procs ?cfg) (measure_events leak_env) b = PhaseDone b3"
    using 3(3) by (simp add: runPhase_def procs)
  from measured_result [OF ok this b(2)] 3(2) 2(2) obtain r w' where r:
    "measure_load send (cfg_ID ?cfg) (scenario_procs ?cfg) leak_env b = Returns r None w'" "winv w'"
    "wtbl w' = wtbl (world b2)" "res_LeakedLocks r = int (card (dom (wtbl w')))"
    by (fastforce simp: leak_env_def)
  have "wtbl (world b2) = (wtbl w)(key_name 100 \<mapsto> \<lparr>Key = key_name 100, Lockee = wk_lockee ?W, Since = UTC now\<rparr>)"
    using free by (simp add: 2(4) lock_entry_def holder_def)
  moreover from this have "card (dom (wtbl (world b2))) = Suc (card (dom (wtbl w)))"
    using table_finite [OF w] free [of 100] by (simp add: card_insert_if domIff)
  moreover have "wk_lockee ?W = ''worker-'' @ itoa 0" by (simp add: buildWorker_def)
  ultimately show ?thesis using r run by (simp add: runScenario_def)
qed

lemma low_concurrency_conflicts:
  assumes w: "winv w" and held: "holder (wtbl w) (key_name 100) = Some (''worker-'' @ itoa 0)"
  shows "\<exists>r w'. runScenario send (timed_cfg 1 u d) conflict_env w = Returns r None w' \<and> res_ConflictRate r = rate 1 1"
proof -
  let ?cfg = "timed_cfg 1 u d" let ?W = "buildWorker ?cfg 1" and ?ps = "scenario_procs ?cfg"
  have len: "length ?ps = 10" "1 < length ?ps" by (simp_all add: timed_cfg_simps del: One_nat_def)
  have ps: "?ps ! 1 = Writer ?W (Select 0)" by (simp add: scenario_procs_def timed_cfg_simps del: One_nat_def)
  have ok: "load_ok ?ps" by (rule scenario_procs_ok) (simp add: timed_cfg_simps del: One_nat_def)
  then have okW: "writer_ok (Writer ?W (Select 0))"
    unfolding ps [symmetric] load_ok_def list_all_length using len(2) by blast
  have "wk_keys ?W = map key_name [100..<200]" unfolding buildWorker_partitioned [OF timed_cfg_simps(4)] makeKeys_eq
    by (simp add: timed_cfg_simps del: One_nat_def)
  then have key: "key_at ?W 0 = key_name 100" by (simp add: key_at_def)
  obtain b where b: "world b = w" "zeroed b" "cause b = None" and run:
    "run_load send (cfg_ID ?cfg) ?ps (cfg_Warmup ?cfg) conflict_env w = measure_load send (cfg_ID ?cfg) ?ps conflict_env b"
    using run_load_after_quick_warmup [OF ok, of conflict_env 2 w send "cfg_ID ?cfg" "cfg_Warmup ?cfg"] len(1)
    unfolding conflict_env_def by (auto simp del: One_nat_def)
  have "holder (wtbl (world (b\<lparr>timed_out := False\<rparr>))) (key_at ?W 0) = Some (''worker-'' @ itoa 0)"
    "''worker-'' @ itoa 0 \<noteq> wk_lockee ?W" using held b(1) key by (simp_all add: buildWorker_def)
  then obtain b1 where 1: "phase_run send (replicate 6 (Turn 1 Delivered 2)) (b\<lparr>timed_out := False\<rparr>, ?ps) =
      (b1, ?ps[1 := Writer ?W (Select 1)])" "winv (world b1)" "ctx_error b1 = None" "conflicts b1 = 1" "total b1 = 1"
    using worker_refused [OF _ okW _ _ _ len(2) ps, of "b\<lparr>timed_out := False\<rparr>" "''worker-'' @ itoa 0" 2] b w
    by (auto simp: ctx_error_def zeroed_def)
  have "cause b1 = None" using 1(3) by (simp add: ctx_error_def split: if_splits)
  moreover have "list_all resting (?ps[1 := Writer ?W (Select 1)])"
    using starting_resting [OF ok] unfolding list_all_iff by (auto elim!: set_update_cases)
  ultimately have "runPhase send ?ps (measure_events conflict_env) b = PhaseDone (b1\<lparr>timed_out := True\<rparr>)"
    using resting_phase [OF ok 1(1), of 2] len(1) by (simp add: conflict_env_def del: One_nat_def)
  from measured_result [OF ok this b(2)] 1 run show ?thesis
    by (fastforce simp: runScenario_def conflict_env_def)
qed

end

lemma rate_1: "rate 1 1 = 1"
  using f64.rnd_int [of 1] by (simp add: rate_def f64_div_def f64_of_int_def)

subsection \<open>Properties\<close>

text \<open>C24. Scenarios are not isolated from each other: there are runs of the sequential and then of the
  low-concurrency scenario against the single-map server, from an empty table, in which no message is
  lost, the first reports a leaked lock (its worker's phase ended before the release was sent) and the
  second, although its workers share no key, reports conflicts because of it.\<close>

theorem leaked_lock_conflicts_later:
  assumes "orders_ok store_inv (\<lambda>s ord. range_ok (locks s) ord) orders"
  shows "\<exists>env1 env2 r1 w1 r2 w2. undisturbed_env 1 env1 \<and> undisturbed_env 10 env2 \<and>
    runScenario (loopback inmemory_serve clock orders) (timed_cfg 0 warmup duration) env1 (newStore, n) = Returns r1 None w1 \<and>
    res_LeakedLocks r1 = 1 \<and>
    runScenario (loopback inmemory_serve clock orders) (timed_cfg 1 warmup duration) env2 w1 = Returns r2 None w2 \<and>
    res_ConflictRate r2 = 1"
proof -
  have w: "loopback_inv store_inv (\<lambda>s ord. range_ok (locks s) ord) orders (newStore, n)"
    using assms by (simp add: loopback_inv_def)
  obtain r1 w1 where 1: "runScenario (loopback inmemory_serve clock orders) (timed_cfg 0 warmup duration) leak_env (newStore, n) =
      Returns r1 None w1" "loopback_inv store_inv (\<lambda>s ord. range_ok (locks s) ord) orders w1" "res_LeakedLocks r1 = 1"
    "holder (locks (fst w1)) (key_name 100) = Some (''worker-'' @ itoa 0)"
    using iml.sequential_leaks [OF w, of clock warmup duration] by auto
  obtain r2 w2 where "runScenario (loopback inmemory_serve clock orders) (timed_cfg 1 warmup duration) conflict_env w1 =
      Returns r2 None w2" "res_ConflictRate r2 = 1"
    using iml.low_concurrency_conflicts [OF 1(2,4), of clock warmup duration] unfolding rate_1 by blast
  with 1 envs_undisturbed show ?thesis by blast
qed

theorem leaked_lock_conflicts_later_witness:
  "\<exists>env1 env2 r1 w1 r2 w2. undisturbed_env 1 env1 \<and> undisturbed_env 10 env2 \<and>
    runScenario (loopback inmemory_serve utc key_order) (timed_cfg 0 5 15) env1 (newStore, 0) = Returns r1 None w1 \<and>
    res_LeakedLocks r1 = 1 \<and>
    runScenario (loopback inmemory_serve utc key_order) (timed_cfg 1 5 15) env2 w1 = Returns r2 None w2 \<and>
    res_ConflictRate r2 = 1"
  by (rule leaked_lock_conflicts_later [OF key_order_ok])

end
