(* ===== verification/Bench_Docker.thy ===== *)
theory Bench_Docker
  imports Bench_Scenario
begin

text \<open>
  \<^verbatim>\<open>benchmark/docker.go\<close>: building images, starting and stopping containers, waiting until a service
  answers, and the benchmark network.

  The Docker engine client is third-party code: it is the parameter \<open>dk\<close>, a record of the calls that
  the program makes, each of which changes the outside world and returns a result or an error. The
  clock and the waiting (\<^verbatim>\<open>select\<close> on \<^verbatim>\<open>ctx.Done()\<close> and \<^verbatim>\<open>time.After\<close>) are the parameter \<open>host\<close>. Loops
  that poll take fuel, one unit per iteration; running out is \<^const>\<open>None\<close>, and the theorems give the
  fuel that is enough when waiting advances the clock. Times are nanoseconds.

  Durations are Go's \<^verbatim>\<open>int64\<close>: where the code multiplies them, the product wraps around.

  A solution directory is a tree; the tar archive built from it is the list of its entries, whose
  encoding is \<^verbatim>\<open>archive/tar\<close>'s. \<^verbatim>\<open>filepath.Walk\<close> does not follow links: the entry of a link, a device or a
  socket has no room for content, but \<^verbatim>\<open>createTarball\<close> opens the path, which follows the link, and copies
  what it reads. The content of such a node is what opening and reading its path gives. The tree
  does not change during the walk, and named pipes, whose opening waits for a writer, are left out.
  \<^verbatim>\<open>strings.ToLower\<close> is modelled on ASCII letters.
\<close>

subsection \<open>The engine and the host\<close>

record build_msg =
  msg_Stream :: string
  msg_Error :: string

record container_spec =
  spec_Image :: string
  spec_Port :: string
  spec_HostIP :: "string option"
  spec_Network :: "(string \<times> string) option"
  spec_Name :: string

datatype tar_type = TypeReg | TypeDir | TypeSymlink | TypeDevice

record tar_entry =
  hdr_Name :: string
  hdr_Typeflag :: tar_type
  hdr_Content :: string

text \<open>The build output is a stream of decoded messages, ended by EOF or by a decoding error.\<close>

record 'w docker =
  ImageBuild :: "tar_entry list \<Rightarrow> string \<Rightarrow> ('w, go_error, (go_error + build_msg) list) io"
  ContainerCreate :: "container_spec \<Rightarrow> ('w, go_error, string) io"
  ContainerStart :: "string \<Rightarrow> ('w, go_error, unit) io"
  ContainerInspect :: "string \<Rightarrow> ('w, go_error, string \<Rightarrow> string list) io"
  ContainerStop :: "string \<Rightarrow> ('w, go_error, unit) io"
  ContainerRemove :: "string \<Rightarrow> ('w, go_error, unit) io"
  NetworkCreate :: "string \<Rightarrow> ('w, go_error, string) io"
  NetworkRemove :: "string \<Rightarrow> ('w, go_error, unit) io"
  NetworkConnect :: "string \<Rightarrow> string \<Rightarrow> ('w, go_error, unit) io"

record 'w host =
  clock :: "'w \<Rightarrow> int"
  pause :: "int \<Rightarrow> ('w, go_error, unit) io"

datatype docker_error =
    Wrapped string go_error
  | BuildFailed string string
  | NoPortBinding string
  | BadHostPort string
  | NotHealthy int
  | Cancelled go_error
  | HostnameUnset

subsection \<open>Images\<close>

datatype fs_node =
    File "go_error + string"
  | Dir "(string \<times> fs_node) list"
  | Symlink "go_error + string"
  | Device "go_error + string"
  | Socket
  | Unreadable go_error

definition join_path :: "string \<Rightarrow> string \<Rightarrow> string" where
  "join_path dir name = (if dir = ''.'' then name else dir @ ''/'' @ name)"

text \<open>\<^verbatim>\<open>io.Copy\<close> into an entry whose header promises no bytes: the archive refuses the first byte.\<close>

definition copy_into_empty :: "tar_entry \<Rightarrow> go_error + string \<Rightarrow> go_error + tar_entry list" where
  "copy_into_empty hdr content =
     (case content of
        Inl e \<Rightarrow> Inl e
      | Inr c \<Rightarrow> if c = [] then Inr [hdr] else Inl [OtherErr ''archive/tar: write too long''])"

fun tar_walk :: "string \<Rightarrow> fs_node \<Rightarrow> go_error + tar_entry list"
  and tar_walk_children :: "string \<Rightarrow> (string \<times> fs_node) list \<Rightarrow> go_error + tar_entry list" where
  "tar_walk rel (Unreadable e) = Inl e"
| "tar_walk rel (File content) =
     (case content of Inl e \<Rightarrow> Inl e | Inr c \<Rightarrow> Inr [\<lparr>hdr_Name = rel, hdr_Typeflag = TypeReg, hdr_Content = c\<rparr>])"
| "tar_walk rel (Symlink content) =
     copy_into_empty \<lparr>hdr_Name = rel, hdr_Typeflag = TypeSymlink, hdr_Content = []\<rparr> content"
| "tar_walk rel (Device content) =
     copy_into_empty \<lparr>hdr_Name = rel, hdr_Typeflag = TypeDevice, hdr_Content = []\<rparr> content"
| "tar_walk rel Socket = Inl [OtherErr ''archive/tar: sockets not supported'']"
| "tar_walk rel (Dir children) =
     (case tar_walk_children rel children of
        Inl e \<Rightarrow> Inl e
      | Inr es \<Rightarrow> Inr (\<lparr>hdr_Name = rel, hdr_Typeflag = TypeDir, hdr_Content = []\<rparr> # es))"
| "tar_walk_children rel [] = Inr []"
| "tar_walk_children rel ((name, n) # ns) =
     (case tar_walk (join_path rel name) n of
        Inl e \<Rightarrow> Inl e
      | Inr es \<Rightarrow> (case tar_walk_children rel ns of Inl e \<Rightarrow> Inl e | Inr es' \<Rightarrow> Inr (es @ es')))"

definition createTarball :: "fs_node \<Rightarrow> go_error + tar_entry list" where
  "createTarball dir = tar_walk ''.'' dir"

fun drain_build :: "string \<Rightarrow> (go_error + build_msg) list \<Rightarrow> docker_error option" where
  "drain_build buildLog [] = None"
| "drain_build buildLog (Inl e # ms) = Some (Wrapped ''reading build output'' e)"
| "drain_build buildLog (Inr msg # ms) =
     (let buildLog' = (if msg_Stream msg \<noteq> [] then buildLog @ msg_Stream msg else buildLog)
      in if msg_Error msg \<noteq> [] then Some (BuildFailed (msg_Error msg) buildLog') else drain_build buildLog' ms)"

definition BuildImage :: "'w docker \<Rightarrow> fs_node \<Rightarrow> string \<Rightarrow> ('w, docker_error, unit) io" where
  "BuildImage dk dir tag =
     (case createTarball dir of
        Inl e \<Rightarrow> fail_io (Wrapped ''create tarball'' e)
      | Inr tarBuf \<Rightarrow>
          bind_io (map_err (Wrapped ''image build'') (ImageBuild dk tarBuf tag)) (\<lambda>msgs.
            case drain_build [] msgs of None \<Rightarrow> return_io () | Some e \<Rightarrow> fail_io e))"

definition lower_char :: "char \<Rightarrow> char" where
  "lower_char c = (if 65 \<le> (of_char c :: nat) \<and> (of_char c :: nat) \<le> 90 then char_of (of_char c + 32 :: nat) else c)"

definition slug :: "string \<Rightarrow> string" where
  "slug name = map (\<lambda>c. if c = CHR '' '' then CHR ''-'' else c) (map lower_char name)"

definition ImageTag :: "string \<Rightarrow> string" where
  "ImageTag name = ''dl-benchmark-'' @ slug name"

definition ContainerName :: "string \<Rightarrow> string" where
  "ContainerName name = ''dl-bench-'' @ slug name"

subsection \<open>Containers\<close>

text \<open>\<^verbatim>\<open>strconv.Atoi\<close>: an optional sign and decimal digits, within the range of \<^verbatim>\<open>int\<close>.\<close>

definition Atoi :: "string \<Rightarrow> int option" where
  "Atoi s =
     (let neg = (s \<noteq> [] \<and> hd s = CHR ''-'');
          ds = (if s \<noteq> [] \<and> (hd s = CHR ''-'' \<or> hd s = CHR ''+'') then tl s else s);
          v = (if neg then - int (atoi_nat ds) else int (atoi_nat ds))
      in if ds \<noteq> [] \<and> list_all (\<lambda>c. 48 \<le> (of_char c :: nat) \<and> (of_char c :: nat) \<le> 57) ds \<and> - (2 ^ 63) \<le> v \<and> v < 2 ^ 63
         then Some v else None)"

definition millisecond :: int where
  "millisecond = 1000000"

fun poll_port ::
  "nat \<Rightarrow> 'w docker \<Rightarrow> 'w host \<Rightarrow> string \<Rightarrow> string \<Rightarrow> int \<Rightarrow> 'w \<Rightarrow> ('w \<times> (docker_error + string \<times> int)) option" where
  "poll_port 0 dk h cid portSpec deadline w = None"
| "poll_port (Suc fuel) dk h cid portSpec deadline w =
     (case ContainerInspect dk cid w of
        (w1, Inl e) \<Rightarrow> Some (w1, Inl (Wrapped ''container inspect'' e))
      | (w1, Inr ports) \<Rightarrow>
          (case ports portSpec of
             hostPort # _ \<Rightarrow>
               (case Atoi hostPort of
                  None \<Rightarrow> Some (w1, Inl (BadHostPort hostPort))
                | Some p \<Rightarrow> Some (w1, Inr (cid, p)))
           | [] \<Rightarrow>
               if clock h w1 > deadline then Some (w1, Inl (NoPortBinding portSpec))
               else (case pause h (100 * millisecond) w1 of
                       (w2, Inl e) \<Rightarrow> Some (w2, Inl (Cancelled e))
                     | (w2, Inr _) \<Rightarrow> poll_port fuel dk h cid portSpec deadline w2)))"

definition RunContainer ::
  "nat \<Rightarrow> 'w docker \<Rightarrow> 'w host \<Rightarrow> string \<Rightarrow> int \<Rightarrow> 'w \<Rightarrow> ('w \<times> (docker_error + string \<times> int)) option" where
  "RunContainer fuel dk h tag containerPort w =
     (let portSpec = fmt_d containerPort @ ''/tcp''
      in case ContainerCreate dk \<lparr>spec_Image = tag, spec_Port = portSpec, spec_HostIP = Some ''127.0.0.1'',
                                  spec_Network = None, spec_Name = []\<rparr> w of
           (w1, Inl e) \<Rightarrow> Some (w1, Inl (Wrapped ''container create'' e))
         | (w1, Inr cid) \<Rightarrow>
             (case ContainerStart dk cid w1 of
                (w2, Inl e) \<Rightarrow> Some (w2, Inl (Wrapped ''container start'' e))
              | (w2, Inr _) \<Rightarrow> poll_port fuel dk h cid portSpec (clock h w2 + 5000 * millisecond) w2))"

definition RunContainerOnNetwork ::
  "'w docker \<Rightarrow> string \<Rightarrow> int \<Rightarrow> string \<Rightarrow> string \<Rightarrow> ('w, docker_error, string) io" where
  "RunContainerOnNetwork dk tag containerPort networkName containerName w =
     (let (w0, _) = ContainerRemove dk containerName w
      in bind_io (map_err (Wrapped ''container create'') (ContainerCreate dk
           \<lparr>spec_Image = tag, spec_Port = fmt_d containerPort @ ''/tcp'', spec_HostIP = None,
            spec_Network = Some (networkName, containerName), spec_Name = containerName\<rparr>)) (\<lambda>cid.
         bind_io (map_err (Wrapped ''container start'') (ContainerStart dk cid)) (\<lambda>_. return_io cid)) w0)"

definition StopContainer :: "'w docker \<Rightarrow> string \<Rightarrow> ('w, docker_error, unit) io" where
  "StopContainer dk cid =
     bind_io (map_err (Wrapped ''container stop'') (ContainerStop dk cid)) (\<lambda>_.
       map_err (Wrapped ''container remove'') (ContainerRemove dk cid))"

subsection \<open>Waiting for the service\<close>

definition healthz_http :: http_request where
  "healthz_http = \<lparr>Method = ''GET'', Path = ''/healthz'', ReqBody = Empty\<rparr>"

definition maxDelay :: int where
  "maxDelay = 2000 * millisecond"

definition next_delay :: "int \<Rightarrow> int" where
  "next_delay d = f64_to_int (min (f64_of_int (d * 2)) (f64_of_int maxDelay))"

fun wait_healthy ::
  "nat \<Rightarrow> 'w sender \<Rightarrow> 'w host \<Rightarrow> int \<Rightarrow> int \<Rightarrow> int \<Rightarrow> 'w \<Rightarrow> ('w \<times> (docker_error + unit)) option" where
  "wait_healthy 0 send h timeoutMs deadline delay w = None"
| "wait_healthy (Suc fuel) send h timeoutMs deadline delay w =
     (if clock h w > deadline then Some (w, Inl (NotHealthy timeoutMs))
      else let (w1, res) = client_Do send healthz_http w
           in if (case res of Inr p \<Rightarrow> reply_Status p = StatusOK | Inl e \<Rightarrow> False) then Some (w1, Inr ())
              else (case pause h delay w1 of
                      (w2, Inl e) \<Rightarrow> Some (w2, Inl (Cancelled e))
                    | (w2, Inr _) \<Rightarrow> wait_healthy fuel send h timeoutMs deadline (next_delay delay) w2))"

text \<open>\<^verbatim>\<open>int64\<close> arithmetic: the product of two durations modulo \<^verbatim>\<open>2^64\<close>, read as a signed number.\<close>

definition int64 :: "int \<Rightarrow> int" where
  "int64 x = sint (word_of_int x :: 64 word)"

definition WaitHealthy :: "nat \<Rightarrow> 'w sender \<Rightarrow> 'w host \<Rightarrow> int \<Rightarrow> 'w \<Rightarrow> ('w \<times> (docker_error + unit)) option" where
  "WaitHealthy fuel send h timeoutMs w =
     wait_healthy fuel send h timeoutMs (clock h w + int64 (timeoutMs * millisecond)) (100 * millisecond) w"

subsection \<open>The network\<close>

definition CreateBenchmarkNetwork :: "'w docker \<Rightarrow> 'w host \<Rightarrow> ('w, docker_error, string \<times> string) io" where
  "CreateBenchmarkNetwork dk h w =
     (let name = ''dl-benchmark-'' @ fmt_d (clock h w div millisecond)
      in bind_io (map_err (Wrapped ''network create'') (NetworkCreate dk name)) (\<lambda>nid. return_io (nid, name)) w)"

definition RemoveNetwork :: "'w docker \<Rightarrow> string \<Rightarrow> ('w, docker_error, unit) io" where
  "RemoveNetwork dk networkID = map_err (Wrapped ''network remove'') (NetworkRemove dk networkID)"

definition ConnectSelfToNetwork :: "'w docker \<Rightarrow> string \<Rightarrow> string \<Rightarrow> ('w, docker_error, unit) io" where
  "ConnectSelfToNetwork dk hostname networkID =
     (if hostname = [] then fail_io HostnameUnset
      else map_err (Wrapped ''network connect self'') (NetworkConnect dk networkID hostname))"

subsection \<open>Lemmas on archives\<close>

text \<open>The node at a path of names below a directory.\<close>

fun node_at :: "fs_node \<Rightarrow> string list \<Rightarrow> fs_node option" where
  "node_at n [] = Some n"
| "node_at (Dir children) (name # path) =
     (case map_of children name of None \<Rightarrow> None | Some n \<Rightarrow> node_at n path)"
| "node_at n (name # path) = None"

definition path_name :: "string \<Rightarrow> string list \<Rightarrow> string" where
  "path_name rel path = foldl join_path rel path"

fun node_entry :: "string \<Rightarrow> fs_node \<Rightarrow> tar_entry" where
  "node_entry rel (File content) = \<lparr>hdr_Name = rel, hdr_Typeflag = TypeReg, hdr_Content = projr content\<rparr>"
| "node_entry rel (Symlink content) = \<lparr>hdr_Name = rel, hdr_Typeflag = TypeSymlink, hdr_Content = []\<rparr>"
| "node_entry rel (Device content) = \<lparr>hdr_Name = rel, hdr_Typeflag = TypeDevice, hdr_Content = []\<rparr>"
| "node_entry rel Socket = \<lparr>hdr_Name = rel, hdr_Typeflag = TypeReg, hdr_Content = []\<rparr>"
| "node_entry rel (Dir children) = \<lparr>hdr_Name = rel, hdr_Typeflag = TypeDir, hdr_Content = []\<rparr>"
| "node_entry rel (Unreadable e) = \<lparr>hdr_Name = rel, hdr_Typeflag = TypeReg, hdr_Content = []\<rparr>"

text \<open>The names in every directory are distinct.\<close>

fun tree_ok :: "fs_node \<Rightarrow> bool" and forest_ok :: "(string \<times> fs_node) list \<Rightarrow> bool" where
  "tree_ok (Dir children) \<longleftrightarrow> distinct (map fst children) \<and> forest_ok children"
| "tree_ok n \<longleftrightarrow> True"
| "forest_ok [] \<longleftrightarrow> True"
| "forest_ok ((name, n) # ns) \<longleftrightarrow> tree_ok n \<and> forest_ok ns"

definition subtree_entries :: "string \<Rightarrow> fs_node \<Rightarrow> tar_entry set" where
  "subtree_entries rel n = {node_entry (path_name rel path) m | path m. node_at n path = Some m}"

lemma node_at_leaf: "(\<And>children. n \<noteq> Dir children) \<Longrightarrow> node_at n path = Some m \<longleftrightarrow> path = [] \<and> m = n"
  by (cases n; cases path) auto

lemma subtree_entries_leaf: "(\<And>children. n \<noteq> Dir children) \<Longrightarrow> subtree_entries rel n = {node_entry rel n}"
  by (auto simp: subtree_entries_def node_at_leaf path_name_def)

lemma subtree_entries_Dir:
  assumes "distinct (map fst children)"
  shows "subtree_entries rel (Dir children) =
    insert (node_entry rel (Dir children)) (\<Union>(name, n) \<in> set children. subtree_entries (join_path rel name) n)"
proof (intro set_eqI iffI)
  fix x
  assume "x \<in> subtree_entries rel (Dir children)"
  then obtain path m where x: "x = node_entry (path_name rel path) m" "node_at (Dir children) path = Some m"
    by (auto simp: subtree_entries_def)
  show "x \<in> insert (node_entry rel (Dir children)) (\<Union>(name, n) \<in> set children. subtree_entries (join_path rel name) n)"
  proof (cases path)
    case Nil
    with x show ?thesis by (simp add: path_name_def)
  next
    case (Cons name rest)
    with x obtain n where n: "map_of children name = Some n" "node_at n rest = Some m" by (auto split: option.splits)
    have "x = node_entry (path_name (join_path rel name) rest) m" using x Cons by (simp add: path_name_def)
    then have "x \<in> subtree_entries (join_path rel name) n" using n by (auto simp: subtree_entries_def)
    then show ?thesis using map_of_SomeD [OF n(1)] by auto
  qed
next
  fix x
  assume "x \<in> insert (node_entry rel (Dir children)) (\<Union>(name, n) \<in> set children. subtree_entries (join_path rel name) n)"
  then consider "x = node_entry rel (Dir children)"
    | name n where "(name, n) \<in> set children" "x \<in> subtree_entries (join_path rel name) n" by auto
  then show "x \<in> subtree_entries rel (Dir children)"
  proof cases
    case 1
    then show ?thesis by (auto simp: subtree_entries_def path_name_def intro!: exI [of _ "[]"])
  next
    case 2
    then obtain path m where p: "x = node_entry (path_name (join_path rel name) path) m" "node_at n path = Some m"
      by (auto simp: subtree_entries_def)
    moreover have "map_of children name = Some n" using assms 2(1) by simp
    ultimately have "x = node_entry (path_name rel (name # path)) m" "node_at (Dir children) (name # path) = Some m"
      by (simp_all add: path_name_def)
    then show ?thesis unfolding subtree_entries_def by blast
  qed
qed

lemma tar_walk_entries:
  "tree_ok n \<Longrightarrow> tar_walk rel n = Inr es \<Longrightarrow> set es = subtree_entries rel n"
  "forest_ok ns \<Longrightarrow> tar_walk_children rel ns = Inr es \<Longrightarrow>
     set es = (\<Union>(name, n) \<in> set ns. subtree_entries (join_path rel name) n)"
proof (induction rel n and rel ns arbitrary: es and es rule: tar_walk_tar_walk_children.induct)
  case (2 rel content)
  then show ?case by (auto simp: subtree_entries_leaf split: sum.splits)
next
  case (3 rel content)
  then show ?case by (auto simp: subtree_entries_leaf copy_into_empty_def split: sum.splits if_splits)
next
  case (4 rel content)
  then show ?case by (auto simp: subtree_entries_leaf copy_into_empty_def split: sum.splits if_splits)
next
  case (6 rel children)
  then show ?case by (auto simp: subtree_entries_Dir split: sum.splits)
next
  case (8 rel name n ns)
  then obtain es1 es2 where es: "tar_walk (join_path rel name) n = Inr es1" "tar_walk_children rel ns = Inr es2"
    "es = es1 @ es2" by (auto split: sum.splits)
  with 8 show ?case by simp
qed simp_all

text \<open>What can be archived: directories, readable files, and links and devices from which nothing is
  read. In particular a link to a file with content makes the whole archive fail.\<close>

fun archivable :: "fs_node \<Rightarrow> bool" where
  "archivable (File content) \<longleftrightarrow> \<not> isl content"
| "archivable (Dir children) \<longleftrightarrow> True"
| "archivable (Symlink content) \<longleftrightarrow> content = Inr []"
| "archivable (Device content) \<longleftrightarrow> content = Inr []"
| "archivable n \<longleftrightarrow> False"

lemma tar_walk_child_fails:
  "(name, n) \<in> set ns \<Longrightarrow> tar_walk (join_path rel name) n = Inl e \<Longrightarrow> \<exists>e'. tar_walk_children rel ns = Inl e'"
  by (induction ns) (auto split: sum.splits)

lemma tar_walk_fails:
  "node_at n path = Some m \<Longrightarrow> \<not> archivable m \<Longrightarrow> \<exists>e. tar_walk rel n = Inl e"
proof (induction n path arbitrary: rel rule: node_at.induct)
  case (1 n)
  then show ?case by (cases n) (auto simp: copy_into_empty_def isl_def split: sum.splits)
next
  case (2 children name path)
  then obtain n where n: "map_of children name = Some n" "node_at n path = Some m" by (auto split: option.splits)
  from 2(1) [OF n 2(3)] obtain e where "tar_walk (join_path rel name) n = Inl e" by blast
  from tar_walk_child_fails [OF map_of_SomeD [OF n(1)] this] show ?case by auto
qed simp_all

lemma createTarball_rejects:
  "node_at dir path = Some n \<Longrightarrow> \<not> archivable n \<Longrightarrow> \<exists>e. createTarball dir = Inl e"
  unfolding createTarball_def by (rule tar_walk_fails)

subsection \<open>Lemmas on polling\<close>

lemma int64_id: "- (2 ^ 63) \<le> x \<Longrightarrow> x < 2 ^ 63 \<Longrightarrow> int64 x = x"
  by (simp add: int64_def sint_sbintrunc' signed_take_bit_int_eq_self)

text \<open>A manifest's timeout of at most 9223372036854 ms is the duration it says; a larger one wraps.\<close>

lemma int64_timeout: "\<bar>ms\<bar> \<le> 9223372036854 \<Longrightarrow> int64 (ms * millisecond) = ms * millisecond"
  by (rule int64_id) (simp_all add: millisecond_def)

lemma int64_wraps: "int64 (- 9223372036855 * millisecond) = 9223372036854551616"
  by (simp add: int64_def millisecond_def)

text \<open>What the polling loops rely on: waiting advances the clock by at least the time asked for, and the
  calls in between do not set it back.\<close>

definition pause_advances :: "'w host \<Rightarrow> bool" where
  "pause_advances h \<longleftrightarrow> (\<forall>d w w' u. pause h d w = (w', Inr u) \<longrightarrow> clock h w + d \<le> clock h w')"

definition inspect_forward :: "'w docker \<Rightarrow> 'w host \<Rightarrow> bool" where
  "inspect_forward dk h \<longleftrightarrow> (\<forall>cid w. clock h w \<le> clock h (fst (ContainerInspect dk cid w)))"

definition send_forward :: "'w sender \<Rightarrow> 'w host \<Rightarrow> bool" where
  "send_forward send h \<longleftrightarrow> (\<forall>w r. clock h w \<le> clock h (fst (send w r)))"

lemma poll_port_returns:
  assumes h: "pause_advances h" "inspect_forward dk h"
  shows "deadline - clock h w < (int fuel - 1) * (100 * millisecond) \<Longrightarrow> 0 < fuel \<Longrightarrow>
    poll_port fuel dk h cid portSpec deadline w \<noteq> None"
proof (induction fuel arbitrary: w)
  case (Suc f)
  obtain w1 r where w1: "ContainerInspect dk cid w = (w1, r)" by fastforce
  then have fwd: "clock h w \<le> clock h w1" using h(2) by (metis inspect_forward_def fst_conv)
  have continues: "poll_port f dk h cid portSpec deadline w2 \<noteq> None"
    if "\<not> deadline < clock h w1" "pause h (100 * millisecond) w1 = (w2, Inr u)" for w2 u
  proof (rule Suc.IH)
    have adv: "clock h w1 + 100 * millisecond \<le> clock h w2" using h(1) that(2) unfolding pause_advances_def by blast
    have lim: "deadline - clock h w < int f * (100 * millisecond)" using Suc.prems(1) by simp
    then show "deadline - clock h w2 < (int f - 1) * (100 * millisecond)"
      using adv fwd by (simp add: left_diff_distrib)
    have "0 < int f * (100 * millisecond)" using lim that(1) fwd by linarith
    then show "0 < f" by (simp add: zero_less_mult_iff)
  qed
  show ?case using w1 continues by (auto split: sum.splits list.splits prod.splits option.splits)
qed simp

lemma next_delay_min: "0 \<le> d \<Longrightarrow> d \<le> maxDelay \<Longrightarrow> next_delay d = min (2 * d) maxDelay"
proof -
  assume d: "0 \<le> d" "d \<le> maxDelay"
  then have "f64_of_int (d * 2) = of_int (d * 2)" "f64_of_int maxDelay = of_int maxDelay"
    unfolding f64_of_int_def by (intro f64.rnd_int; simp add: maxDelay_def millisecond_def)+
  moreover have "min (of_int (d * 2)) (of_int maxDelay :: rat) = of_int (min (2 * d) maxDelay)"
    by (simp add: min_def)
  ultimately have "next_delay d = f64_to_int (of_int (min (2 * d) maxDelay))"
    unfolding next_delay_def by (simp only:)
  also have "\<dots> = min (2 * d) maxDelay" unfolding f64_to_int_def floor_of_int ceiling_of_int by simp
  finally show ?thesis .
qed

lemma next_delay_bounds:
  "100 * millisecond \<le> d \<Longrightarrow> d \<le> maxDelay \<Longrightarrow> 100 * millisecond \<le> next_delay d \<and> next_delay d \<le> maxDelay"
  by (subst (1 2) next_delay_min) (auto simp: maxDelay_def millisecond_def)

lemma client_Do_fst: "fst (client_Do send r w) = fst (send w r)"
  by (simp add: client_Do_def split: prod.splits sum.splits)

lemma wait_healthy_returns:
  assumes h: "pause_advances h" "send_forward send h"
  shows "deadline - clock h w < (int fuel - 1) * (100 * millisecond) \<Longrightarrow> 0 < fuel \<Longrightarrow>
    100 * millisecond \<le> delay \<Longrightarrow> delay \<le> maxDelay \<Longrightarrow> wait_healthy fuel send h t deadline delay w \<noteq> None"
proof (induction fuel arbitrary: w delay)
  case (Suc f)
  obtain w1 r where w1: "client_Do send healthz_http w = (w1, r)" by fastforce
  then have fwd: "clock h w \<le> clock h w1" using h(2) client_Do_fst by (metis send_forward_def fst_conv)
  have continues: "wait_healthy f send h t deadline (next_delay delay) w2 \<noteq> None"
    if "\<not> deadline < clock h w" "pause h delay w1 = (w2, Inr u)" for w2 u
  proof (rule Suc.IH)
    have adv: "clock h w1 + delay \<le> clock h w2" using h(1) that(2) unfolding pause_advances_def by blast
    have lim: "deadline - clock h w < int f * (100 * millisecond)" using Suc.prems(1) by simp
    then show "deadline - clock h w2 < (int f - 1) * (100 * millisecond)"
      using adv fwd Suc.prems(3) by (simp add: left_diff_distrib)
    have "0 < int f * (100 * millisecond)" using lim that(1) by linarith
    then show "0 < f" by (simp add: zero_less_mult_iff)
  qed (use next_delay_bounds Suc.prems in auto)
  show ?case using w1 continues by (auto split: sum.splits prod.splits)
qed simp

lemma wait_healthy_sound:
  "wait_healthy fuel send h t deadline delay w = Some (w', Inr u) \<Longrightarrow>
     \<exists>w0 p. client_Do send healthz_http w0 = (w', Inr p) \<and> reply_Status p = StatusOK"
proof (induction fuel arbitrary: w delay)
  case (Suc f)
  obtain w1 r where w1: "client_Do send healthz_http w = (w1, r)" by fastforce
  show ?case
  proof (cases "\<exists>p. r = Inr p \<and> reply_Status p = StatusOK")
    case True
    with Suc.prems w1 show ?thesis by (auto split: if_splits)
  next
    case False
    with Suc w1 show ?thesis by (fastforce split: if_splits sum.splits prod.splits)
  qed
qed simp

lemma drain_build_ok: "drain_build l ms = None \<longleftrightarrow> list_all (\<lambda>m. \<exists>msg. m = Inr msg \<and> msg_Error msg = []) ms"
  by (induction l ms rule: drain_build.induct) (auto simp: Let_def)

lemma drain_build_prefix:
  "list_all (\<lambda>msg. msg_Error msg = []) pre \<Longrightarrow>
     drain_build l (map Inr pre @ ms) = drain_build (l @ concat (map msg_Stream pre)) ms"
  by (induction pre arbitrary: l) auto

text \<open>Containers that exist after the calls of \<^verbatim>\<open>RunContainer\<close>, for an engine in which starting and
  inspecting a container, and waiting, remove none.\<close>

definition removes_none :: "'w docker \<Rightarrow> 'w host \<Rightarrow> ('w \<Rightarrow> string set) \<Rightarrow> bool" where
  "removes_none dk h containers \<longleftrightarrow>
     (\<forall>cid w. containers w \<subseteq> containers (fst (ContainerStart dk cid w))) \<and>
     (\<forall>cid w. containers w \<subseteq> containers (fst (ContainerInspect dk cid w))) \<and>
     (\<forall>d w. containers w \<subseteq> containers (fst (pause h d w)))"

lemma poll_port_containers:
  assumes none: "removes_none dk h containers"
  shows "poll_port fuel dk h cid portSpec deadline w = Some (w', r) \<Longrightarrow> containers w \<subseteq> containers w'"
proof (induction fuel arbitrary: w)
  case (Suc f)
  obtain w1 r1 where w1: "ContainerInspect dk cid w = (w1, r1)" by fastforce
  obtain w2 r2 where w2: "pause h (100 * millisecond) w1 = (w2, r2)" by fastforce
  have "containers w \<subseteq> containers w1" "containers w1 \<subseteq> containers w2"
    using none w1 w2 unfolding removes_none_def by (metis fst_conv)+
  moreover have "w' = w1 \<or> w' = w2 \<or> poll_port f dk h cid portSpec deadline w2 = Some (w', r)"
    using Suc.prems w1 w2 by (auto split: sum.splits list.splits if_splits option.splits)
  ultimately show ?case using Suc.IH by blast
qed simp

subsection \<open>Properties\<close>

text \<open>C31. The build context is the whole solution directory: when the archive can be built, its entries are
  exactly the directories, files, links and devices of the tree, each under its slash-separated path
  relative to the directory, with its type and its content.\<close>

theorem createTarball_complete:
  assumes "tree_ok dir" and "createTarball dir = Inr es"
  shows "set es = {node_entry (path_name ''.'' path) n | path n. node_at dir path = Some n}"
  using tar_walk_entries(1) [OF assms(1) assms(2) [unfolded createTarball_def]] by (simp add: subtree_entries_def)

theorem createTarball_complete_witness:
  "{\<lparr>hdr_Name = ''.'', hdr_Typeflag = TypeDir, hdr_Content = []\<rparr>,
    \<lparr>hdr_Name = ''Dockerfile'', hdr_Typeflag = TypeReg, hdr_Content = ''FROM scratch''\<rparr>,
    \<lparr>hdr_Name = ''src'', hdr_Typeflag = TypeDir, hdr_Content = []\<rparr>,
    \<lparr>hdr_Name = ''src/main.go'', hdr_Typeflag = TypeReg, hdr_Content = ''package main''\<rparr>} =
   {node_entry (path_name ''.'' path) n | path n.
      node_at (Dir [(''Dockerfile'', File (Inr ''FROM scratch'')), (''src'', Dir [(''main.go'', File (Inr ''package main''))])])
        path = Some n}"
  using createTarball_complete [of "Dir [(''Dockerfile'', File (Inr ''FROM scratch'')),
      (''src'', Dir [(''main.go'', File (Inr ''package main''))])]"]
  by (simp add: createTarball_def join_path_def)

text \<open>C29. Waiting for a service ends whenever waiting advances the clock, with fuel for one poll per 100 ms
  of the duration that the code computes from the timeout, the product with a millisecond in 64-bit
  arithmetic, and two more; it reports success only if the service's last answer was 200.\<close>

theorem WaitHealthy_correct:
  assumes "pause_advances h" and "send_forward send h"
  shows "\<exists>w' r. WaitHealthy (nat (int64 (timeoutMs * millisecond) div (100 * millisecond)) + 2) send h timeoutMs w = Some (w', r) \<and>
    (r = Inr () \<longrightarrow> (\<exists>w0 p. client_Do send healthz_http w0 = (w', Inr p) \<and> reply_Status p = StatusOK))"
proof -
  let ?d = "int64 (timeoutMs * millisecond)" and ?step = "100 * millisecond"
  let ?fuel = "nat (?d div ?step) + 2"
  have "?d < (?d div ?step + 1) * ?step" unfolding millisecond_def by presburger
  also have "\<dots> \<le> (int ?fuel - 1) * ?step" unfolding millisecond_def by simp
  finally have "WaitHealthy ?fuel send h timeoutMs w \<noteq> None"
    unfolding WaitHealthy_def by (intro wait_healthy_returns [OF assms]) (simp_all add: maxDelay_def millisecond_def)
  then obtain w' r where run: "WaitHealthy ?fuel send h timeoutMs w = Some (w', r)" by auto
  then show ?thesis using wait_healthy_sound unfolding WaitHealthy_def by (cases r) fastforce+
qed

theorem WaitHealthy_correct_witness:
  "\<exists>w' r. WaitHealthy 102 (\<lambda>w q. (w, Inl [OtherErr ''connection refused'']))
     \<lparr>clock = (\<lambda>w. w), pause = (\<lambda>d w. (w + d, Inr ()))\<rparr> 10000 0 = Some (w', r)"
  using WaitHealthy_correct [of "\<lparr>clock = (\<lambda>w. w), pause = (\<lambda>d w. (w + d, Inr ()))\<rparr>"
      "\<lambda>w q. (w, Inl [OtherErr ''connection refused''])" 10000 0]
  by (auto simp: pause_advances_def send_forward_def int64_def millisecond_def)

text \<open>\<open>RunContainer\<close> does not poll forever: 52 inspections, one per 100 ms of its five seconds and a
  last one, are enough for it to return a port or an error.\<close>

lemma RunContainer_returns:
  assumes "pause_advances h" and "inspect_forward dk h"
  shows "\<exists>w' r. RunContainer 52 dk h tag port w = Some (w', r)"
proof -
  have "poll_port 52 dk h cid spec (clock h w2 + 5000 * millisecond) w2 \<noteq> None" for cid spec w2
    by (rule poll_port_returns [OF assms]) (simp_all add: millisecond_def)
  then show ?thesis unfolding RunContainer_def Let_def
    by (auto split: prod.splits sum.splits simp del: poll_port.simps)
qed

definition idle_engine :: "int docker" where
  "idle_engine = \<lparr>ImageBuild = (\<lambda>es tag w. (w, Inr [])), ContainerCreate = (\<lambda>spec w. (w, Inr ''c1'')),
     ContainerStart = (\<lambda>cid w. (w, Inr ())), ContainerInspect = (\<lambda>cid w. (w, Inr (\<lambda>port. []))),
     ContainerStop = (\<lambda>cid w. (w, Inr ())), ContainerRemove = (\<lambda>cid w. (w, Inr ())),
     NetworkCreate = (\<lambda>name w. (w, Inr ''n1'')), NetworkRemove = (\<lambda>nid w. (w, Inr ())),
     NetworkConnect = (\<lambda>nid host w. (w, Inr ()))\<rparr>"

definition sleeping_host :: "int host" where
  "sleeping_host = \<lparr>clock = (\<lambda>w. w), pause = (\<lambda>d w. (w + d, Inr ()))\<rparr>"

lemma RunContainer_returns_instance:
  "\<exists>w' r. RunContainer 52 idle_engine sleeping_host ''dl-benchmark-go'' 8080 0 = Some (w', r)"
  by (rule RunContainer_returns) (simp_all add: pause_advances_def inspect_forward_def idle_engine_def sleeping_host_def)

text \<open>C30. When \<open>RunContainer\<close> fails after the container was created (it cannot be started, has no port
  binding, or its port cannot be read), the created container still exists: no path removes it, and
  the caller gets no identifier to remove it with.\<close>

theorem RunContainer_failure_leaves_container:
  assumes "removes_none dk h containers"
    and "ContainerCreate dk \<lparr>spec_Image = tag, spec_Port = fmt_d port @ ''/tcp'', spec_HostIP = Some ''127.0.0.1'',
           spec_Network = None, spec_Name = []\<rparr> w = (w1, Inr cid)"
    and "cid \<in> containers w1" and "RunContainer fuel dk h tag port w = Some (w', Inl e)"
  shows "cid \<in> containers w'"
proof -
  obtain w2 r where w2: "ContainerStart dk cid w1 = (w2, r)" by fastforce
  then have "cid \<in> containers w2" using assms(1,3) unfolding removes_none_def by (metis fst_conv subsetD)
  moreover have "w' = w2 \<or> (\<exists>d. poll_port fuel dk h cid (fmt_d port @ ''/tcp'') d w2 = Some (w', Inl e))"
    using assms(2,4) w2 by (auto simp: RunContainer_def Let_def split: sum.splits)
  ultimately show ?thesis using poll_port_containers [OF assms(1)] by blast
qed

text \<open>An engine whose state is the set of its containers and whose containers do not start.\<close>

definition stuck_engine :: "string set docker" where
  "stuck_engine = \<lparr>ImageBuild = (\<lambda>es tag w. (w, Inr [])), ContainerCreate = (\<lambda>spec w. (insert ''c1'' w, Inr ''c1'')),
     ContainerStart = (\<lambda>cid w. (w, Inl [OtherErr ''port is already allocated''])),
     ContainerInspect = (\<lambda>cid w. (w, Inr (\<lambda>port. []))),
     ContainerStop = (\<lambda>cid w. (w, Inr ())), ContainerRemove = (\<lambda>cid w. (w - {cid}, Inr ())),
     NetworkCreate = (\<lambda>name w. (w, Inr ''n1'')), NetworkRemove = (\<lambda>nid w. (w, Inr ())),
     NetworkConnect = (\<lambda>nid host w. (w, Inr ()))\<rparr>"

theorem RunContainer_failure_leaves_container_witness:
  "\<exists>w' e. RunContainer 1 stuck_engine \<lparr>clock = (\<lambda>w. 0), pause = (\<lambda>d w. (w, Inr ()))\<rparr> ''dl-benchmark-go'' 8080 {} =
     Some (w', Inl e) \<and> ''c1'' \<in> w'"
proof -
  let ?h = "\<lparr>clock = (\<lambda>w. 0), pause = (\<lambda>d w. (w, Inr ()))\<rparr> :: string set host"
  have run: "\<exists>e. RunContainer 1 stuck_engine ?h ''dl-benchmark-go'' 8080 {} = Some ({''c1''}, Inl e)"
    by (simp add: RunContainer_def stuck_engine_def)
  have "removes_none stuck_engine ?h (\<lambda>w. w)" by (auto simp: removes_none_def stuck_engine_def)
  then show ?thesis
    using run RunContainer_failure_leaves_container [of stuck_engine ?h "\<lambda>w. w" "''dl-benchmark-go''" 8080 "{}" "{''c1''}" "''c1''" 1]
    by (fastforce simp: stuck_engine_def)
qed

text \<open>C32. A failed build is reported with its log: when the engine sends an error message, \<open>BuildImage\<close>
  returns that error together with the output of all messages up to it; it succeeds exactly when
  the archive can be built, the call succeeds and no message carries an error.\<close>

theorem BuildImage_outcome:
  assumes "createTarball dir = Inr tarBuf" and "ImageBuild dk tarBuf tag w = (w', Inr msgs)"
  shows "(BuildImage dk dir tag w = (w', Inr ()) \<longleftrightarrow> list_all (\<lambda>m. \<exists>msg. m = Inr msg \<and> msg_Error msg = []) msgs) \<and>
    (\<forall>pre msg post. msgs = map Inr pre @ Inr msg # post \<and> list_all (\<lambda>m. msg_Error m = []) pre \<and> msg_Error msg \<noteq> [] \<longrightarrow>
       BuildImage dk dir tag w = (w', Inl (BuildFailed (msg_Error msg) (concat (map msg_Stream (pre @ [msg]))))))"
proof -
  have run: "BuildImage dk dir tag w = (w', case drain_build [] msgs of None \<Rightarrow> Inr () | Some e \<Rightarrow> Inl e)"
    using assms by (simp add: BuildImage_def split: option.splits)
  have fails: "BuildImage dk dir tag w = (w', Inl (BuildFailed (msg_Error msg) (concat (map msg_Stream (pre @ [msg])))))"
    if "msgs = map Inr pre @ Inr msg # post \<and> list_all (\<lambda>m. msg_Error m = []) pre \<and> msg_Error msg \<noteq> []" for pre msg post
  proof -
    have "drain_build [] msgs = Some (BuildFailed (msg_Error msg) (concat (map msg_Stream (pre @ [msg]))))"
      using that by (simp add: drain_build_prefix)
    then show ?thesis by (simp only: run option.case)
  qed
  have "BuildImage dk dir tag w = (w', Inr ()) \<longleftrightarrow> drain_build [] msgs = None"
    unfolding run by (cases "drain_build [] msgs") simp_all
  from this [unfolded drain_build_ok] show ?thesis by (rule conjI) (intro allI impI, rule fails)
qed

theorem BuildImage_outcome_witness:
  "BuildImage (idle_engine\<lparr>ImageBuild := (\<lambda>es tag w. (w, Inr
       [Inr \<lparr>msg_Stream = ''Step 1'', msg_Error = []\<rparr>, Inr \<lparr>msg_Stream = [], msg_Error = ''no such file''\<rparr>]))\<rparr>)
     (Dir []) ''dl-benchmark-go'' 0 = (0, Inl (BuildFailed ''no such file'' ''Step 1''))"
proof -
  let ?m1 = "\<lparr>msg_Stream = ''Step 1'', msg_Error = []\<rparr>" and ?m2 = "\<lparr>msg_Stream = [], msg_Error = ''no such file''\<rparr>"
  have tar: "createTarball (Dir []) = Inr [\<lparr>hdr_Name = ''.'', hdr_Typeflag = TypeDir, hdr_Content = []\<rparr>]"
    by (simp add: createTarball_def)
  have call: "ImageBuild (idle_engine\<lparr>ImageBuild := (\<lambda>es tag w. (w, Inr [Inr ?m1, Inr ?m2]))\<rparr>)
      [\<lparr>hdr_Name = ''.'', hdr_Typeflag = TypeDir, hdr_Content = []\<rparr>] ''dl-benchmark-go'' 0 = (0, Inr [Inr ?m1, Inr ?m2])"
    by simp
  have msgs: "[Inr ?m1, Inr ?m2] = map Inr [?m1] @ Inr ?m2 # [] \<and> list_all (\<lambda>m. msg_Error m = []) [?m1] \<and>
      msg_Error ?m2 \<noteq> []" by simp
  have "BuildImage (idle_engine\<lparr>ImageBuild := (\<lambda>es tag w. (w, Inr [Inr ?m1, Inr ?m2]))\<rparr>) (Dir []) ''dl-benchmark-go'' 0 =
      (0, Inl (BuildFailed (msg_Error ?m2) (concat (map msg_Stream ([?m1] @ [?m2])))))"
    by (rule BuildImage_outcome [OF tar call, THEN conjunct2, THEN spec, THEN spec, THEN spec, THEN mp, OF msgs])
  then show ?thesis by simp
qed

end
