(* ===== verification/Bench_World.thy ===== *)
theory Bench_World
  imports Bench_Docker
begin

text \<open>
  What the benchmark leaves alone. Everything the program does to the outside world goes through the
  calls it is given: the service, the Docker engine, the clock. A predicate \<open>J\<close> on the world that each
  of these calls keeps is kept by the validation, by whole scenarios and by the polling loops. The
  rules for \<open>keeps_io\<close> follow the sequencing of calls; for the workers of a phase they are an
  instance of \<open>phase_invariant\<close>.
\<close>

named_theorems keeps

definition keeps_io :: "('w \<Rightarrow> bool) \<Rightarrow> ('w, 'e, 'a) io \<Rightarrow> bool" where
  "keeps_io J m \<longleftrightarrow> (\<forall>w. J w \<longrightarrow> J (fst (m w)))"

definition keeps_send :: "('w \<Rightarrow> bool) \<Rightarrow> 'w sender \<Rightarrow> bool" where
  "keeps_send J send \<longleftrightarrow> (\<forall>w r. J w \<longrightarrow> J (fst (send w r)))"

subsection \<open>Sequences of calls\<close>

lemma keeps_ioD: "keeps_io J m \<Longrightarrow> J w \<Longrightarrow> m w = (w', r) \<Longrightarrow> J w'"
  unfolding keeps_io_def by (metis fst_conv)

lemma keeps_io_fst: "keeps_io J m \<Longrightarrow> J w \<Longrightarrow> J (fst (m w))"
  by (simp add: keeps_io_def)

lemma keeps_return [keeps]: "keeps_io J (return_io a)"
  by (simp add: keeps_io_def)

lemma keeps_fail [keeps]: "keeps_io J (fail_io e)"
  by (simp add: keeps_io_def)

lemma keeps_check [keeps]: "keeps_io J (check_io b e)"
  by (cases b) (simp_all add: keeps_io_def)

lemma keeps_map_err [keeps]: "keeps_io J m \<Longrightarrow> keeps_io J (map_err f m)"
  by (auto simp: keeps_io_def map_err_def split: prod.splits sum.splits)

lemma keeps_bind [keeps]: "keeps_io J m \<Longrightarrow> (\<And>a. keeps_io J (f a)) \<Longrightarrow> keeps_io J (bind_io m f)"
  by (fastforce simp: keeps_io_def bind_io_def split: prod.splits sum.splits)

lemma keeps_option [keeps]:
  "keeps_io J m \<Longrightarrow> (\<And>a. keeps_io J (f a)) \<Longrightarrow> keeps_io J (case x of None \<Rightarrow> m | Some a \<Rightarrow> f a)"
  by (cases x) simp_all

lemma keeps_sum [keeps]:
  "(\<And>e. keeps_io J (f e)) \<Longrightarrow> (\<And>a. keeps_io J (g a)) \<Longrightarrow> keeps_io J (case x of Inl e \<Rightarrow> f e | Inr a \<Rightarrow> g a)"
  by (cases x) simp_all

lemma keeps_prod [keeps]: "(\<And>a b. keeps_io J (f a b)) \<Longrightarrow> keeps_io J (case x of (a, b) \<Rightarrow> f a b)"
  by (cases x) simp

subsection \<open>Requests\<close>

lemma keeps_client_Do [keeps]: "keeps_send J send \<Longrightarrow> keeps_io J (client_Do send r)"
  by (simp add: keeps_io_def keeps_send_def client_Do_fst)

lemma keeps_client_DoCtx [keeps]: "keeps_send J send \<Longrightarrow> keeps_io J (client_DoCtx ctx send r)"
  unfolding client_DoCtx_def by (intro keeps)

lemma keeps_readAll [keeps]: "keeps_io J (readAll p)"
  unfolding readAll_def by (intro keeps)

lemma keeps_requests [keeps]:
  assumes "keeps_send J send"
  shows "keeps_io J (sendLock send k a f)" "keeps_io J (sendUnlock send k a)" "keeps_io J (findLockSince send k)"
    "keeps_io J (postLock ctx send k a f)" "keeps_io J (deleteLock ctx send k a)"
  unfolding sendLock_def sendUnlock_def findLockSince_def postLock_def deleteLock_def by (intro keeps assms)+

lemma keeps_net_send [keeps]: "keeps_send J send \<Longrightarrow> keeps_send J (net_send ctx send n)"
  by (auto simp: keeps_send_def net_send_def split: net.splits option.splits)

lemma keeps_validate [keeps]:
  assumes "keeps_send J send"
  shows "keeps_io J (validateSpec send)"
proof -
  have unlisted: "keeps_io J (validate_unlisted send)"
    using keeps_requests(3) [OF assms, of validate_key]
    by (auto simp: keeps_io_def validate_unlisted_def split: prod.splits sum.splits)
  show ?thesis unfolding validateSpec_def validate_lock_def by (intro keeps assms unlisted)
qed

subsection \<open>Scenarios\<close>

lemma worker_step_keeps:
  assumes "keeps_send J send" "J (world b)" "worker_step w send t pc b = (pc', b')"
  shows "J (world b')"
  using assms(2,3)
  by (cases pc) (auto simp: split_beta Let_def keeps_io_fst [OF keeps_requests(4) [OF assms(1)]]
      keeps_io_fst [OF keeps_requests(5) [OF assms(1)]] split: if_splits)

lemma reader_step_keeps:
  assumes "keeps_send J send" "J (world b)" "reader_step send t pc b = (pc', b')"
  shows "J (world b')"
  using assms(2,3)
  by (cases pc) (auto simp: split_beta Let_def keeps_io_fst [OF keeps_client_DoCtx [OF assms(1)]]
      keeps_io_fst [OF keeps_client_Do [OF assms(1)]] split: if_splits)

lemma keeps_phase:
  assumes "keeps_send J send"
  shows "phase_invariant send (\<lambda>n. True) (\<lambda>b ps. J (world b))"
proof unfold_locales
  fix b :: "'a bench" and ps j n t p' b'
  assume b: "J (world b)" and step: "proc_step (net_send (ctx_error b) send n) t (ps ! j) b = (p', b')"
  have send: "keeps_send J (net_send (ctx_error b) send n)" by (rule keeps_net_send [OF assms])
  show "J (world b')" using step worker_step_keeps [OF send b] reader_step_keeps [OF send b]
    by (cases "ps ! j") (auto split: prod.splits)
qed simp

lemma runPhase_keeps:
  assumes "keeps_send J send" "J (world b)" "runPhase send ps evs b = PhaseDone b' \<or> runPhase send ps evs b = PhaseAborted c b'"
  shows "J (world b')"
proof -
  obtain b1 ps1 where run: "phase_run send evs (b\<lparr>timed_out := False\<rparr>, ps) = (b1, ps1)" by fastforce
  then have "J (world b1)" using phase_invariant.run_keeps [OF keeps_phase [OF assms(1)], of "b\<lparr>timed_out := False\<rparr>"] assms(2) by simp
  moreover have "b' = b1" using assms(3) run by (auto simp: runPhase_def split: if_splits option.splits)
  ultimately show ?thesis by simp
qed

lemma keeps_leak_check: "keeps_send J send \<Longrightarrow> J w \<Longrightarrow> J (fst (checkLeakedLocks send w))"
  using keeps_ioD [OF keeps_client_Do [of J send locks_http]]
  by (auto simp: checkLeakedLocks_def readAll_def split: prod.splits sum.splits option.splits)

lemma measure_load_keeps:
  assumes send: "keeps_send J send" and "J (world b)" "measure_load send i procs env b = Returns r c w'"
  shows "J w'"
proof -
  note phase = runPhase_keeps [OF send assms(2)] and leak = keeps_leak_check [OF keeps_net_send [OF send]]
  show ?thesis
  proof (cases "runPhase send procs (measure_events env) b")
    case (PhaseDone b')
    then obtain l where "checkLeakedLocks (net_send None send (leak_net env)) (world b') = (w', l)"
      using assms(3) by (auto simp: measure_load_def split: prod.splits option.splits)
    with leak [of "world b'"] phase PhaseDone show ?thesis by (metis fst_conv)
  qed (use assms(3) phase in \<open>auto simp: measure_load_def\<close>)
qed

lemma run_load_keeps:
  assumes send: "keeps_send J send" and "J w" "run_load send i procs warmup env w = Returns r c w'"
  shows "J w'"
proof -
  have w: "J (world (new_bench w))" using assms(2) by (simp add: new_bench_def)
  note phase = runPhase_keeps [OF send w, of procs "warm_events env"]
  show ?thesis
  proof (cases "0 < warmup")
    case True
    show ?thesis
    proof (cases "runPhase send procs (warm_events env) (new_bench w)")
      case (PhaseDone b)
      then have "J (world (discard_metrics b))" using phase by (simp add: discard_metrics_def)
      with measure_load_keeps [OF send] show ?thesis using assms(3) True PhaseDone by (simp add: run_load_def)
    qed (use assms(3) True phase in \<open>auto simp: run_load_def\<close>)
  next
    case False
    with measure_load_keeps [OF send w] assms(3) show ?thesis by (simp add: run_load_def)
  qed
qed

lemma scenario_keeps:
  assumes "keeps_send J send" "J w"
  shows "runScenario send cfg env w = Returns r c w' \<Longrightarrow> J w'" "runListHeavy send warmup env w = Returns r c w' \<Longrightarrow> J w'"
  unfolding runScenario_def runListHeavy_def by (rule run_load_keeps [OF assms], assumption)+

subsection \<open>Containers and waiting\<close>

lemma poll_port_keeps:
  assumes "\<And>cid. keeps_io J (ContainerInspect dk cid)" "\<And>d. keeps_io J (pause h d)"
  shows "J w \<Longrightarrow> poll_port fuel dk h cid portSpec deadline w = Some (w', r) \<Longrightarrow> J w'"
proof (induction fuel arbitrary: w)
  case (Suc f)
  obtain w1 r1 where w1: "ContainerInspect dk cid w = (w1, r1)" by fastforce
  obtain w2 r2 where w2: "pause h (100 * millisecond) w1 = (w2, r2)" by fastforce
  have "J w1" "J w2" using keeps_ioD [OF assms(1) _ w1] keeps_ioD [OF assms(2) _ w2] Suc.prems(1) by simp_all
  moreover have "w' = w1 \<or> w' = w2 \<or> poll_port f dk h cid portSpec deadline w2 = Some (w', r)"
    using Suc.prems(2) w1 w2 by (auto split: sum.splits list.splits if_splits option.splits)
  ultimately show ?case using Suc.IH by blast
qed simp

lemma wait_healthy_keeps:
  assumes "keeps_send J send" "\<And>d. keeps_io J (pause h d)"
  shows "J w \<Longrightarrow> wait_healthy fuel send h t deadline delay w = Some (w', r) \<Longrightarrow> J w'"
proof (induction fuel arbitrary: w delay)
  case (Suc f)
  obtain w1 r1 where w1: "client_Do send healthz_http w = (w1, r1)" by fastforce
  obtain w2 r2 where w2: "pause h delay w1 = (w2, r2)" by fastforce
  have "J w1" "J w2" using keeps_ioD [OF keeps_client_Do [OF assms(1)] _ w1] keeps_ioD [OF assms(2) _ w2] Suc.prems(1) by simp_all
  moreover have "w' = w \<or> w' = w1 \<or> w' = w2 \<or> wait_healthy f send h t deadline (next_delay delay) w2 = Some (w', r)"
    using Suc.prems(2) w1 w2 by (auto split: sum.splits if_splits)
  ultimately show ?case using Suc.IH Suc.prems(1) by blast
qed simp

lemma keeps_BuildImage [keeps]:
  "(\<And>es tag. keeps_io J (ImageBuild dk es tag)) \<Longrightarrow> keeps_io J (BuildImage dk dir tag)"
  unfolding BuildImage_def by (intro keeps)

lemma keeps_StopContainer [keeps]:
  "keeps_io J (ContainerStop dk cid) \<Longrightarrow> keeps_io J (ContainerRemove dk cid) \<Longrightarrow> keeps_io J (StopContainer dk cid)"
  unfolding StopContainer_def by (intro keeps)

lemma keeps_RunContainerOnNetwork:
  assumes "keeps_io J (ContainerRemove dk name)" "\<And>spec. keeps_io J (ContainerCreate dk spec)"
    "\<And>cid. keeps_io J (ContainerStart dk cid)"
  shows "keeps_io J (RunContainerOnNetwork dk tag port net name)"
proof -
  have "keeps_io J (bind_io (map_err f (ContainerCreate dk spec))
      (\<lambda>cid. bind_io (map_err g (ContainerStart dk cid)) (\<lambda>_. return_io cid)))" for f g spec
    by (intro keeps assms)
  note create = keeps_io_fst [OF this] and remove = keeps_io_fst [OF assms(1)]
  show ?thesis by (simp add: keeps_io_def RunContainerOnNetwork_def Let_def split_beta create remove)
qed

lemma RunContainer_keeps:
  assumes "\<And>spec. keeps_io J (ContainerCreate dk spec)" "\<And>cid. keeps_io J (ContainerStart dk cid)"
    "\<And>cid. keeps_io J (ContainerInspect dk cid)" "\<And>d. keeps_io J (pause h d)"
    and "J w" "RunContainer fuel dk h tag port w = Some (w', r)"
  shows "J w'"
proof -
  obtain w1 c where c: "ContainerCreate dk \<lparr>spec_Image = tag, spec_Port = fmt_d port @ ''/tcp'', spec_HostIP = Some ''127.0.0.1'',
      spec_Network = None, spec_Name = []\<rparr> w = (w1, c)" by fastforce
  have 1: "J w1" by (rule keeps_ioD [OF assms(1,5) c])
  show ?thesis
  proof (cases c)
    case (Inr cid)
    obtain w2 s where s: "ContainerStart dk cid w1 = (w2, s)" by fastforce
    have 2: "J w2" by (rule keeps_ioD [OF assms(2) 1 s])
    have "w' = w2 \<or> (\<exists>d. poll_port fuel dk h cid (fmt_d port @ ''/tcp'') d w2 = Some (w', r))"
      using assms(6) c s Inr by (auto simp: RunContainer_def Let_def split: sum.splits)
    with 2 poll_port_keeps [of J dk h, OF assms(3,4)] show ?thesis by blast
  qed (use assms(6) c 1 in \<open>simp add: RunContainer_def Let_def\<close>)
qed

end
