(* ===== verification/Bench_Report.thy ===== *)
theory Bench_Report
  imports Bench_Scenario
begin

text \<open>
  \<^verbatim>\<open>benchmark/reporter.go\<close>: the Markdown report and the summary table, as the strings that are
  written. \<open>fmt_f\<close> is \<^verbatim>\<open>fmt\<close>'s fixed-point format: the decimal nearest to the float, ties to even
  (the float is an exact rational). \<open>pad_right\<close> is \<^verbatim>\<open>%-*s\<close>, which counts runes, so UTF-8 decoding is
  modelled as \<^verbatim>\<open>unicode/utf8\<close> does it, invalid bytes counting one rune each.

  Go maps built from the results are partial functions; a missing inner map reads like an empty one.
  \<^verbatim>\<open>WriteJSON\<close> prints floats in the shortest form that reads back, which is not modelled.
\<close>

record SolutionResult =
  sol_Name :: string
  sol_Scenarios :: "ScenarioResult list"

record Report =
  rep_Timestamp :: string
  rep_Solutions :: "SolutionResult list"

subsection \<open>Formatting\<close>

definition nl :: string where
  "nl = [CHR 0x0A]"

definition em_dash :: string where
  "em_dash = [CHR 0xE2, CHR 0x80, CHR 0x94]"

definition pad_zeros :: "nat \<Rightarrow> string \<Rightarrow> string" where
  "pad_zeros n s = replicate (n - length s) (CHR ''0'') @ s"

definition fmt_f :: "nat \<Rightarrow> float64 \<Rightarrow> string" where
  "fmt_f prec x =
     (let m = nat (rne (\<bar>x\<bar> * 10 ^ prec));
          digits = (if prec = 0 then itoa m
                    else itoa (m div 10 ^ prec) @ ''.'' @ pad_zeros prec (itoa (m mod 10 ^ prec)))
      in if x < 0 then CHR ''-'' # digits else digits)"

definition byte_in :: "nat \<Rightarrow> nat \<Rightarrow> string \<Rightarrow> nat \<Rightarrow> bool" where
  "byte_in lo hi s i \<longleftrightarrow> i < length s \<and> lo \<le> of_char (s ! i) \<and> of_char (s ! i) \<le> hi"

text \<open>The number of bytes of the first rune of a non-empty string.\<close>

definition rune_len :: "string \<Rightarrow> nat" where
  "rune_len s =
     (if byte_in 0xC2 0xDF s 0 \<and> byte_in 0x80 0xBF s 1 then 2
      else if (byte_in 0xE0 0xE0 s 0 \<and> byte_in 0xA0 0xBF s 1 \<or> byte_in 0xED 0xED s 0 \<and> byte_in 0x80 0x9F s 1 \<or>
               (byte_in 0xE1 0xEC s 0 \<or> byte_in 0xEE 0xEF s 0) \<and> byte_in 0x80 0xBF s 1) \<and> byte_in 0x80 0xBF s 2 then 3
      else if (byte_in 0xF0 0xF0 s 0 \<and> byte_in 0x90 0xBF s 1 \<or> byte_in 0xF4 0xF4 s 0 \<and> byte_in 0x80 0x8F s 1 \<or>
               byte_in 0xF1 0xF3 s 0 \<and> byte_in 0x80 0xBF s 1) \<and> byte_in 0x80 0xBF s 2 \<and> byte_in 0x80 0xBF s 3 then 4
      else 1)"

lemma rune_len_pos [simp]: "0 < rune_len s"
  by (simp add: rune_len_def)

function rune_count :: "string \<Rightarrow> nat" where
  "rune_count s = (if s = [] then 0 else Suc (rune_count (drop (rune_len s) s)))"
  by pat_completeness auto
termination
  by (relation "measure length") auto

declare rune_count.simps [simp del]

definition pad_right :: "nat \<Rightarrow> string \<Rightarrow> string" where
  "pad_right width s = s @ replicate (width - rune_count s) (CHR '' '')"

subsection \<open>The index of results\<close>

definition index_scenarios :: "ScenarioResult list \<Rightarrow> (string \<rightharpoonup> ScenarioResult)" where
  "index_scenarios scs = foldl (\<lambda>m sc. m(res_ScenarioID sc \<mapsto> sc)) Map.empty scs"

definition build_index :: "SolutionResult list \<Rightarrow> (string \<rightharpoonup> (string \<rightharpoonup> ScenarioResult))" where
  "build_index sols = foldl (\<lambda>m sol. m(sol_Name sol \<mapsto> index_scenarios (sol_Scenarios sol))) Map.empty sols"

definition index_get ::
  "(string \<rightharpoonup> (string \<rightharpoonup> ScenarioResult)) \<Rightarrow> string \<Rightarrow> string \<Rightarrow> ScenarioResult option" where
  "index_get m name i = (case m name of None \<Rightarrow> None | Some inner \<Rightarrow> inner i)"

subsection \<open>The Markdown report\<close>

definition header_row :: "SolutionResult list \<Rightarrow> string" where
  "header_row sols = ''| Scenario |'' @ concat (map (\<lambda>sol. '' '' @ sol_Name sol @ '' |'') sols)"

definition separator_row :: "SolutionResult list \<Rightarrow> string" where
  "separator_row sols = ''|---|'' @ concat (map (\<lambda>sol. ''---|'') sols)"

definition result_cell :: "ScenarioResult option \<Rightarrow> string" where
  "result_cell r =
     (case r of
        None \<Rightarrow> '' '' @ em_dash @ '' |''
      | Some sc \<Rightarrow> '' '' @ fmt_f 0 (res_RPS sc) @ '' RPS / '' @ fmt_f 1 (res_P99Ms sc) @ '' ms |'')"

definition data_row :: "(string \<Rightarrow> string \<Rightarrow> ScenarioResult option) \<Rightarrow> SolutionResult list \<Rightarrow> string \<Rightarrow> string" where
  "data_row get sols i = ''| '' @ i @ '' |'' @ concat (map (\<lambda>sol. result_cell (get (sol_Name sol) i)) sols)"

definition detail_row :: "ScenarioResult \<Rightarrow> string" where
  "detail_row sc =
     ''| '' @ res_ScenarioID sc @ '' | '' @ itoa (res_RequestsTotal sc) @ '' | '' @ fmt_f 0 (res_RPS sc) @ '' | '' @
     fmt_f 1 (res_P50Ms sc) @ '' | '' @ fmt_f 1 (res_P95Ms sc) @ '' | '' @ fmt_f 1 (res_P99Ms sc) @ '' | '' @
     fmt_f 1 (res_MaxMs sc) @ '' | '' @ fmt_f 2 (f64_mul (res_ErrorRate sc) 100) @ ''% | '' @
     fmt_f 2 (f64_mul (res_ConflictRate sc) 100) @ ''% | '' @ fmt_d (res_LeakedLocks sc) @ '' |'' @ nl"

definition detail_section :: "SolutionResult \<Rightarrow> string" where
  "detail_section sol =
     ''### '' @ sol_Name sol @ nl @ nl @
     ''| Scenario | Requests | RPS | P50 ms | P95 ms | P99 ms | Max ms | Error% | Conflict% | Leaked |'' @ nl @
     ''|---|---|---|---|---|---|---|---|---|---|'' @ nl @
     concat (map detail_row (sol_Scenarios sol)) @ nl"

definition comparison_table ::
  "(string \<Rightarrow> string \<Rightarrow> ScenarioResult option) \<Rightarrow> SolutionResult list \<Rightarrow> string list" where
  "comparison_table get sols =
     header_row sols # separator_row sols # map (data_row get sols) (map res_ScenarioID (sol_Scenarios (hd sols)))"

definition markdown :: "Report \<Rightarrow> string" where
  "markdown report =
     ''# Benchmark Report'' @ nl @ nl @ ''**Timestamp:** '' @ rep_Timestamp report @ nl @ nl @
     (if rep_Solutions report = [] then ''No solutions benchmarked.'' @ nl
      else ''## Results (RPS / P99 ms)'' @ nl @ nl @
           concat (map (\<lambda>row. row @ nl)
             (comparison_table (index_get (build_index (rep_Solutions report))) (rep_Solutions report))) @
           nl @ ''## Detailed Metrics'' @ nl @ nl @
           concat (map detail_section (rep_Solutions report)))"

definition WriteMarkdown :: "(string \<Rightarrow> string \<Rightarrow> 'w \<Rightarrow> 'w \<times> go_error option) \<Rightarrow> Report \<Rightarrow> string \<Rightarrow> 'w \<Rightarrow> 'w \<times> go_error option" where
  "WriteMarkdown writeFile report path = writeFile path (markdown report)"

subsection \<open>The summary\<close>

definition scenarioW :: nat where "scenarioW = 18"

definition colW :: nat where "colW = 22"

definition summary_name :: "SolutionResult \<Rightarrow> string" where
  "summary_name sol = (if length (sol_Name sol) > colW - 2 then take (colW - 2) (sol_Name sol) else sol_Name sol)"

definition summary_column :: "string \<Rightarrow> string" where
  "summary_column s = ''  '' @ pad_right (colW - 2) s"

definition summary_cell :: "ScenarioResult option \<Rightarrow> string" where
  "summary_cell r =
     (case r of
        None \<Rightarrow> em_dash
      | Some sc \<Rightarrow> fmt_f 0 (res_RPS sc) @ '' rps / '' @ fmt_f 1 (res_P99Ms sc) @ ''ms'')"

definition summary_lines ::
  "(string \<Rightarrow> string \<Rightarrow> ScenarioResult option) \<Rightarrow> SolutionResult list \<Rightarrow> string list" where
  "summary_lines get sols =
     (pad_right scenarioW ''Scenario'' @ concat (map (\<lambda>sol. summary_column (summary_name sol)) sols))
     # (pad_right scenarioW (replicate scenarioW (CHR ''-'')) @
        concat (map (\<lambda>sol. summary_column (replicate (colW - 2) (CHR ''-''))) sols))
     # map (\<lambda>i. pad_right scenarioW i @ concat (map (\<lambda>sol. summary_column (summary_cell (get (sol_Name sol) i))) sols))
         (map res_ScenarioID (sol_Scenarios (hd sols)))"

text \<open>What \<^verbatim>\<open>PrintSummary\<close> prints to standard output.\<close>

definition PrintSummary :: "Report \<Rightarrow> string" where
  "PrintSummary report =
     (if rep_Solutions report = [] then ''No results to display.'' @ nl
      else nl @ concat (map (\<lambda>line. line @ nl)
             (summary_lines (index_get (build_index (rep_Solutions report))) (rep_Solutions report))) @ nl)"

subsection \<open>Lemmas on the index\<close>

lemma foldl_upd_other:
  "k \<notin> f ` set xs \<Longrightarrow> foldl (\<lambda>m x. m(f x \<mapsto> g x)) m xs k = m k"
  by (induction xs arbitrary: m) auto

lemma foldl_upd_split:
  assumes "f x = k" "k \<notin> f ` set post"
  shows "foldl (\<lambda>m x. m(f x \<mapsto> g x)) m (pre @ x # post) k = Some (g x)"
  using assms by (simp add: foldl_upd_other)

lemma index_scenarios_find:
  "distinct (map res_ScenarioID scs) \<Longrightarrow> index_scenarios scs i = find (\<lambda>sc. res_ScenarioID sc = i) scs"
proof (cases "find (\<lambda>sc. res_ScenarioID sc = i) scs")
  case None
  then have "i \<notin> res_ScenarioID ` set scs" by (auto simp: find_None_iff)
  with None show ?thesis by (simp add: index_scenarios_def foldl_upd_other [of _ _ _ "\<lambda>sc. sc"])
next
  case (Some sc)
  assume dist: "distinct (map res_ScenarioID scs)"
  from Some obtain j where j: "j < length scs" "res_ScenarioID (scs ! j) = i" "scs ! j = sc"
    by (auto simp: find_Some_iff)
  then obtain pre post where scs: "scs = pre @ sc # post" "res_ScenarioID sc = i"
    by (metis id_take_nth_drop)
  with dist have "i \<notin> res_ScenarioID ` set post" by auto
  with Some scs show ?thesis by (simp add: index_scenarios_def foldl_upd_other [of _ _ _ "\<lambda>sc. sc"])
qed

lemma build_index_last:
  assumes "sols = pre @ sol # post" "sol_Name sol \<notin> sol_Name ` set post"
  shows "build_index sols (sol_Name sol) = Some (index_scenarios (sol_Scenarios sol))"
  unfolding build_index_def assms(1) by (rule foldl_upd_split) (simp_all add: assms(2))

lemma build_index_distinct:
  assumes "distinct (map sol_Name sols)" "sol \<in> set sols"
  shows "build_index sols (sol_Name sol) = Some (index_scenarios (sol_Scenarios sol))"
proof -
  obtain pre post where sols: "sols = pre @ sol # post" using assms(2) by (meson split_list)
  moreover from this assms(1) have "sol_Name sol \<notin> sol_Name ` set post" by auto
  ultimately show ?thesis by (rule build_index_last)
qed

subsection \<open>Lemmas on formatting\<close>

definition numeric_char :: "char \<Rightarrow> bool" where
  "numeric_char c \<longleftrightarrow> c = CHR ''-'' \<or> c = CHR ''.'' \<or> 48 \<le> (of_char c :: nat) \<and> (of_char c :: nat) \<le> 57"

lemma itoa_numeric: "c \<in> set (itoa n) \<Longrightarrow> numeric_char c"
proof (induction n rule: itoa.induct)
  case (1 n)
  have digit: "numeric_char (digit_char d)" if "d < 10" for d
    using that by (simp add: numeric_char_def digit_char_def)
  show ?case
  proof (cases "n < 10")
    case True
    with 1(2) digit show ?thesis by (simp add: itoa.simps [of n])
  next
    case False
    with 1 digit [of "n mod 10"] show ?thesis by (auto simp: itoa.simps [of n])
  qed
qed

lemma fmt_f_numeric: "c \<in> set (fmt_f prec x) \<Longrightarrow> numeric_char c"
  by (auto simp: fmt_f_def pad_zeros_def Let_def numeric_char_def [of "CHR ''0''"] numeric_char_def [of "CHR ''-''"]
      numeric_char_def [of "CHR ''.''"] dest: itoa_numeric split: if_splits)

lemma numeric_not_bar: "numeric_char c \<Longrightarrow> c \<noteq> CHR ''|''"
  by (auto simp: numeric_char_def)

lemma numeric_ascii: "numeric_char c \<Longrightarrow> (of_char c :: nat) < 128"
  by (auto simp: numeric_char_def)

lemma fmt_f_no_bar [simp]: "count_list (fmt_f prec x) (CHR ''|'') = 0"
  using fmt_f_numeric numeric_not_bar by (metis count_notin)

definition ascii :: "string \<Rightarrow> bool" where
  "ascii s \<longleftrightarrow> (\<forall>c \<in> set s. (of_char c :: nat) < 128)"

lemma ascii_simps [simp]:
  "ascii []" "ascii (c # s) \<longleftrightarrow> (of_char c :: nat) < 128 \<and> ascii s" "ascii (s @ t) \<longleftrightarrow> ascii s \<and> ascii t"
  by (auto simp: ascii_def)

lemma ascii_replicate: "(of_char c :: nat) < 128 \<Longrightarrow> ascii (replicate n c)"
  by (simp add: ascii_def)

lemma ascii_fmt_f [simp]: "ascii (fmt_f prec x)"
  using fmt_f_numeric numeric_ascii by (auto simp: ascii_def)

lemma ascii_take: "ascii s \<Longrightarrow> ascii (take n s)"
  by (auto simp: ascii_def dest: in_set_takeD)

lemma rune_count_ascii: "ascii a \<Longrightarrow> rune_count (a @ s) = length a + rune_count s"
proof (induction a)
  case (Cons c a)
  then have "rune_len ((c # a) @ s) = 1" by (simp add: rune_len_def byte_in_def)
  with Cons show ?case by (simp add: rune_count.simps [of "c # a @ s"])
qed simp

lemma rune_count_Nil [simp]: "rune_count [] = 0"
  by (simp add: rune_count.simps)

lemma rune_count_dash: "rune_count (em_dash @ s) = Suc (rune_count s)"
proof -
  have "rune_len (em_dash @ s) = 3" by (simp add: rune_len_def byte_in_def em_dash_def)
  then show ?thesis by (simp add: rune_count.simps [of "em_dash @ s"]) (simp add: em_dash_def)
qed

lemmas rune_simps = rune_count_ascii rune_count_ascii [of _ "[]", simplified] rune_count_dash
  rune_count_dash [of "[]", simplified] ascii_replicate

text \<open>Widths of the pieces of a summary line.\<close>

lemma rune_count_column:
  assumes "ascii s" "length s \<le> colW - 2"
  shows "rune_count (summary_column s @ t) = colW + rune_count t"
proof -
  have "ascii (summary_column s)" using assms by (simp add: summary_column_def pad_right_def ascii_replicate)
  moreover have "length (summary_column s) = colW"
    using assms by (simp add: summary_column_def pad_right_def rune_simps colW_def)
  ultimately show ?thesis by (simp add: rune_count_ascii)
qed

lemma rune_count_dash_column: "rune_count (summary_column em_dash @ t) = colW + rune_count t"
proof -
  have "summary_column em_dash @ t = ''  '' @ em_dash @ replicate 19 (CHR '' '') @ t"
    by (simp add: summary_column_def pad_right_def rune_simps colW_def)
  also have "rune_count \<dots> = colW + rune_count t"
    using rune_count_ascii [of "''  ''" "em_dash @ replicate 19 (CHR '' '') @ t"]
      rune_count_ascii [of "replicate 19 (CHR '' '')" t]
    by (simp add: ascii_replicate rune_count_dash colW_def)
  finally show ?thesis .
qed

definition fits :: "string \<Rightarrow> bool" where
  "fits s \<longleftrightarrow> s = em_dash \<or> ascii s \<and> length s \<le> colW - 2"

lemma rune_count_columns:
  "\<forall>s \<in> set ss. fits s \<Longrightarrow> rune_count (concat (map summary_column ss)) = colW * length ss"
proof (induction ss)
  case (Cons s ss)
  then show ?case using rune_count_column [of s "concat (map summary_column ss)"]
      rune_count_dash_column [of "concat (map summary_column ss)"] by (auto simp: fits_def)
qed simp

lemma rune_count_line:
  assumes "ascii h" "length h \<le> scenarioW" "\<forall>s \<in> set ss. fits s"
  shows "rune_count (pad_right scenarioW h @ concat (map summary_column ss)) = scenarioW + colW * length ss"
proof -
  have "ascii (pad_right scenarioW h)" "length (pad_right scenarioW h) = scenarioW"
    using assms(1,2) by (simp_all add: pad_right_def ascii_replicate rune_simps)
  then show ?thesis by (simp add: rune_count_ascii rune_count_columns [OF assms(3)])
qed

lemma summary_lines_eq:
  "summary_lines get sols =
     (pad_right scenarioW ''Scenario'' @ concat (map summary_column (map summary_name sols)))
     # (pad_right scenarioW (replicate scenarioW (CHR ''-'')) @
        concat (map summary_column (map (\<lambda>sol. replicate (colW - 2) (CHR ''-'')) sols)))
     # map (\<lambda>i. pad_right scenarioW i @ concat (map summary_column (map (\<lambda>sol. summary_cell (get (sol_Name sol) i)) sols)))
         (map res_ScenarioID (sol_Scenarios (hd sols)))"
  by (simp add: summary_lines_def comp_def)

subsection \<open>Properties\<close>

text \<open>C33. The comparison table shows every solution's own results: when solution names are distinct and
  no solution has a scenario twice, the cell of a row is the result with the row's scenario ID that a
  search in that solution's list finds, or the dash when there is none.\<close>

theorem markdown_row_own_results:
  assumes "distinct (map sol_Name sols)" and "\<forall>sol \<in> set sols. distinct (map res_ScenarioID (sol_Scenarios sol))"
  shows "data_row (index_get (build_index sols)) sols i =
    ''| '' @ i @ '' |'' @
    concat (map (\<lambda>sol. result_cell (find (\<lambda>sc. res_ScenarioID sc = i) (sol_Scenarios sol))) sols)"
proof -
  have "index_get (build_index sols) (sol_Name sol) i = find (\<lambda>sc. res_ScenarioID sc = i) (sol_Scenarios sol)"
    if "sol \<in> set sols" for sol
    using build_index_distinct [OF assms(1) that] assms(2) that by (simp add: index_get_def index_scenarios_find)
  then show ?thesis by (simp add: data_row_def cong: map_cong)
qed

theorem markdown_row_own_results_witness:
  "data_row (index_get (build_index
       [\<lparr>sol_Name = ''Go'', sol_Scenarios = [zero_result ''sequential'']\<rparr>, \<lparr>sol_Name = ''Bun'', sol_Scenarios = []\<rparr>]))
     [\<lparr>sol_Name = ''Go'', sol_Scenarios = [zero_result ''sequential'']\<rparr>, \<lparr>sol_Name = ''Bun'', sol_Scenarios = []\<rparr>]
     ''sequential'' =
   ''| sequential |'' @ result_cell (Some (zero_result ''sequential'')) @ result_cell None"
  using markdown_row_own_results [of "[\<lparr>sol_Name = ''Go'', sol_Scenarios = [zero_result ''sequential'']\<rparr>,
      \<lparr>sol_Name = ''Bun'', sol_Scenarios = []\<rparr>]" "''sequential''"]
  by (simp add: zero_result_def)

text \<open>C34. Two solutions with the same name share one entry of the index: both columns show the results
  of the later one, whatever the earlier one's were.\<close>

theorem markdown_same_name_columns:
  assumes "sol_Name s1 = sol_Name s2"
  shows "data_row (index_get (build_index [s1, s2])) [s1, s2] i =
    data_row (index_get (build_index [s2])) [s2, s2] i"
  using assms by (simp add: data_row_def build_index_def index_get_def)

theorem markdown_same_name_columns_witness:
  "data_row (index_get (build_index
       [\<lparr>sol_Name = ''Go'', sol_Scenarios = [zero_result ''sequential'']\<rparr>, \<lparr>sol_Name = ''Go'', sol_Scenarios = []\<rparr>]))
     [\<lparr>sol_Name = ''Go'', sol_Scenarios = [zero_result ''sequential'']\<rparr>, \<lparr>sol_Name = ''Go'', sol_Scenarios = []\<rparr>]
     ''sequential'' = ''| sequential |'' @ result_cell None @ result_cell None"
  using markdown_same_name_columns [of "\<lparr>sol_Name = ''Go'', sol_Scenarios = [zero_result ''sequential'']\<rparr>"
      "\<lparr>sol_Name = ''Go'', sol_Scenarios = []\<rparr>" "''sequential''"]
  by (simp add: data_row_def index_get_def build_index_def index_scenarios_def)

text \<open>The comparison table is rectangular: header, separator and every data row have two more column
  bars than there are solutions, when no solution name and no scenario ID contains a bar.\<close>

lemma comparison_table_rectangular:
  assumes "\<forall>sol \<in> set sols. count_list (sol_Name sol) (CHR ''|'') = 0"
    and "\<forall>sc \<in> set (sol_Scenarios (hd sols)). count_list (res_ScenarioID sc) (CHR ''|'') = 0"
  shows "\<forall>row \<in> set (comparison_table get sols). count_list row (CHR ''|'') = length sols + 2"
proof -
  have cells: "count_list (concat (map f sols)) (CHR ''|'') = length sols"
    if "\<And>sol. sol \<in> set sols \<Longrightarrow> count_list (f sol) (CHR ''|'') = 1" for f
    using that by (induction sols) (auto simp: count_list_append)
  have "count_list (result_cell r) (CHR ''|'') = 1" for r
    by (cases r) (simp_all add: result_cell_def em_dash_def count_list_append)
  then have data: "count_list (data_row get sols i) (CHR ''|'') = length sols + 2" if "count_list i (CHR ''|'') = 0" for i
    using that cells [of "\<lambda>sol. result_cell (get (sol_Name sol) i)"] by (simp add: data_row_def count_list_append)
  have "count_list (header_row sols) (CHR ''|'') = length sols + 2"
    using assms(1) cells [of "\<lambda>sol. '' '' @ sol_Name sol @ '' |''"] by (simp add: header_row_def count_list_append)
  moreover have "count_list (separator_row sols) (CHR ''|'') = length sols + 2"
    using cells [of "\<lambda>sol. ''---|''"] by (simp add: separator_row_def count_list_append)
  ultimately show ?thesis using data assms(2) by (auto simp: comparison_table_def)
qed

text \<open>C35. The columns of the printed summary line up: with ASCII names, scenario IDs of at most 18
  characters and cells that fit their column (or the dash, three bytes but one rune), every line is
  18 runes wide plus 22 per solution, names longer than a column being cut.\<close>

theorem summary_aligned:
  assumes "\<forall>sol \<in> set sols. ascii (sol_Name sol)"
    and "\<forall>sc \<in> set (sol_Scenarios (hd sols)). ascii (res_ScenarioID sc) \<and> length (res_ScenarioID sc) \<le> scenarioW"
    and "\<forall>sol \<in> set sols. \<forall>i sc. get (sol_Name sol) i = Some sc \<longrightarrow> length (summary_cell (Some sc)) \<le> colW - 2"
  shows "\<forall>line \<in> set (summary_lines get sols). rune_count line = scenarioW + colW * length sols"
proof -
  have names: "\<forall>s \<in> set (map summary_name sols). fits s"
    using assms(1) by (auto simp: fits_def summary_name_def ascii_take colW_def)
  have dashes: "\<forall>s \<in> set (map (\<lambda>sol. replicate (colW - 2) (CHR ''-'')) sols). fits s"
    by (auto simp: fits_def ascii_replicate)
  have "fits (summary_cell (get (sol_Name sol) i))" if "sol \<in> set sols" for sol i
    using assms(3) that by (cases "get (sol_Name sol) i") (auto simp: fits_def summary_cell_def)
  then have cells: "\<forall>s \<in> set (map (\<lambda>sol. summary_cell (get (sol_Name sol) i)) sols). fits s" for i by simp
  show ?thesis unfolding summary_lines_eq
    using rune_count_line [OF _ _ names, of "''Scenario''"] rune_count_line [OF _ _ dashes, of "replicate scenarioW (CHR ''-'')"]
      rune_count_line [OF _ _ cells] assms(2)
    by (auto simp: ascii_replicate scenarioW_def)
qed

theorem summary_aligned_witness:
  "list_all (\<lambda>line. rune_count line = 40) (summary_lines (\<lambda>name i. None)
      [\<lparr>sol_Name = ''A solution with a long name'', sol_Scenarios = [zero_result ''sequential'']\<rparr>])"
  unfolding list_all_iff
  using summary_aligned [of "[\<lparr>sol_Name = ''A solution with a long name'', sol_Scenarios = [zero_result ''sequential'']\<rparr>]"
      "\<lambda>name i. None"]
  by (simp add: zero_result_def scenarioW_def colW_def)

end
