(* ===== verification/Bench_Runner.thy ===== *)
theory Bench_Runner
  imports Bench_World Bench_Report
begin

text \<open>
  \<^verbatim>\<open>benchmark/runner.go\<close> and \<^verbatim>\<open>benchmark/main.go\<close>: finding the solutions, validating or benchmarking
  each in a container of its own, and the program around them.

  Everything outside the program is the record \<open>platform\<close>: the Docker engine, the host's clock, the
  file system, the services reached under a base URL (\<open>connect\<close>), the writing of files, the JSON text of
  a report (\<^verbatim>\<open>json.MarshalIndent\<close>), the local time zone, and the fuel for the two polling loops. \<^verbatim>\<open>defer\<close> is modelled by running the deferred call on the way out of the
  function; \<^verbatim>\<open>os.Exit\<close> ends the program at once, so no deferred call runs. Printing is left out. The
  paths given to the program are taken to be clean, so \<^verbatim>\<open>filepath.Join\<close> appends a component.
\<close>

subsection \<open>The outside\<close>

record filesys =
  fs_Stat :: "string \<Rightarrow> go_error + bool"  \<comment> \<open>whether it is a directory\<close>
  fs_ReadDir :: "string \<Rightarrow> go_error + (string \<times> bool) list"
  fs_ReadFile :: "string \<Rightarrow> go_error + body"
  fs_Tree :: "string \<Rightarrow> fs_node"

record 'w platform =
  engine :: "'w docker"
  machine :: "'w host"
  files :: filesys
  connect :: "string \<Rightarrow> 'w sender"
  poll_fuel :: nat
  health_fuel :: "int \<Rightarrow> nat"
  hostname :: string
  local_zone :: int
  client_err :: "go_error option"
  marshal :: "Report \<Rightarrow> go_error + string"
  mkdir_all :: "string \<Rightarrow> 'w \<Rightarrow> 'w"
  write_file :: "string \<Rightarrow> string \<Rightarrow> 'w \<Rightarrow> 'w \<times> go_error option"

definition filepath_Join :: "string \<Rightarrow> string \<Rightarrow> string" where
  "filepath_Join dir name = (if dir = [] then name else dir @ ''/'' @ name)"

definition exists_file :: "filesys \<Rightarrow> string \<Rightarrow> bool" where
  "exists_file fs path = (case fs_Stat fs path of Inl e \<Rightarrow> False | Inr isDir \<Rightarrow> True)"

subsection \<open>Finding solutions\<close>

definition discoverSolutions :: "filesys \<Rightarrow> string \<Rightarrow> go_error + string list" where
  "discoverSolutions fs path =
     (case fs_Stat fs path of
        Inl e \<Rightarrow> Inl e
      | Inr isDir \<Rightarrow>
          if isDir \<and> exists_file fs (filepath_Join path ''solution.json'') then Inr [path]
          else (case fs_ReadDir fs path of
                  Inl e \<Rightarrow> Inl e
                | Inr entries \<Rightarrow>
                    Inr (map (\<lambda>(name, d). filepath_Join path name)
                      (filter (\<lambda>(name, d). d \<and> exists_file fs (filepath_Join (filepath_Join path name) ''solution.json''))
                        entries))))"

record SolutionManifest =
  mf_Name :: string
  mf_Description :: string
  mf_Port :: int
  mf_StartupTimeoutMs :: int

definition set_int :: "(int \<Rightarrow> 'r) \<Rightarrow> 'r \<Rightarrow> json \<Rightarrow> 'r \<times> bool" where
  "set_int upd r v =
     (case v of
        JNum lit \<Rightarrow> (case Atoi lit of Some i \<Rightarrow> (upd i, True) | None \<Rightarrow> (r, False))
      | JNull \<Rightarrow> (r, True)
      | _ \<Rightarrow> (r, False))"

definition manifest_set :: "string \<Rightarrow> SolutionManifest \<Rightarrow> json \<Rightarrow> SolutionManifest \<times> bool" where
  "manifest_set tag r v =
     (if tag = ''name'' then set_string (\<lambda>s. r\<lparr>mf_Name := s\<rparr>) r v
      else if tag = ''description'' then set_string (\<lambda>s. r\<lparr>mf_Description := s\<rparr>) r v
      else if tag = ''port'' then set_int (\<lambda>i. r\<lparr>mf_Port := i\<rparr>) r v
      else set_int (\<lambda>i. r\<lparr>mf_StartupTimeoutMs := i\<rparr>) r v)"

definition decode_manifest :: "body \<Rightarrow> SolutionManifest option" where
  "decode_manifest b =
     Option.bind (unmarshal b)
       (\<lambda>v. checked (decode_struct [''name'', ''description'', ''port'', ''startupTimeoutMs''] manifest_set
               \<lparr>mf_Name = [], mf_Description = [], mf_Port = 0, mf_StartupTimeoutMs = 0\<rparr> v))"

subsection \<open>One solution\<close>

datatype solution_error =
    ReadManifest go_error
  | ParseManifest body
  | BuildError docker_error
  | RunError docker_error
  | HealthError docker_error
  | SpecError valid_error

definition load_manifest :: "filesys \<Rightarrow> string \<Rightarrow> solution_error + SolutionManifest" where
  "load_manifest fs dir =
     (case fs_ReadFile fs (filepath_Join dir ''solution.json'') of
        Inl e \<Rightarrow> Inl (ReadManifest e)
      | Inr b \<Rightarrow> (case decode_manifest b of None \<Rightarrow> Inl (ParseManifest b) | Some mf \<Rightarrow> Inr mf))"

text \<open>The container and the base URL under which the service is reached.\<close>

definition start_service ::
  "'w platform \<Rightarrow> SolutionManifest \<Rightarrow> string \<Rightarrow> 'w \<Rightarrow> ('w \<times> (docker_error + string \<times> string)) option" where
  "start_service p mf networkName w =
     (let tag = ImageTag (mf_Name mf); cName = ContainerName (mf_Name mf)
      in if networkName \<noteq> []
         then (case RunContainerOnNetwork (engine p) tag (mf_Port mf) networkName cName w of
                 (w', Inl e) \<Rightarrow> Some (w', Inl e)
               | (w', Inr cid) \<Rightarrow> Some (w', Inr (cid, ''http://'' @ cName @ '':'' @ fmt_d (mf_Port mf))))
         else (case RunContainer (poll_fuel p) (engine p) (machine p) tag (mf_Port mf) w of
                 None \<Rightarrow> None
               | Some (w', Inl e) \<Rightarrow> Some (w', Inl e)
               | Some (w', Inr (cid, hostPort)) \<Rightarrow> Some (w', Inr (cid, ''http://127.0.0.1:'' @ fmt_d hostPort))))"

definition startup_timeout :: "SolutionManifest \<Rightarrow> int" where
  "startup_timeout mf = (if mf_StartupTimeoutMs mf = 0 then 10000 else mf_StartupTimeoutMs mf)"

text \<open>The common frame of \<^verbatim>\<open>validateSolution\<close> and \<^verbatim>\<open>benchmarkSolution\<close>: load the manifest, build, start, and
  from then on stop the container on the way out. With the container running: wait for the service,
  check it, go on.\<close>

definition use_service ::
  "'w platform \<Rightarrow> SolutionManifest \<Rightarrow> 'w sender \<Rightarrow> (SolutionManifest \<Rightarrow> 'w sender \<Rightarrow> 'w \<Rightarrow> ('w \<times> 'a) option) \<Rightarrow>
   'w \<Rightarrow> ('w \<times> (solution_error + 'a)) option" where
  "use_service p mf send body w =
     (case WaitHealthy (health_fuel p (startup_timeout mf)) send (machine p) (startup_timeout mf) w of
        None \<Rightarrow> None
      | Some (w3, Inl e) \<Rightarrow> Some (w3, Inl (HealthError e))
      | Some (w3, Inr _) \<Rightarrow>
          (case validateSpec send w3 of
             (w4, Inl e) \<Rightarrow> Some (w4, Inl (SpecError e))
           | (w4, Inr _) \<Rightarrow>
               (case body mf send w4 of
                  None \<Rightarrow> None
                | Some (w5, a) \<Rightarrow> Some (w5, Inr a))))"

definition with_service ::
  "'w platform \<Rightarrow> string \<Rightarrow> string \<Rightarrow> (SolutionManifest \<Rightarrow> 'w sender \<Rightarrow> 'w \<Rightarrow> ('w \<times> 'a) option) \<Rightarrow>
   'w \<Rightarrow> ('w \<times> (solution_error + 'a)) option" where
  "with_service p dir networkName body w =
     (case load_manifest (files p) dir of
        Inl e \<Rightarrow> Some (w, Inl e)
      | Inr mf \<Rightarrow>
          (case BuildImage (engine p) (fs_Tree (files p) dir) (ImageTag (mf_Name mf)) w of
             (w1, Inl e) \<Rightarrow> Some (w1, Inl (BuildError e))
           | (w1, Inr _) \<Rightarrow>
               (case start_service p mf networkName w1 of
                  None \<Rightarrow> None
                | Some (w2, Inl e) \<Rightarrow> Some (w2, Inl (RunError e))
                | Some (w2, Inr (cid, baseURL)) \<Rightarrow>
                    (case use_service p mf (connect p baseURL) body w2 of
                       None \<Rightarrow> None
                     | Some (w6, r) \<Rightarrow> Some (fst (StopContainer (engine p) cid w6), r)))))"

definition validateSolution :: "'w platform \<Rightarrow> string \<Rightarrow> string \<Rightarrow> 'w \<Rightarrow> ('w \<times> (solution_error + unit)) option" where
  "validateSolution p dir networkName = with_service p dir networkName (\<lambda>mf send w. Some (w, ()))"

text \<open>The scenarios in order; the first that is aborted by a timeout ends them. A crash or a goroutine
  that never returns is \<^const>\<open>None\<close>.\<close>

fun run_scenarios ::
  "'w host \<Rightarrow> 'w sender \<Rightarrow> scenarioCfg list \<Rightarrow> load_env list \<Rightarrow> 'w \<Rightarrow> ('w \<times> ScenarioResult list \<times> bool) option" where
  "run_scenarios h send (cfg # cfgs) (env # envs) w =
     (case runScenario send cfg env w of
        Returns sc None w' \<Rightarrow>
          (case run_scenarios h send cfgs envs (fst (pause h (2000 * millisecond) w')) of
             None \<Rightarrow> None
           | Some (w'', scs, aborted) \<Rightarrow> Some (w'', sc # scs, aborted))
      | Returns sc (Some c) w' \<Rightarrow> Some (w', [], True)
      | _ \<Rightarrow> None)"
| "run_scenarios h send [] envs w = Some (w, [], False)"
| "run_scenarios h send (cfg # cfgs) [] w = None"

definition run_all ::
  "'w host \<Rightarrow> int \<Rightarrow> int \<Rightarrow> load_env list \<Rightarrow> load_env \<Rightarrow> SolutionManifest \<Rightarrow> 'w sender \<Rightarrow> 'w \<Rightarrow> ('w \<times> SolutionResult) option" where
  "run_all h warmup duration envs lh_env mf send w =
     (let scenarios = map (\<lambda>cfg. cfg\<lparr>cfg_Duration := duration, cfg_Warmup := warmup\<rparr>) defaultScenarios
      in case run_scenarios h send scenarios envs w of
           None \<Rightarrow> None
         | Some (w', scs, aborted) \<Rightarrow>
             if aborted then Some (w', \<lparr>sol_Name = mf_Name mf, sol_Scenarios = scs\<rparr>)
             else (case runListHeavy send warmup lh_env w' of
                     Returns sc None w'' \<Rightarrow> Some (w'', \<lparr>sol_Name = mf_Name mf, sol_Scenarios = scs @ [sc]\<rparr>)
                   | Returns sc (Some c) w'' \<Rightarrow> Some (w'', \<lparr>sol_Name = mf_Name mf, sol_Scenarios = scs\<rparr>)
                   | _ \<Rightarrow> None))"

definition benchmarkSolution ::
  "'w platform \<Rightarrow> string \<Rightarrow> int \<Rightarrow> int \<Rightarrow> load_env list \<Rightarrow> load_env \<Rightarrow> string \<Rightarrow> 'w \<Rightarrow>
   ('w \<times> (solution_error + SolutionResult)) option" where
  "benchmarkSolution p dir warmup duration envs lh_env networkName =
     with_service p dir networkName (run_all (machine p) warmup duration envs lh_env)"

subsection \<open>The program\<close>

definition WriteJSON ::
  "(Report \<Rightarrow> go_error + string) \<Rightarrow> (string \<Rightarrow> string \<Rightarrow> 'w \<Rightarrow> 'w \<times> go_error option) \<Rightarrow> Report \<Rightarrow> string \<Rightarrow> 'w \<Rightarrow>
   'w \<times> go_error option" where
  "WriteJSON enc writeFile report path w =
     (case enc report of Inl e \<Rightarrow> (w, Some e) | Inr data \<Rightarrow> writeFile path data w)"

record main_flags =
  fl_warmup :: int
  fl_duration :: int
  fl_validateOnly :: bool
  fl_args :: "string list"

definition isRunningInDocker :: "filesys \<Rightarrow> bool" where
  "isRunningInDocker fs = exists_file fs ''/.dockerenv''"

fun discover_all :: "filesys \<Rightarrow> string list \<Rightarrow> go_error + string list" where
  "discover_all fs [] = Inr []"
| "discover_all fs (arg # args) =
     (case discoverSolutions fs arg of
        Inl e \<Rightarrow> Inl e
      | Inr dirs \<Rightarrow> (case discover_all fs args of Inl e \<Rightarrow> Inl e | Inr rest \<Rightarrow> Inr (dirs @ rest)))"

fun validate_loop :: "'w platform \<Rightarrow> string \<Rightarrow> string list \<Rightarrow> nat \<Rightarrow> 'w \<Rightarrow> ('w \<times> nat) option" where
  "validate_loop p networkName [] failed w = Some (w, failed)"
| "validate_loop p networkName (dir # dirs) failed w =
     (case validateSolution p dir networkName w of
        None \<Rightarrow> None
      | Some (w', Inl e) \<Rightarrow> validate_loop p networkName dirs (failed + 1) w'
      | Some (w', Inr _) \<Rightarrow> validate_loop p networkName dirs failed w')"

text \<open>\<open>plans dir\<close> is what happens during the scenarios of the solution in \<open>dir\<close>.\<close>

type_synonym load_plans = "string \<Rightarrow> load_env list \<times> load_env"

fun benchmark_loop ::
  "'w platform \<Rightarrow> main_flags \<Rightarrow> load_plans \<Rightarrow> string \<Rightarrow> string list \<Rightarrow> 'w \<Rightarrow> ('w \<times> SolutionResult list) option" where
  "benchmark_loop p fl plans networkName [] w = Some (w, [])"
| "benchmark_loop p fl plans networkName (dir # dirs) w =
     (case benchmarkSolution p dir (fl_warmup fl) (fl_duration fl) (fst (plans dir)) (snd (plans dir)) networkName w of
        None \<Rightarrow> None
      | Some (w', r) \<Rightarrow>
          (case benchmark_loop p fl plans networkName dirs w' of
             None \<Rightarrow> None
           | Some (w'', results) \<Rightarrow> Some (w'', case r of Inl e \<Rightarrow> results | Inr result \<Rightarrow> result # results)))"

definition write_results :: "'w platform \<Rightarrow> Report \<Rightarrow> 'w \<Rightarrow> 'w" where
  "write_results p report w =
     (let stamp = map (\<lambda>c. if c = CHR '':'' then CHR ''-'' else c) (rep_Timestamp report);
          w1 = mkdir_all p ''../results'' w;
          w2 = fst (WriteJSON (marshal p) (write_file p) report (''../results/benchmark-'' @ stamp @ ''.json'') w1)
      in fst (WriteMarkdown (write_file p) report (''../results/benchmark-'' @ stamp @ ''.md'') w2))"

text \<open>What follows the creation of the network: the exit code 0 stands for returning from \<^verbatim>\<open>main\<close>.\<close>

definition run_mode ::
  "'w platform \<Rightarrow> main_flags \<Rightarrow> load_plans \<Rightarrow> string \<Rightarrow> string list \<Rightarrow> 'w \<Rightarrow> ('w \<times> nat) option" where
  "run_mode p fl plans networkName solutionDirs w =
     (if fl_validateOnly fl
      then (case validate_loop p networkName solutionDirs 0 w of
              None \<Rightarrow> None
            | Some (w', failed) \<Rightarrow> Some (w', if failed > 0 then 1 else 0))
      else (let timestamp = formatRFC3339 (UTC \<lparr>nanos = nat (clock (machine p) w), zone = local_zone p\<rparr>)
            in case benchmark_loop p fl plans networkName solutionDirs w of
                 None \<Rightarrow> None
               | Some (w', results) \<Rightarrow>
                   Some (write_results p \<lparr>rep_Timestamp = timestamp, rep_Solutions = results\<rparr> w', 0)))"

definition main_program :: "'w platform \<Rightarrow> main_flags \<Rightarrow> load_plans \<Rightarrow> 'w \<Rightarrow> ('w \<times> nat) option" where
  "main_program p fl plans w =
     (if fl_args fl = [] then Some (w, 1)
      else case discover_all (files p) (fl_args fl) of
        Inl e \<Rightarrow> Some (w, 1)
      | Inr solutionDirs \<Rightarrow>
          if solutionDirs = [] then Some (w, 1)
          else if client_err p \<noteq> None then Some (w, 1)
          else if \<not> isRunningInDocker (files p) then run_mode p fl plans [] solutionDirs w
          else (case CreateBenchmarkNetwork (engine p) (machine p) w of
                  (w1, Inl e) \<Rightarrow> Some (w1, 1)
                | (w1, Inr (networkID, name)) \<Rightarrow>
                    (case ConnectSelfToNetwork (engine p) (hostname p) networkID w1 of
                       (w2, Inl e) \<Rightarrow> Some (w2, 1)
                     | (w2, Inr _) \<Rightarrow>
                         (case run_mode p fl plans name solutionDirs w2 of
                            None \<Rightarrow> None
                          | Some (w3, code) \<Rightarrow>
                              if code = 0 then Some (fst (RemoveNetwork (engine p) networkID w3), 0)
                              else Some (w3, code)))))"

subsection \<open>Lemmas\<close>

lemma exists_file_join: "exists_file fs path \<longleftrightarrow> (\<exists>d. fs_Stat fs path = Inr d)"
  by (auto simp: exists_file_def split: sum.splits)

text \<open>A run that got as far as a container ends with stopping that container.\<close>

lemma with_service_stops:
  assumes "with_service p dir networkName body w = Some (w', r)"
    and "(\<exists>a. r = Inr a) \<or> (\<exists>e. r = Inl (HealthError e)) \<or> (\<exists>e. r = Inl (SpecError e))"
  obtains mf w1 w2 w6 cid baseURL where "load_manifest (files p) dir = Inr mf"
    "BuildImage (engine p) (fs_Tree (files p) dir) (ImageTag (mf_Name mf)) w = (w1, Inr ())"
    "start_service p mf networkName w1 = Some (w2, Inr (cid, baseURL))" "w' = fst (StopContainer (engine p) cid w6)"
proof -
  obtain mf where mf: "load_manifest (files p) dir = Inr mf"
    using assms by (auto simp: with_service_def load_manifest_def split: sum.splits option.splits)
  obtain w1 b where b: "BuildImage (engine p) (fs_Tree (files p) dir) (ImageTag (mf_Name mf)) w = (w1, b)" by fastforce
  with assms mf have ok: "b = Inr ()" by (cases b) (auto simp: with_service_def)
  with assms mf b obtain w2 cid baseURL where s: "start_service p mf networkName w1 = Some (w2, Inr (cid, baseURL))"
    by (auto simp: with_service_def split: option.splits sum.splits prod.splits)
  with assms(1) mf b ok have "\<exists>w6. w' = fst (StopContainer (engine p) cid w6)"
    by (auto simp: with_service_def split: option.splits)
  with that mf b ok s show ?thesis by blast
qed

lemma StopContainer_gone:
  assumes "\<And>w. cid \<in> containers w \<Longrightarrow> \<exists>w'. ContainerStop dk cid w = (w', Inr ())"
    and "\<And>w. cid \<notin> containers w \<Longrightarrow> cid \<notin> containers (fst (ContainerStop dk cid w))"
    and "\<And>w. cid \<in> containers w \<Longrightarrow> \<exists>w'. ContainerRemove dk cid w = (w', Inr ()) \<and> cid \<notin> containers w'"
    and "\<And>w. cid \<notin> containers w \<Longrightarrow> cid \<notin> containers (fst (ContainerRemove dk cid w))"
  shows "cid \<notin> containers (fst (StopContainer dk cid w))"
proof -
  have removed: "cid \<notin> containers (fst (ContainerRemove dk cid w))" for w
    using assms(3) [of w] assms(4) [of w] by (cases "cid \<in> containers w") auto
  obtain w1 s where s: "ContainerStop dk cid w = (w1, s)" by fastforce
  show ?thesis
  proof (cases s)
    case (Inl e)
    then have "cid \<notin> containers w" using assms(1) s by fastforce
    then show ?thesis using assms(2) [of w] s Inl by (simp add: StopContainer_def)
  next
    case (Inr u)
    then show ?thesis using removed [of w1] s by (simp add: StopContainer_def map_err_fst)
  qed
qed

text \<open>A run inside Docker that exits with code 0 has created its network, connected itself, run its mode and
  made the deferred attempt to remove the network.\<close>

lemma main_in_docker:
  assumes "isRunningInDocker (files p)" and "main_program p fl plans w = Some (w', 0)"
  shows "\<exists>w1 nid name w2 w3 dirs. CreateBenchmarkNetwork (engine p) (machine p) w = (w1, Inr (nid, name)) \<and>
    ConnectSelfToNetwork (engine p) (hostname p) nid w1 = (w2, Inr ()) \<and>
    run_mode p fl plans name dirs w2 = Some (w3, 0) \<and> w' = fst (RemoveNetwork (engine p) nid w3)"
proof -
  obtain w1 c where c: "CreateBenchmarkNetwork (engine p) (machine p) w = (w1, c)" by fastforce
  with assms obtain nid name where n: "c = Inr (nid, name)"
    by (cases c) (auto simp: main_program_def split: if_splits sum.splits)
  obtain w2 s where s: "ConnectSelfToNetwork (engine p) (hostname p) nid w1 = (w2, s)" by fastforce
  with assms c n have "s = Inr ()"
    by (cases s) (auto simp: main_program_def split: if_splits sum.splits)
  with assms c n s show ?thesis
    by (auto simp: main_program_def split: if_splits sum.splits option.splits) blast
qed

lemma with_service_Inr:
  assumes "with_service p dir networkName body w = Some (w', Inr a)"
  obtains mf baseURL w4 w5 where "load_manifest (files p) dir = Inr mf" "body mf (connect p baseURL) w4 = Some (w5, a)"
  using assms by (auto simp: with_service_def use_service_def split: option.splits sum.splits prod.splits)

lemma starting_procs: "list_all starting (scenario_procs cfg)" "list_all starting list_heavy_procs"
  using list_heavy_ok by (auto simp: scenario_procs_def list_all_iff load_ok_def)

lemma scenario_id:
  "runScenario send cfg env w = Returns r None w' \<Longrightarrow> res_ScenarioID r = cfg_ID cfg"
  "runListHeavy send warmup env w = Returns r None w' \<Longrightarrow> res_ScenarioID r = ''list_heavy''"
  unfolding runScenario_def runListHeavy_def
  by (drule run_load_sane [OF starting_procs(1)], simp) (drule run_load_sane [OF starting_procs(2)], simp)

lemma run_scenarios_ids:
  "run_scenarios h send cfgs envs w = Some (w', scs, aborted) \<Longrightarrow>
     map res_ScenarioID scs = take (length scs) (map cfg_ID cfgs) \<and> (\<not> aborted \<longrightarrow> length scs = length cfgs)"
proof (induction h send cfgs envs w arbitrary: w' scs rule: run_scenarios.induct)
  case (1 h send cfg cfgs env envs w)
  from 1(2) consider sc w1 w2 scs' where "runScenario send cfg env w = Returns sc None w1"
      "run_scenarios h send cfgs envs (fst (pause h (2000 * millisecond) w1)) = Some (w2, scs', aborted)" "scs = sc # scs'"
    | "scs = []" "aborted"
    by (auto split: outcome.splits option.splits)
  then show ?case using 1(1) scenario_id(1) by cases auto
qed auto

definition scenario_names :: "string list" where
  "scenario_names = [''sequential'', ''low_concurrency'', ''high_concurrency'', ''contention'', ''list_heavy'']"

lemma run_all_ids:
  assumes "run_all h warmup duration envs lh_env mf send w = Some (w', res)"
  shows "map res_ScenarioID (sol_Scenarios res) = take (length (sol_Scenarios res)) scenario_names \<and>
    sol_Name res = mf_Name mf"
proof -
  let ?cfgs = "map (\<lambda>cfg. cfg\<lparr>cfg_Duration := duration, cfg_Warmup := warmup\<rparr>) defaultScenarios"
  have names: "scenario_names = map cfg_ID ?cfgs @ [''list_heavy'']" "length ?cfgs = 4"
    by (simp_all add: scenario_names_def defaultScenarios_def)
  obtain w1 scs aborted where r: "run_scenarios h send ?cfgs envs w = Some (w1, scs, aborted)"
    using assms by (auto simp: run_all_def split: option.splits)
  note ids = run_scenarios_ids [OF r]
  have "length scs \<le> 4" using ids names(2) by (metis length_map length_take min.cobounded1 min_def)
  then have "take (length scs) scenario_names = take (length scs) (map cfg_ID ?cfgs)"
    unfolding names(1) using names(2) by simp
  then have scs: "map res_ScenarioID scs = take (length scs) scenario_names" using ids by simp
  from assms r consider "sol_Scenarios res = scs" "sol_Name res = mf_Name mf"
    | sc w2 where "\<not> aborted" "runListHeavy send warmup lh_env w1 = Returns sc None w2"
        "sol_Scenarios res = scs @ [sc]" "sol_Name res = mf_Name mf"
    by (auto simp: run_all_def split: if_splits outcome.splits option.splits)
  then show ?thesis
  proof cases
    case 2
    moreover have "length scenario_names = 5" by (simp add: scenario_names_def)
    ultimately show ?thesis using ids names scenario_id(2) [OF 2(2)] by simp
  qed (use scs in simp)
qed

lemma discover_member:
  assumes "discoverSolutions fs path = Inr dirs" "d \<in> set dirs"
  shows "exists_file fs (filepath_Join d ''solution.json'')"
  using assms by (auto simp: discoverSolutions_def split: sum.splits if_splits)

subsection \<open>A whole benchmark of a service that implements the specification\<close>

text \<open>\<open>in_limits (n, l) r\<close>: the scenario counted at most \<open>n\<close> failed requests and reports at most \<open>l\<close> leaked locks.
  \<open>leak_limits l cfgs\<close> are the limits of successive scenarios against a server that holds \<open>l\<close> locks: a
  failed request for each goroutine, and two further locks for each worker.\<close>

definition in_limits :: "nat \<times> nat \<Rightarrow> ScenarioResult \<Rightarrow> bool" where
  "in_limits l r \<longleftrightarrow> (\<exists>e. e \<le> fst l \<and> res_ErrorRate r = rate e (res_RequestsTotal r)) \<and> res_LeakedLocks r \<le> int (snd l)"

fun leak_limits :: "nat \<Rightarrow> scenarioCfg list \<Rightarrow> (nat \<times> nat) list" where
  "leak_limits l [] = []"
| "leak_limits l (cfg # cfgs) =
     (let l' = l + 2 * cfg_Concurrency cfg in (cfg_Concurrency cfg, l') # leak_limits l' cfgs)"

definition cfg_ok :: "scenarioCfg \<Rightarrow> bool" where
  "cfg_ok cfg \<longleftrightarrow> cfg_PartitionKeys cfg \<or> 0 < cfg_KeyPoolSize cfg"

context spec_service
begin

lemma healthz_answer:
  assumes "winv w"
  shows "\<exists>w' p. client_Do send healthz_http w = (w', Inr p) \<and> reply_Status p = StatusOK \<and> winv w' \<and> wtbl w' = wtbl w"
  using send_answers [OF assms, of healthz_http]
  by (auto simp: healthz_http_def answer_def is_listing_def spec_response_def spec_table_def lock_request_def
      unlock_request_def fixed_response_def reply_of_def)

lemma WaitHealthy_ready:
  assumes "winv w" "0 \<le> int64 (timeoutMs * millisecond)" "0 < fuel"
  shows "\<exists>w'. WaitHealthy fuel send h timeoutMs w = Some (w', Inr ()) \<and> winv w' \<and> wtbl w' = wtbl w"
proof -
  obtain f where "fuel = Suc f" using assms(3) by (cases fuel) auto
  then show ?thesis using healthz_answer [OF assms(1)] assms(2) by (auto simp: WaitHealthy_def millisecond_def)
qed

lemma scenario_in_limits:
  assumes "cfg_ok cfg" "undisturbed_env (cfg_Concurrency cfg) env" "winv w" "card (dom (wtbl w)) \<le> l"
  shows "\<exists>r w'. runScenario send cfg env w = Returns r None w' \<and> winv w' \<and>
    card (dom (wtbl w')) \<le> l + 2 * cfg_Concurrency cfg \<and> in_limits (cfg_Concurrency cfg, l + 2 * cfg_Concurrency cfg) r"
proof -
  have "load_ok (scenario_procs cfg)" using assms(1) by (intro scenario_procs_ok) (simp add: cfg_ok_def)
  from load_bounded [OF this assms(3)] assms(2,4) show ?thesis
    by (fastforce simp: in_limits_def runScenario_def)
qed

lemma list_heavy_in_limits:
  assumes "undisturbed_env 25 env" "winv w" "card (dom (wtbl w)) \<le> l"
  shows "\<exists>r w'. runListHeavy send warmup env w = Returns r None w' \<and> in_limits (25, l + 40) r"
  using load_bounded [OF list_heavy_ok assms(2)] assms(1,3)
  by (fastforce simp: in_limits_def runListHeavy_def)

lemma run_scenarios_in_limits:
  assumes pause: "\<And>d w. winv w \<Longrightarrow> winv (fst (pause h d w)) \<and> wtbl (fst (pause h d w)) = wtbl w"
  shows "list_all cfg_ok cfgs \<Longrightarrow> list_all2 (\<lambda>cfg. undisturbed_env (cfg_Concurrency cfg)) cfgs envs \<Longrightarrow> winv w \<Longrightarrow>
    card (dom (wtbl w)) \<le> l \<Longrightarrow> \<exists>w' scs. run_scenarios h send cfgs envs w = Some (w', scs, False) \<and> winv w' \<and>
      list_all2 in_limits (leak_limits l cfgs) scs \<and> card (dom (wtbl w')) \<le> l + 2 * sum_list (map cfg_Concurrency cfgs)"
proof (induction cfgs arbitrary: envs w l)
  case (Cons cfg cfgs)
  let ?l = "l + 2 * cfg_Concurrency cfg"
  obtain env envs' where envs: "envs = env # envs'" "undisturbed_env (cfg_Concurrency cfg) env"
    "list_all2 (\<lambda>cfg. undisturbed_env (cfg_Concurrency cfg)) cfgs envs'" using Cons.prems(2) by (auto simp: list_all2_Cons1)
  obtain r w1 where r: "runScenario send cfg env w = Returns r None w1" "winv w1" "card (dom (wtbl w1)) \<le> ?l"
    "in_limits (cfg_Concurrency cfg, ?l) r" using scenario_in_limits [of cfg env w l] envs(2) Cons.prems by auto
  let ?w = "fst (pause h (2000 * millisecond) w1)"
  have w: "winv ?w" "card (dom (wtbl ?w)) \<le> ?l" using pause [OF r(2)] r(3) by simp_all
  have "list_all cfg_ok cfgs" using Cons.prems(1) by simp
  from Cons.IH [OF this envs(3) w] obtain w' scs where "run_scenarios h send cfgs envs' ?w = Some (w', scs, False)" "winv w'"
    "list_all2 in_limits (leak_limits ?l cfgs) scs" "card (dom (wtbl w')) \<le> ?l + 2 * sum_list (map cfg_Concurrency cfgs)" by blast
  then show ?case using r(1,4) envs(1) by (simp add: Let_def)
qed simp

lemma run_all_in_limits:
  assumes pause: "\<And>d w. winv w \<Longrightarrow> winv (fst (pause h d w)) \<and> wtbl (fst (pause h d w)) = wtbl w"
    and envs: "list_all2 (\<lambda>cfg. undisturbed_env (cfg_Concurrency cfg)) defaultScenarios envs" "undisturbed_env 25 lh_env"
    and w: "winv w" "wtbl w = Map.empty"
  shows "\<exists>w' res. run_all h warmup duration envs lh_env mf send w = Some (w', res) \<and> sol_Name res = mf_Name mf \<and>
    list_all2 in_limits [(1, 2), (10, 22), (100, 222), (50, 322), (25, 362)] (sol_Scenarios res)"
proof -
  let ?cfgs = "map (\<lambda>cfg. cfg\<lparr>cfg_Duration := duration, cfg_Warmup := warmup\<rparr>) defaultScenarios"
  have ok: "list_all cfg_ok ?cfgs" "leak_limits 0 ?cfgs = [(1, 2), (10, 22), (100, 222), (50, 322)]"
    "2 * sum_list (map cfg_Concurrency ?cfgs) = 322"
    by (simp_all add: cfg_ok_def defaultScenarios_def)
  have "list_all2 (\<lambda>cfg. undisturbed_env (cfg_Concurrency cfg)) ?cfgs envs" using envs(1) by (simp add: list_all2_map1)
  then obtain w1 scs where 1: "run_scenarios h send ?cfgs envs w = Some (w1, scs, False)" "winv w1"
    "list_all2 in_limits [(1, 2), (10, 22), (100, 222), (50, 322)] scs" "card (dom (wtbl w1)) \<le> 322"
    using run_scenarios_in_limits [OF pause ok(1) _ w(1), of envs 0] w(2) unfolding ok(2,3) by auto
  obtain r w2 where 2: "runListHeavy send warmup lh_env w1 = Returns r None w2" "in_limits (25, 362) r"
    using list_heavy_in_limits [OF envs(2) 1(2,4)] by fastforce
  have "list_all2 in_limits ([(1, 2), (10, 22), (100, 222), (50, 322)] @ [(25, 362)]) (scs @ [r])"
    using 1(3) 2(2) by (intro list_all2_appendI) simp_all
  then show ?thesis using 1(1) 2(1) by (simp add: run_all_def)
qed

lemma with_service_ready:
  assumes mf: "load_manifest (files p) dir = Inr mf" "0 \<le> int64 (startup_timeout mf * millisecond)"
      "0 < health_fuel p (startup_timeout mf)"
    and build: "BuildImage (engine p) (fs_Tree (files p) dir) (ImageTag (mf_Name mf)) w = (w1, Inr ())"
    and start: "start_service p mf networkName w1 = Some (w2, Inr (cid, baseURL))" "connect p baseURL = send"
    and w2: "winv w2" "wtbl w2 = Map.empty"
    and body: "\<And>w. winv w \<Longrightarrow> wtbl w = Map.empty \<Longrightarrow> \<exists>w' a. body mf send w = Some (w', a) \<and> Q a"
  shows "\<exists>w' a. with_service p dir networkName body w = Some (w', Inr a) \<and> Q a"
proof -
  obtain w3 where 3: "WaitHealthy (health_fuel p (startup_timeout mf)) send (machine p) (startup_timeout mf) w2 = Some (w3, Inr ())"
    "winv w3" "wtbl w3 = Map.empty" using WaitHealthy_ready [OF w2(1) mf(2,3)] w2(2) by metis
  obtain w4 where 4: "validateSpec send w3 = (w4, Inr ())" "winv w4" "wtbl w4 = Map.empty"
    using validate_passes [OF 3(2)] 3(3) by metis
  obtain w5 a where "body mf send w4 = Some (w5, a)" "Q a" using body [OF 4(2,3)] by blast
  then show ?thesis using mf build start 3(1) 4(1) by (simp add: with_service_def use_service_def)
qed

end

subsection \<open>What a run leaves alone\<close>

text \<open>
  \<open>untouched p J\<close>: no call of the platform but those on networks ends \<open>J\<close>, where containers are stopped and
  removed under another name than the runner's own. \<open>other_containers p\<close>: the containers of the solutions
  are not the runner's.
\<close>

definition untouched :: "'w platform \<Rightarrow> ('w \<Rightarrow> bool) \<Rightarrow> bool" where
  "untouched p J \<longleftrightarrow>
     (\<forall>es tag. keeps_io J (ImageBuild (engine p) es tag)) \<and>
     (\<forall>spec. keeps_io J (ContainerCreate (engine p) spec)) \<and>
     (\<forall>cid. keeps_io J (ContainerStart (engine p) cid) \<and> keeps_io J (ContainerInspect (engine p) cid)) \<and>
     (\<forall>cid. cid \<noteq> hostname p \<longrightarrow> keeps_io J (ContainerStop (engine p) cid) \<and> keeps_io J (ContainerRemove (engine p) cid)) \<and>
     (\<forall>d. keeps_io J (pause (machine p) d)) \<and>
     (\<forall>url. keeps_send J (connect p url)) \<and>
     (\<forall>path w. J w \<longrightarrow> J (mkdir_all p path w)) \<and>
     (\<forall>path s w. J w \<longrightarrow> J (fst (write_file p path s w)))"

definition other_containers :: "'w platform \<Rightarrow> bool" where
  "other_containers p \<longleftrightarrow>
     (\<forall>spec w w' cid. ContainerCreate (engine p) spec w = (w', Inr cid) \<longrightarrow> cid \<noteq> hostname p) \<and>
     (\<forall>name. ContainerName name \<noteq> hostname p)"

lemma untouchedD:
  assumes "untouched p J"
  shows "keeps_io J (ImageBuild (engine p) es tag)" "keeps_io J (ContainerCreate (engine p) spec)"
    "keeps_io J (ContainerStart (engine p) cid)" "keeps_io J (ContainerInspect (engine p) cid)"
    "cid \<noteq> hostname p \<Longrightarrow> keeps_io J (ContainerStop (engine p) cid)"
    "cid \<noteq> hostname p \<Longrightarrow> keeps_io J (ContainerRemove (engine p) cid)"
    "keeps_io J (pause (machine p) d)" "keeps_send J (connect p url)"
    "J w \<Longrightarrow> J (mkdir_all p path w)" "J w \<Longrightarrow> J (fst (write_file p path s w))"
  using assms by (simp_all add: untouched_def)

lemma RunContainerOnNetwork_created:
  assumes "RunContainerOnNetwork dk tag port net name w = (w', Inr cid)"
  obtains spec w0 w1 where "ContainerCreate dk spec w0 = (w1, Inr cid)"
  using assms by (auto simp: RunContainerOnNetwork_def Let_def bind_io_Inr map_err_Inr split: prod.splits)

lemma poll_port_cid: "poll_port fuel dk h cid portSpec deadline w = Some (w', Inr (cid', port)) \<Longrightarrow> cid' = cid"
  by (induction fuel arbitrary: w) (auto split: prod.splits sum.splits list.splits option.splits if_splits)

lemma RunContainer_created:
  assumes "RunContainer fuel dk h tag port w = Some (w', Inr (cid, hostPort))"
  obtains spec w0 w1 where "ContainerCreate dk spec w0 = (w1, Inr cid)"
  using assms by (auto simp: RunContainer_def Let_def dest: poll_port_cid split: prod.splits sum.splits)

lemma start_service_keeps:
  assumes "untouched p J" "other_containers p" "J w" "start_service p mf networkName w = Some (w', r)"
  shows "J w' \<and> (\<forall>cid url. r = Inr (cid, url) \<longrightarrow> cid \<noteq> hostname p)"
proof (cases "networkName = []")
  case True
  let ?run = "RunContainer (poll_fuel p) (engine p) (machine p) (ImageTag (mf_Name mf)) (mf_Port mf) w"
  from assms(4) True obtain r' where run: "?run = Some (w', r')" and r: "\<And>cid url. r = Inr (cid, url) \<Longrightarrow> \<exists>port. r' = Inr (cid, port)"
    by (fastforce simp: start_service_def Let_def split: option.splits sum.splits)
  have "J w'" by (rule RunContainer_keeps [OF untouchedD(2-4,7) [OF assms(1)] assms(3) run])
  moreover have "cid \<noteq> hostname p" if "r = Inr (cid, url)" for cid url
    using r [OF that] run RunContainer_created assms(2) unfolding other_containers_def by metis
  ultimately show ?thesis by blast
next
  case False
  let ?name = "ContainerName (mf_Name mf)"
  let ?run = "RunContainerOnNetwork (engine p) (ImageTag (mf_Name mf)) (mf_Port mf) networkName ?name"
  have "?name \<noteq> hostname p" using assms(2) by (simp add: other_containers_def)
  then have keep: "keeps_io J ?run" by (intro keeps_RunContainerOnNetwork untouchedD [OF assms(1)])
  obtain w1 r' where run: "?run w = (w1, r')" by fastforce
  have w1: "w' = w1" using assms(4) False run by (cases r') (simp_all add: start_service_def Let_def)
  have r: "r' = Inr cid" if "r = Inr (cid, url)" for cid url
    using assms(4) False run that by (cases r') (simp_all add: start_service_def Let_def)
  have "J w'" using keeps_ioD [OF keep assms(3) run] w1 by simp
  moreover have "cid \<noteq> hostname p" if "r = Inr (cid, url)" for cid url
    using r that run RunContainerOnNetwork_created assms(2) unfolding other_containers_def by metis
  ultimately show ?thesis by blast
qed

lemma use_service_keeps:
  assumes p: "untouched p J" and body: "\<And>w w' a. J w \<Longrightarrow> body mf (connect p url) w = Some (w', a) \<Longrightarrow> J w'"
    and w: "J w" and run: "use_service p mf (connect p url) body w = Some (w', r)"
  shows "J w'"
proof -
  note send = untouchedD(8) [OF p] and pause = untouchedD(7) [OF p]
  obtain w3 h where h: "WaitHealthy (health_fuel p (startup_timeout mf)) (connect p url) (machine p) (startup_timeout mf) w =
      Some (w3, h)" using run by (auto simp: use_service_def split: option.splits)
  have 3: "J w3" by (rule wait_healthy_keeps [OF send pause w h [unfolded WaitHealthy_def]])
  obtain w4 v where v: "validateSpec (connect p url) w3 = (w4, v)" by fastforce
  have 4: "J w4" by (rule keeps_ioD [OF keeps_validate [OF send] 3 v])
  have "w' = w3 \<or> w' = w4 \<or> (\<exists>a. body mf (connect p url) w4 = Some (w', a))"
    using run h v by (cases h; cases v) (auto simp: use_service_def split: option.splits)
  then show ?thesis using 3 4 body by blast
qed

lemma with_service_keeps:
  assumes p: "untouched p J" "other_containers p"
    and body: "\<And>mf url w w' a. J w \<Longrightarrow> body mf (connect p url) w = Some (w', a) \<Longrightarrow> J w'"
    and w: "J w" and run: "with_service p dir networkName body w = Some (w', r)"
  shows "J w'"
proof -
  have build: "keeps_io J (BuildImage (engine p) t tag)" for t tag
    by (intro keeps_BuildImage untouchedD [OF p(1)])
  have stop: "keeps_io J (StopContainer (engine p) cid)" if "cid \<noteq> hostname p" for cid
    using that by (intro keeps_StopContainer untouchedD [OF p(1)])
  show ?thesis
  proof (cases "load_manifest (files p) dir")
    case (Inr mf)
    obtain w1 b where b: "BuildImage (engine p) (fs_Tree (files p) dir) (ImageTag (mf_Name mf)) w = (w1, b)" by fastforce
    have 1: "J w1" by (rule keeps_ioD [OF build w b])
    show ?thesis
    proof (cases "\<exists>u w2 cid url. b = Inr u \<and> start_service p mf networkName w1 = Some (w2, Inr (cid, url))")
      case True
      then obtain w2 cid url where s: "b = Inr ()" "start_service p mf networkName w1 = Some (w2, Inr (cid, url))" by auto
      with start_service_keeps [OF p 1] have 2: "J w2" "cid \<noteq> hostname p" by auto
      obtain w6 where 6: "w' = fst (StopContainer (engine p) cid w6)" "use_service p mf (connect p url) body w2 = Some (w6, r)"
        using run Inr b s by (auto simp: with_service_def split: option.splits)
      have "J w6" by (rule use_service_keeps [OF p(1) body 2(1) 6(2)])
      then show ?thesis using keeps_io_fst [OF stop [OF 2(2)]] 6(1) by simp
    next
      case False
      then show ?thesis using run Inr b 1 start_service_keeps [OF p 1]
        by (auto simp: with_service_def split: option.splits sum.splits)
    qed
  qed (use run w in \<open>simp add: with_service_def\<close>)
qed

lemma validateSolution_keeps:
  assumes "untouched p J" "other_containers p" "J w" "validateSolution p dir networkName w = Some (w', r)"
  shows "J w'"
  by (rule with_service_keeps [OF assms(1,2) _ assms(3) assms(4) [unfolded validateSolution_def]]) simp

lemma run_scenarios_keeps:
  assumes "keeps_send J send" "\<And>d. keeps_io J (pause h d)"
  shows "J w \<Longrightarrow> run_scenarios h send cfgs envs w = Some (w', r) \<Longrightarrow> J w'"
proof (induction cfgs arbitrary: envs w r)
  case (Cons cfg cfgs)
  then obtain env envs' sc c w1 where envs: "envs = env # envs'" and s: "runScenario send cfg env w = Returns sc c w1"
    by (cases envs) (auto split: outcome.splits)
  have 1: "J w1" by (rule scenario_keeps(1) [OF assms(1) Cons.prems(1) s])
  show ?case
  proof (cases c)
    case None
    then obtain r' where "run_scenarios h send cfgs envs' (fst (pause h (2000 * millisecond) w1)) = Some (w', r')"
      using Cons.prems(2) envs s by (auto split: option.splits)
    then show ?thesis using Cons.IH keeps_io_fst [OF assms(2) 1] by blast
  qed (use Cons.prems(2) envs s 1 in simp)
qed simp

lemma run_all_keeps:
  assumes send: "keeps_send J send" and pause: "\<And>d. keeps_io J (pause h d)"
    and "J w" "run_all h warmup duration envs lh_env mf send w = Some (w', r)"
  shows "J w'"
proof -
  let ?cfgs = "map (\<lambda>cfg. cfg\<lparr>cfg_Duration := duration, cfg_Warmup := warmup\<rparr>) defaultScenarios"
  obtain w1 scs aborted where s: "run_scenarios h send ?cfgs envs w = Some (w1, scs, aborted)"
    using assms(4) by (auto simp: run_all_def split: option.splits)
  have 1: "J w1" by (rule run_scenarios_keeps [OF send pause assms(3) s])
  have "w' = w1 \<or> (\<exists>sc c. runListHeavy send warmup lh_env w1 = Returns sc c w')"
    using assms(4) s by (auto simp: run_all_def split: if_splits outcome.splits option.splits)
  then show ?thesis using 1 scenario_keeps(2) [OF send 1] by blast
qed

lemma benchmarkSolution_keeps:
  assumes "untouched p J" "other_containers p" "J w"
    and "benchmarkSolution p dir warmup duration envs lh_env networkName w = Some (w', r)"
  shows "J w'"
proof (rule with_service_keeps [OF assms(1,2) _ assms(3) assms(4) [unfolded benchmarkSolution_def]])
  fix mf url w w' a
  assume "J w" "run_all (machine p) warmup duration envs lh_env mf (connect p url) w = Some (w', a)"
  then show "J w'" by (rule run_all_keeps [OF untouchedD(8,7) [OF assms(1)]])
qed

lemma validate_loop_keeps:
  assumes "untouched p J" "other_containers p"
  shows "J w \<Longrightarrow> validate_loop p networkName dirs failed w = Some (w', n) \<Longrightarrow> J w'"
proof (induction dirs arbitrary: w failed)
  case (Cons dir dirs)
  then obtain w1 r failed' where "validateSolution p dir networkName w = Some (w1, r)"
    "validate_loop p networkName dirs failed' w1 = Some (w', n)" by (auto split: option.splits sum.splits)
  then show ?case using Cons.IH validateSolution_keeps [OF assms Cons.prems(1)] by blast
qed simp

lemma benchmark_loop_keeps:
  assumes "untouched p J" "other_containers p"
  shows "J w \<Longrightarrow> benchmark_loop p fl plans networkName dirs w = Some (w', rs) \<Longrightarrow> J w'"
proof (induction dirs arbitrary: w rs)
  case (Cons dir dirs)
  obtain w1 r rs' where "benchmarkSolution p dir (fl_warmup fl) (fl_duration fl) (fst (plans dir)) (snd (plans dir)) networkName w =
      Some (w1, r)" "benchmark_loop p fl plans networkName dirs w1 = Some (w', rs')"
    using Cons.prems(2) by (auto split: option.splits)
  then show ?case using Cons.IH benchmarkSolution_keeps [OF assms Cons.prems(1)] by blast
qed simp

lemma write_results_keeps:
  assumes "untouched p J" "J w"
  shows "J (write_results p report w)"
proof -
  note mkdir = untouchedD(9) [OF assms(1)] and wfile = untouchedD(10) [OF assms(1)]
  have "J w \<Longrightarrow> J (fst (WriteJSON (marshal p) (write_file p) report path w))" for path w
    using wfile by (simp add: WriteJSON_def split: sum.splits)
  then show ?thesis using mkdir wfile assms(2) by (simp add: write_results_def WriteMarkdown_def Let_def)
qed

lemma run_mode_keeps:
  assumes p: "untouched p J" "other_containers p" and w: "J w"
    and run: "run_mode p fl plans networkName dirs w = Some (w', code)"
  shows "J w'"
proof (cases "fl_validateOnly fl")
  case True
  then obtain failed where "validate_loop p networkName dirs 0 w = Some (w', failed)"
    using run by (auto simp: run_mode_def split: option.splits)
  then show ?thesis by (rule validate_loop_keeps [OF p w])
next
  case False
  then obtain w1 rs report where "benchmark_loop p fl plans networkName dirs w = Some (w1, rs)" "w' = write_results p report w1"
    using run by (auto simp: run_mode_def Let_def split: option.splits)
  then show ?thesis using write_results_keeps [OF p(1)] benchmark_loop_keeps [OF p w] by blast
qed

subsection \<open>A concrete platform\<close>

text \<open>An engine that answers every call and changes nothing, a file system with one solution, and a
  service that is the single-map server.\<close>

definition calm_engine :: "'w docker" where
  "calm_engine = \<lparr>ImageBuild = (\<lambda>es tag w. (w, Inr [])), ContainerCreate = (\<lambda>spec w. (w, Inr ''c1'')),
     ContainerStart = (\<lambda>cid w. (w, Inr ())), ContainerInspect = (\<lambda>cid w. (w, Inr (\<lambda>port. [''49153'']))),
     ContainerStop = (\<lambda>cid w. (w, Inr ())), ContainerRemove = (\<lambda>cid w. (w, Inr ())),
     NetworkCreate = (\<lambda>name w. (w, Inr ''n1'')), NetworkRemove = (\<lambda>nid w. (w, Inr ())),
     NetworkConnect = (\<lambda>nid host w. (w, Inr ()))\<rparr>"

definition one_solution :: filesys where
  "one_solution = \<lparr>fs_Stat = (\<lambda>path. if path = ''/.dockerenv'' then Inl [OtherErr ''not found''] else Inr True),
     fs_ReadDir = (\<lambda>path. Inr []),
     fs_ReadFile = (\<lambda>path. Inr (Json (JObj [(''name'', JStr ''Go In-Memory''), (''port'', JNum ''8080'')]) [])),
     fs_Tree = (\<lambda>path. Dir [])\<rparr>"

definition local_platform :: "'w sender \<Rightarrow> 'w platform" where
  "local_platform send = \<lparr>engine = calm_engine, machine = \<lparr>clock = (\<lambda>w. 0), pause = (\<lambda>d w. (w, Inr ()))\<rparr>,
     files = one_solution, connect = (\<lambda>url. send), poll_fuel = 52, health_fuel = (\<lambda>t. nat (t div 100) + 2),
     hostname = ''runner'', local_zone = 7200, client_err = None, marshal = (\<lambda>r. Inr []), mkdir_all = (\<lambda>path w. w),
     write_file = (\<lambda>path text w. (w, None))\<rparr>"

definition go_manifest :: SolutionManifest where
  "go_manifest = \<lparr>mf_Name = ''Go In-Memory'', mf_Description = [], mf_Port = 8080, mf_StartupTimeoutMs = 0\<rparr>"

lemma Atoi_ports: "Atoi ''8080'' = Some 8080" "Atoi ''49153'' = Some 49153"
  by (simp_all add: Atoi_def atoi_nat_def)

lemma local_manifest: "load_manifest (files (local_platform send)) dir = Inr go_manifest"
  by (simp add: load_manifest_def local_platform_def one_solution_def decode_manifest_def manifest_set_def
      set_int_def go_manifest_def Atoi_ports http_simps)

lemma local_build:
  "BuildImage (engine (local_platform send)) (fs_Tree (files (local_platform send)) dir) tag w = (w, Inr ())"
  by (simp add: local_platform_def one_solution_def calm_engine_def BuildImage_def createTarball_def)

lemma local_start: "\<exists>url. start_service (local_platform send) mf [] w = Some (w, Inr (''c1'', url))"
proof -
  have "poll_port n calm_engine h ''c1'' spec d w = Some (w, Inr (''c1'', 49153))" if "0 < n" for n h spec d
    using that by (cases n) (simp_all add: calm_engine_def Atoi_ports)
  then show ?thesis
    by (simp add: start_service_def RunContainer_def local_platform_def Let_def calm_engine_def)
qed

lemma sample_envs_undisturbed:
  "list_all2 (\<lambda>cfg. undisturbed_env (cfg_Concurrency cfg)) defaultScenarios
     (map (\<lambda>cfg. sample_env (cfg_Concurrency cfg)) defaultScenarios)"
  by (simp add: list_all2_map2 list_all2_same)

lemma go_timeout: "0 \<le> int64 (startup_timeout go_manifest * millisecond)"
  by (simp add: go_manifest_def startup_timeout_def int64_timeout) (simp add: millisecond_def)

subsection \<open>A platform with containers and networks\<close>

text \<open>
  A world of a clock, containers, networks and the attachments of containers to networks, and a Docker engine
  that follows the documented rules: a forced removal takes the container and its attachments away; a
  network with an attached container cannot be removed. The platform runs the benchmark inside Docker, in
  the container \<open>runner\<close>, on a service that answers every request with 200 and no body.
\<close>

record sim_world =
  sim_clock :: int
  sim_containers :: "string list"
  sim_networks :: "string list"
  sim_attached :: "(string \<times> string) list"

definition sim_start :: sim_world where
  "sim_start = \<lparr>sim_clock = 0, sim_containers = [''runner''], sim_networks = [], sim_attached = []\<rparr>"

definition no_such :: "string \<Rightarrow> go_error" where
  "no_such what = [OtherErr (''No such '' @ what)]"

type_synonym network_remover = "string \<Rightarrow> (sim_world, go_error, unit) io"

definition refuse_in_use :: network_remover where
  "refuse_in_use nid w =
     (if list_ex (\<lambda>(n, c). n = nid) (sim_attached w) then (w, Inl [OtherErr ''network has active endpoints''])
      else (w\<lparr>sim_networks := removeAll nid (sim_networks w)\<rparr>, Inr ()))"

definition remove_always :: network_remover where
  "remove_always nid w = (w\<lparr>sim_networks := removeAll nid (sim_networks w)\<rparr>, Inr ())"

definition sim_engine :: "network_remover \<Rightarrow> sim_world docker" where
  "sim_engine rm = \<lparr>ImageBuild = (\<lambda>es tag w. (w, Inr [])),
     ContainerCreate = (\<lambda>spec w. (w\<lparr>sim_containers := ''c1'' # sim_containers w,
        sim_attached := (case spec_Network spec of None \<Rightarrow> sim_attached w | Some (net, alias) \<Rightarrow> (''n1'', ''c1'') # sim_attached w)\<rparr>,
        Inr ''c1'')),
     ContainerStart = (\<lambda>cid w. (w, Inr ())), ContainerInspect = (\<lambda>cid w. (w, Inr (\<lambda>port. [''49153'']))),
     ContainerStop = (\<lambda>cid w. (w, if cid \<in> set (sim_containers w) then Inr () else Inl (no_such ''container''))),
     ContainerRemove = (\<lambda>cid w. if cid \<in> set (sim_containers w)
        then (w\<lparr>sim_containers := removeAll cid (sim_containers w), sim_attached := filter (\<lambda>(n, c). c \<noteq> cid) (sim_attached w)\<rparr>, Inr ())
        else (w, Inl (no_such ''container''))),
     NetworkCreate = (\<lambda>name w. (w\<lparr>sim_networks := ''n1'' # sim_networks w\<rparr>, Inr ''n1'')),
     NetworkRemove = rm,
     NetworkConnect = (\<lambda>nid c w. (w\<lparr>sim_attached := (nid, c) # sim_attached w\<rparr>, Inr ()))\<rparr>"

definition empty_service :: "sim_world sender" where
  "empty_service w r = (w, Inr \<lparr>reply_Status = StatusOK, reply_Body = Inr Empty\<rparr>)"

definition sim_platform :: "network_remover \<Rightarrow> sim_world platform" where
  "sim_platform rm = (local_platform empty_service)
     \<lparr>engine := sim_engine rm, machine := \<lparr>clock = sim_clock, pause = (\<lambda>d w. (w\<lparr>sim_clock := sim_clock w + d\<rparr>, Inr ()))\<rparr>,
      files := one_solution\<lparr>fs_Stat := (\<lambda>path. Inr True)\<rparr>\<rparr>"

lemma sim_simps:
  "engine (sim_platform rm) = sim_engine rm" "connect (sim_platform rm) url = empty_service"
  "hostname (sim_platform rm) = ''runner''"
  "machine (sim_platform rm) = \<lparr>clock = sim_clock, pause = (\<lambda>d w. (w\<lparr>sim_clock := sim_clock w + d\<rparr>, Inr ()))\<rparr>"
  "client_err (sim_platform rm) = None" "load_manifest (files (sim_platform rm)) dir = Inr go_manifest"
  "health_fuel (sim_platform rm) (startup_timeout go_manifest) = 102"
  "mkdir_all (sim_platform rm) path w = w" "write_file (sim_platform rm) path s w = (w, None)"
  using local_manifest [of empty_service dir]
  by (simp_all add: sim_platform_def local_platform_def load_manifest_def go_manifest_def startup_timeout_def)

lemma sim_start_service:
  "networkName \<noteq> [] \<Longrightarrow> \<exists>w' url. start_service (sim_platform rm) mf networkName w = Some (w', Inr (''c1'', url))"
  by (simp add: start_service_def RunContainerOnNetwork_def sim_simps sim_engine_def Let_def split: prod.splits)

text \<open>The service becomes healthy and fails its validation.\<close>

lemma sim_use:
  "use_service (sim_platform rm) go_manifest empty_service body w =
     Some (w, Inl (SpecError (CallFailed 1 (DecodeErr StatusOK Empty))))"
proof -
  have "validateSpec empty_service w = (w, Inl (CallFailed 1 (DecodeErr StatusOK Empty)))"
    by (simp add: validateSpec_def validate_lock_def sendLock_def empty_service_def client_Do_def readAll_def bind_io_def
        map_err_def decode_lockResponse_def unmarshal_def)
  moreover have "WaitHealthy f empty_service h (startup_timeout go_manifest) w = Some (w, Inr ())" if "0 < f" for f h
    using that go_timeout by (cases f) (simp_all add: WaitHealthy_def client_Do_def empty_service_def)
  ultimately show ?thesis by (simp add: use_service_def sim_simps)
qed

lemma sim_service:
  assumes "networkName \<noteq> []"
  shows "\<exists>w' e. with_service (sim_platform rm) dir networkName body w = Some (w', Inl (SpecError e))"
proof -
  obtain w2 url where start: "start_service (sim_platform rm) go_manifest networkName w = Some (w2, Inr (''c1'', url))"
    using sim_start_service [OF assms] by blast
  have "BuildImage (engine (sim_platform rm)) (fs_Tree (files (sim_platform rm)) dir) tag w = (w, Inr ())" for tag
    by (simp add: sim_simps sim_platform_def one_solution_def sim_engine_def BuildImage_def createTarball_def)
  with start show ?thesis by (simp add: with_service_def sim_simps(2,6) sim_use)
qed

lemma sim_docker:
  "CreateBenchmarkNetwork (engine (sim_platform rm)) (machine (sim_platform rm)) sim_start =
     (sim_start\<lparr>sim_networks := [''n1'']\<rparr>, Inr (''n1'', ''dl-benchmark-'' @ fmt_d 0))"
  "isRunningInDocker (files (sim_platform rm))" "other_containers (sim_platform rm)"
  "discover_all (files (sim_platform rm)) [''solutions''] = Inr [''solutions'']"
  by (simp_all add: CreateBenchmarkNetwork_def sim_simps sim_engine_def sim_start_def isRunningInDocker_def exists_file_def
      sim_platform_def local_platform_def one_solution_def other_containers_def ContainerName_def discoverSolutions_def)

lemma sim_main:
  "\<exists>w'. main_program (sim_platform rm) \<lparr>fl_warmup = 1, fl_duration = 1, fl_validateOnly = v, fl_args = [''solutions'']\<rparr>
     plans sim_start = Some (w', if v then 1 else 0)"
proof -
  let ?net = "''dl-benchmark-'' @ fmt_d 0"
  let ?w = "sim_start\<lparr>sim_networks := [''n1''], sim_attached := [(''n1'', ''runner'')]\<rparr>"
  have connected: "ConnectSelfToNetwork (engine (sim_platform rm)) (hostname (sim_platform rm)) ''n1''
      (sim_start\<lparr>sim_networks := [''n1'']\<rparr>) = (?w, Inr ())"
    by (simp add: ConnectSelfToNetwork_def sim_simps sim_engine_def sim_start_def)
  show ?thesis
  proof (cases v)
    case True
    obtain w' e where "validateSolution (sim_platform rm) ''solutions'' ?net ?w = Some (w', Inl (SpecError e))"
      using sim_service [of ?net] unfolding validateSolution_def by blast
    then show ?thesis using connected True by (simp add: main_program_def sim_docker sim_simps(5) run_mode_def del: discover_all.simps)
  next
    case False
    obtain w' e where "benchmarkSolution (sim_platform rm) ''solutions'' 1 1 (fst (plans ''solutions'')) (snd (plans ''solutions''))
        ?net ?w = Some (w', Inl (SpecError e))"
      using sim_service [of ?net] unfolding benchmarkSolution_def by blast
    then show ?thesis using connected False by (simp add: main_program_def sim_docker sim_simps(5) run_mode_def Let_def del: discover_all.simps)
  qed
qed

subsection \<open>The composition of all parts\<close>

text \<open>For the single-map server.\<close>

lemma inmemory_benchmark_run:
  assumes "load_manifest (files p) dir = Inr mf" and "0 \<le> int64 (startup_timeout mf * millisecond)"
    and "0 < health_fuel p (startup_timeout mf)"
    and "BuildImage (engine p) (fs_Tree (files p) dir) (ImageTag (mf_Name mf)) w = (w1, Inr ())"
    and "start_service p mf networkName w1 = Some ((newStore, n), Inr (cid, baseURL))"
    and "connect p baseURL = loopback inmemory_serve clk orders"
    and "orders_ok store_inv (\<lambda>s ord. range_ok (locks s) ord) orders"
    and "\<forall>d w. fst (fst (pause (machine p) d w)) = fst w"
    and "list_all2 (\<lambda>cfg. undisturbed_env (cfg_Concurrency cfg)) defaultScenarios envs" and "undisturbed_env 25 lh_env"
  shows "\<exists>w' res. benchmarkSolution p dir warmup duration envs lh_env networkName w = Some (w', Inr res) \<and>
    sol_Name res = mf_Name mf \<and> list_all2 in_limits [(1, 2), (10, 22), (100, 222), (50, 322), (25, 362)] (sol_Scenarios res)"
proof -
  let ?inv = "loopback_inv store_inv (\<lambda>s ord. range_ok (locks s) ord) orders"
  show ?thesis unfolding benchmarkSolution_def
  proof (rule iml.with_service_ready [OF assms(1-6)])
    show "?inv (newStore, n)" using assms(7) by (simp add: loopback_inv_def)
    fix w :: "store \<times> nat"
    assume w: "?inv w" "locks (fst w) = Map.empty"
    show "\<exists>w' a. run_all (machine p) warmup duration envs lh_env mf (loopback inmemory_serve clk orders) w = Some (w', a) \<and>
        sol_Name a = mf_Name mf \<and> list_all2 in_limits [(1, 2), (10, 22), (100, 222), (50, 322), (25, 362)] (sol_Scenarios a)"
      using assms(8) [rule_format] by (intro iml.run_all_in_limits [OF _ assms(9,10) w]) (simp add: loopback_inv_def)
  qed simp
qed

lemma local_benchmark:
  "\<exists>w' res. benchmarkSolution (local_platform (loopback inmemory_serve utc key_order)) ''solutions/go-inmemory'' 1 1
     (map (\<lambda>cfg. sample_env (cfg_Concurrency cfg)) defaultScenarios) (sample_env 25) [] (newStore, 0) = Some (w', Inr res)"
proof -
  let ?p = "local_platform (loopback inmemory_serve utc key_order)"
  obtain url where start: "start_service ?p go_manifest [] (newStore, 0) = Some ((newStore, 0), Inr (''c1'', url))"
    by (rule exE [OF local_start])
  show ?thesis
    using inmemory_benchmark_run [OF local_manifest go_timeout _ local_build start _ key_order_ok _ sample_envs_undisturbed
        sample_env_undisturbed]
    by (fastforce simp: local_platform_def)
qed

subsection \<open>Properties\<close>



text \<open>C27. No container outlives its solution: when the engine stops a container that exists, and a forced
  removal of a container that exists succeeds and takes it away, the container that was started for a
  solution is gone when \<open>benchmarkSolution\<close> returns, whether the benchmark succeeded, the service did not
  become healthy or it failed validation.\<close>

theorem benchmark_stops_container:
  assumes "\<forall>cid w. cid \<in> containers w \<longrightarrow> (\<exists>w'. ContainerStop (engine p) cid w = (w', Inr ()))"
    and "\<forall>cid w. cid \<notin> containers w \<longrightarrow> cid \<notin> containers (fst (ContainerStop (engine p) cid w))"
    and "\<forall>cid w. cid \<in> containers w \<longrightarrow> (\<exists>w'. ContainerRemove (engine p) cid w = (w', Inr ()) \<and> cid \<notin> containers w')"
    and "\<forall>cid w. cid \<notin> containers w \<longrightarrow> cid \<notin> containers (fst (ContainerRemove (engine p) cid w))"
    and "benchmarkSolution p dir warmup duration envs lh_env networkName w = Some (w', r)"
    and "(\<exists>res. r = Inr res) \<or> (\<exists>e. r = Inl (HealthError e)) \<or> (\<exists>e. r = Inl (SpecError e))"
  shows "\<exists>mf w1 w2 cid baseURL. load_manifest (files p) dir = Inr mf \<and>
    BuildImage (engine p) (fs_Tree (files p) dir) (ImageTag (mf_Name mf)) w = (w1, Inr ()) \<and>
    start_service p mf networkName w1 = Some (w2, Inr (cid, baseURL)) \<and> cid \<notin> containers w'"
proof -
  have gone: "cid \<notin> containers (fst (StopContainer (engine p) cid w))" for cid w
    by (rule StopContainer_gone) (use assms(1-4) in blast)+
  show ?thesis by (rule with_service_stops [OF assms(5) [unfolded benchmarkSolution_def] assms(6)]) (use gone in blast)
qed

theorem benchmark_stops_container_witness:
  "\<exists>w' e. benchmarkSolution (sim_platform refuse_in_use) ''solutions/go-inmemory'' 1 1 [] (sample_env 25) ''bench'' sim_start =
     Some (w', Inl e) \<and> ''c1'' \<notin> set (sim_containers w')"
proof -
  let ?p = "sim_platform refuse_in_use"
  obtain w' e where run: "benchmarkSolution ?p ''solutions/go-inmemory'' 1 1 [] (sample_env 25) ''bench'' sim_start =
      Some (w', Inl (SpecError e))" using sim_service [of "''bench''"] unfolding benchmarkSolution_def by blast
  have "cid = ''c1''" if "start_service ?p mf ''bench'' w1 = Some (w2, Inr (cid, url))" for mf w1 w2 cid url
    using sim_start_service [of "''bench''" refuse_in_use mf w1] that by auto
  with benchmark_stops_container [of "\<lambda>w. set (sim_containers w)" ?p, OF _ _ _ _ run]
  have "''c1'' \<notin> set (sim_containers w')" by (auto simp: sim_simps sim_engine_def)
  with run show ?thesis by blast
qed

text \<open>C28. Results come in the order of the scenarios and end at the first abort: the scenario IDs of a
  solution's result are an initial segment of the five, and the result carries the manifest's name.\<close>

theorem benchmark_scenario_order:
  assumes "benchmarkSolution p dir warmup duration envs lh_env networkName w = Some (w', Inr res)"
  shows "\<exists>mf n. load_manifest (files p) dir = Inr mf \<and> sol_Name res = mf_Name mf \<and>
    map res_ScenarioID (sol_Scenarios res) =
      take n [''sequential'', ''low_concurrency'', ''high_concurrency'', ''contention'', ''list_heavy'']"
  by (rule with_service_Inr [OF assms [unfolded benchmarkSolution_def]])
    (use run_all_ids scenario_names_def in metis)

theorem benchmark_scenario_order_witness:
  "\<exists>w' res n. benchmarkSolution (local_platform (loopback inmemory_serve utc key_order)) ''solutions/go-inmemory'' 1 1
     (map (\<lambda>cfg. sample_env (cfg_Concurrency cfg)) defaultScenarios) (sample_env 25) [] (newStore, 0) = Some (w', Inr res) \<and>
     map res_ScenarioID (sol_Scenarios res) =
       take n [''sequential'', ''low_concurrency'', ''high_concurrency'', ''contention'', ''list_heavy'']"
proof -
  let ?run = "benchmarkSolution (local_platform (loopback inmemory_serve utc key_order)) ''solutions/go-inmemory'' 1 1
     (map (\<lambda>cfg. sample_env (cfg_Concurrency cfg)) defaultScenarios) (sample_env 25) [] (newStore, 0)"
  obtain w' res where run: "?run = Some (w', Inr res)" using local_benchmark by (elim exE conjE)
  from benchmark_scenario_order [OF run] run show ?thesis by (elim exE conjE) (intro exI conjI)
qed

text \<open>C36. Inside Docker the benchmark network outlives every successful run. By Docker's rules connecting a
  container attaches it, and a network with an attached container is not removed; when no other call
  removes a network or detaches the runner, a run that exits with code 0 has created a network, connected
  itself to it and, for all its deferred \<open>RemoveNetwork\<close>, ends with that network still there: the runner
  is attached and never disconnects itself.\<close>

theorem main_network_stays:
  assumes "isRunningInDocker (files p)" and "other_containers p"
    and "\<forall>nid. untouched p (\<lambda>w. nid \<in> networks w \<and> (nid, hostname p) \<in> attached w)"
    and "\<forall>name w w' nid. NetworkCreate (engine p) name w = (w', Inr nid) \<longrightarrow> nid \<in> networks w'"
    and "\<forall>nid c w w'. NetworkConnect (engine p) nid c w = (w', Inr ()) \<and> nid \<in> networks w \<longrightarrow>
           nid \<in> networks w' \<and> (nid, c) \<in> attached w'"
    and "\<forall>nid c w. nid \<in> networks w \<and> (nid, c) \<in> attached w \<longrightarrow> nid \<in> networks (fst (NetworkRemove (engine p) nid w))"
    and "main_program p fl plans w = Some (w', 0)"
  shows "\<exists>w1 nid name. CreateBenchmarkNetwork (engine p) (machine p) w = (w1, Inr (nid, name)) \<and> nid \<in> networks w'"
proof -
  from main_in_docker [OF assms(1,7)] obtain w1 nid name w2 w3 dirs where
    c: "CreateBenchmarkNetwork (engine p) (machine p) w = (w1, Inr (nid, name))"
      "ConnectSelfToNetwork (engine p) (hostname p) nid w1 = (w2, Inr ())"
    and run: "run_mode p fl plans name dirs w2 = Some (w3, 0)" "w' = fst (RemoveNetwork (engine p) nid w3)"
    by auto
  have "nid \<in> networks w1" using c(1) assms(4) by (auto simp: CreateBenchmarkNetwork_def Let_def bind_io_Inr map_err_Inr)
  then have 2: "nid \<in> networks w2 \<and> (nid, hostname p) \<in> attached w2"
    using c(2) assms(5) by (auto simp: ConnectSelfToNetwork_def map_err_Inr split: if_splits)
  have "nid \<in> networks w3 \<and> (nid, hostname p) \<in> attached w3"
    by (rule run_mode_keeps [OF assms(3) [rule_format] assms(2) 2 run(1)])
  then have "nid \<in> networks w'" using assms(6) run(2) by (auto simp: RemoveNetwork_def map_err_fst)
  with c(1) show ?thesis by blast
qed

theorem main_network_stays_witness:
  "\<exists>w'. main_program (sim_platform refuse_in_use)
     \<lparr>fl_warmup = 1, fl_duration = 1, fl_validateOnly = False, fl_args = [''solutions'']\<rparr>
     (\<lambda>dir. ([], sample_env 25)) sim_start = Some (w', 0) \<and> ''n1'' \<in> set (sim_networks w')"
proof -
  let ?p = "sim_platform refuse_in_use"
  obtain w' where run: "main_program ?p \<lparr>fl_warmup = 1, fl_duration = 1, fl_validateOnly = False, fl_args = [''solutions'']\<rparr>
     (\<lambda>dir. ([], sample_env 25)) sim_start = Some (w', 0)" using sim_main [of refuse_in_use False] by auto
  have "\<forall>nid. untouched ?p (\<lambda>w. nid \<in> set (sim_networks w) \<and> (nid, hostname ?p) \<in> set (sim_attached w))"
    by (auto simp: untouched_def keeps_io_def keeps_send_def sim_simps sim_engine_def empty_service_def split: option.splits)
  then have "\<exists>w1 nid name. CreateBenchmarkNetwork (engine ?p) (machine ?p) sim_start = (w1, Inr (nid, name)) \<and> nid \<in> set (sim_networks w')"
    by (intro main_network_stays [of ?p "\<lambda>w. set (sim_networks w)" "\<lambda>w. set (sim_attached w)", OF sim_docker(2,3) _ _ _ _ run])
      (auto simp: sim_simps sim_engine_def refuse_in_use_def list_ex_iff)
  with run show ?thesis by (auto simp: sim_docker(1))
qed

text \<open>C37. A failing run leaves the network behind even if Docker would remove it: inside Docker a run of the
  program that has created its network and exits with a code other than 0, because it could not connect
  itself or because a solution failed its validation with \<open>--validate-only\<close>, exits through \<^verbatim>\<open>os.Exit\<close>;
  the deferred removal does not run, and when no other call removes a network, the network still exists.\<close>

theorem main_exit_leaks_network:
  assumes "isRunningInDocker (files p)" and "other_containers p" and "\<forall>nid. untouched p (\<lambda>w. nid \<in> networks w)"
    and "\<forall>name w w' nid. NetworkCreate (engine p) name w = (w', Inr nid) \<longrightarrow> nid \<in> networks w'"
    and "\<forall>nid c w. networks w \<subseteq> networks (fst (NetworkConnect (engine p) nid c w))"
    and "fl_args fl \<noteq> []" and "discover_all (files p) (fl_args fl) = Inr dirs" and "dirs \<noteq> []" and "client_err p = None"
    and "CreateBenchmarkNetwork (engine p) (machine p) w = (w1, Inr (nid, name))"
    and "main_program p fl plans w = Some (w', code)" and "code \<noteq> 0"
  shows "nid \<in> networks w'"
proof -
  have 1: "nid \<in> networks w1" using assms(4,10) by (auto simp: CreateBenchmarkNetwork_def Let_def bind_io_Inr map_err_Inr)
  obtain w2 r where c: "ConnectSelfToNetwork (engine p) (hostname p) nid w1 = (w2, r)" by fastforce
  have 2: "nid \<in> networks w2"
    using 1 c assms(5) [rule_format, of w1 nid "hostname p"]
    by (auto simp: ConnectSelfToNetwork_def dest!: arg_cong [where f = fst] simp: map_err_fst split: if_splits)
  have "w' = w2 \<or> run_mode p fl plans name dirs w2 = Some (w', code)"
    using assms(1,6-12) c by (cases r) (auto simp: main_program_def split: option.splits if_splits)
  then show ?thesis using 2 run_mode_keeps [OF assms(3) [rule_format] assms(2) 2] by blast
qed

theorem main_exit_leaks_network_witness:
  "\<exists>w'. main_program (sim_platform remove_always)
     \<lparr>fl_warmup = 1, fl_duration = 1, fl_validateOnly = True, fl_args = [''solutions'']\<rparr>
     (\<lambda>dir. ([], sample_env 25)) sim_start = Some (w', 1) \<and> ''n1'' \<in> set (sim_networks w')"
proof -
  let ?p = "sim_platform remove_always"
  obtain w' where run: "main_program ?p \<lparr>fl_warmup = 1, fl_duration = 1, fl_validateOnly = True, fl_args = [''solutions'']\<rparr>
     (\<lambda>dir. ([], sample_env 25)) sim_start = Some (w', 1)" using sim_main [of remove_always True] by auto
  have "\<forall>nid. untouched ?p (\<lambda>w. nid \<in> set (sim_networks w))"
    by (auto simp: untouched_def keeps_io_def keeps_send_def sim_simps sim_engine_def empty_service_def split: option.splits)
  moreover have "discover_all (files ?p) (fl_args \<lparr>fl_warmup = 1, fl_duration = 1, fl_validateOnly = True, fl_args = [''solutions'']\<rparr>) =
      Inr [''solutions'']" by (simp only: sim_docker(4) main_flags.simps)
  ultimately have "''n1'' \<in> set (sim_networks w')"
    by (intro main_exit_leaks_network [of ?p "\<lambda>w. set (sim_networks w)", OF sim_docker(2,3) _ _ _ _ _ _ _ sim_docker(1) run])
      (auto simp: sim_simps sim_engine_def)
  with run show ?thesis by blast
qed

text \<open>Only directories with a manifest are benchmarked: every directory found by \<open>discoverSolutions\<close> has
  a \<^verbatim>\<open>solution.json\<close>; a directory that has one itself is the only result, otherwise exactly its
  subdirectories that have one are found.\<close>

lemma discoverSolutions_finds:
  assumes "fs_Stat fs path = Inr isDir" and "fs_ReadDir fs path = Inr entries"
  shows "\<exists>dirs. discoverSolutions fs path = Inr dirs \<and>
    list_all (\<lambda>d. exists_file fs (filepath_Join d ''solution.json'')) dirs \<and>
    (if isDir \<and> exists_file fs (filepath_Join path ''solution.json'') then dirs = [path]
     else set dirs = {filepath_Join path name | name. (name, True) \<in> set entries \<and>
            exists_file fs (filepath_Join (filepath_Join path name) ''solution.json'')})"
  using assms by (auto simp: discoverSolutions_def list_all_iff)

lemma discoverSolutions_finds_instance:
  "discoverSolutions one_solution ''solutions/go-inmemory'' = Inr [''solutions/go-inmemory'']"
  using discoverSolutions_finds [of one_solution "''solutions/go-inmemory''" True "[]"]
  by (simp add: one_solution_def exists_file_def filepath_Join_def)

end
