(* ===== verification/Spec2Isabelle.thy ===== *)
theory Spec2Isabelle
  imports Go_Shard_Mutex Bench_Leak Bench_Runner
begin

text \<open>
  A verification library for the Go programs of the distributed locking benchmark: the two lock servers
  \<^verbatim>\<open>src/solutions/go-inmemory\<close> and \<^verbatim>\<open>src/solutions/go-sharded\<close>, and the program
  \<^verbatim>\<open>src/benchmark\<close> that validates lock servers, puts them under load and reports the measurements.

  \<^bold>\<open>The program and its parts.\<close> A lock server keeps a table from keys to locks (key, lockee, time) and
  serves four requests: \<^verbatim>\<open>GET /healthz\<close>, \<^verbatim>\<open>POST /lock\<close>, \<^verbatim>\<open>POST /unlock\<close> and \<^verbatim>\<open>GET /locks\<close>. Every request
  runs in a goroutine of its own. \<^verbatim>\<open>go-inmemory\<close> has one map behind one \<^verbatim>\<open>sync.RWMutex\<close>; \<^verbatim>\<open>go-sharded\<close> has
  64 maps, each behind a mutex, and a hash of the key selects one. The benchmark finds solution
  directories, builds and starts each solution in a Docker container, waits until it answers, checks that
  it keeps the interface's rules, runs five load scenarios of concurrent workers against it, removes the
  container and writes the reports.

  \<^bold>\<open>The theories, and the code each models.\<close>

  \<^item> \<open>Prelude\<close>, \<open>Go_Json\<close>, \<open>Go_Time\<close>, \<open>Go_Http\<close>, \<open>Go_Float\<close>: what the programs use of the language and its
    standard library. Iteration over a map (every order that lists each key once), decimal printing,
    JSON values and how \<^verbatim>\<open>encoding/json\<close> stores them into structs, times with their zone and RFC 3339, routing, and
    \<^verbatim>\<open>float64\<close> arithmetic as exact rationals rounded to 53 bits. The locale \<open>float_rounding\<close> states what
    the statistics need of rounding; \<open>rnd64\<close> is its instance.
  \<^item> \<open>Lock_Table\<close>: the record \<open>Lock\<close> and the locale \<open>lock_store\<close>, the contract between a store and the HTTP
    handlers: an invariant, the table a store stands for, and what acquire, release and list do to it.
  \<^item> \<open>Lock_Server\<close>: the response structs and the handlers registered in both \<^verbatim>\<open>main\<close> functions, whose code is
    the same in both files, over the operations of a store; the specification of the service over the
    table alone (\<open>spec_table\<close>, \<open>answers\<close>, after \<^verbatim>\<open>src/spec.md\<close>; a listing has every held lock once); and, in the
    context of \<open>lock_store\<close>, that the handlers implement it over every store that keeps the contract.
  \<^item> \<open>Go_Inmemory\<close> (\<^verbatim>\<open>go-inmemory/main.go\<close>): \<open>store\<close>, \<open>newStore\<close>, \<open>acquire\<close>, \<open>release\<close>, \<open>list_locks\<close> and the server
    \<open>inmemory_serve\<close>; the interpretation \<open>im\<close> of \<open>lock_store\<close>.
  \<^item> \<open>Go_Mutex\<close>: the goroutines of that server at the grain of single memory accesses (\<open>gstep\<close>), with the
    mutex, on which a pending writer keeps new readers out, program counters (\<open>pc\<close>) named after lines of
    the code, and a ghost history.
  \<^item> \<open>Go_Sharded\<close> (\<^verbatim>\<open>go-sharded/main.go\<close>): \<open>LockShard\<close>, \<open>sharded_store\<close>, \<open>shard_index\<close> on 64-bit words,
    \<open>sharded_acquire\<close>, \<open>sharded_release\<close>, \<open>sharded_list\<close>, the server \<open>sharded_serve\<close>, the interpretation \<open>sh\<close> of
    \<open>lock_store\<close>, and the merge of a sharded store into a single map.
  \<^item> \<open>Go_Shard_Walk\<close> and \<open>Go_Shard_Mutex\<close>: concurrent calls on the shards, first with one step per operation
    on a shard (\<open>sstep\<close>), then with one step per memory access under 64 mutexes (\<open>fstep\<close>), where each shard
    is a machine of \<open>Go_Mutex\<close>.
  \<^item> \<open>Bench_Stats\<close> (\<^verbatim>\<open>benchmark/stats.go\<close>): \<open>percentileMs\<close>, \<open>maxMs\<close>, \<open>isTimeout\<close>.
  \<^item> \<open>Bench_Client\<close> and \<open>Bench_Validate\<close> (\<^verbatim>\<open>benchmark/validate.go\<close>): the requests the benchmark sends, over an
    arbitrary service, and the five steps of \<open>validateSpec\<close>. The locale \<open>spec_service\<close> is a service that
    implements the specification of \<open>Lock_Server\<close>; \<open>iml\<close> and \<open>shl\<close> interpret it on both Go servers.
  \<^item> \<open>Bench_Worker\<close> (\<^verbatim>\<open>benchmark/scenarios.go\<close>, \<^verbatim>\<open>worker\<close>): workers and readers as program counters over the
    shared counters, the latency channel, the contexts and the service; \<open>phase_step\<close> interleaves them. A
    request is made with the context of its phase: once that is done it fails without being sent, and one
    that is under way may be cut off, executed or not (\<open>CutOff\<close>). The locale \<open>phase_invariant\<close> lifts what one
    step keeps to whole phases; it is interpreted for the counters, the keys and the roster of workers, and
    \<open>spec_service\<close> has two sublocales of it, for the ownership of locks and for what the end of a phase can
    leave behind.
  \<^item> \<open>Bench_Scenario\<close> (\<^verbatim>\<open>benchmark/scenarios.go\<close>, \<^verbatim>\<open>types.go\<close>): \<open>buildWorker\<close>, \<open>runPhase\<close>, \<open>runScenario\<close>,
    \<open>runListHeavy\<close>, the metrics and \<open>checkLeakedLocks\<close>; \<open>Bench_Leak\<close>: what one scenario leaves to the next.
  \<^item> \<open>Bench_Report\<close> (\<^verbatim>\<open>benchmark/reporter.go\<close>): the Markdown report and the printed summary as strings.
  \<^item> \<open>Bench_Docker\<close> (\<^verbatim>\<open>benchmark/docker.go\<close>): images, containers, networks, the tar archive with its links, and
    the two polling loops, over a parametric engine and clock; \<open>Bench_World\<close>: which properties of the
    outside world the calls of the benchmark keep.
  \<^item> \<open>Bench_Runner\<close> (\<^verbatim>\<open>benchmark/runner.go\<close>, \<^verbatim>\<open>main.go\<close>): \<open>discoverSolutions\<close>, \<open>validateSolution\<close>,
    \<open>benchmarkSolution\<close> and \<open>main_program\<close>, with deferred calls and \<^verbatim>\<open>os.Exit\<close> in the order of the code.

  \<^bold>\<open>How state and effects are modelled.\<close> A struct is a record, a Go map a partial function, a panic
  \<^const>\<open>None\<close>, an error result the left part of a sum. A handler takes the store and a request to the new
  store and the response; the clock reading and the iteration order it meets are arguments. Concurrency
  is a step relation (servers) or an arbitrary list of events (benchmark), and a theorem about all of them
  is one about all interleavings. What lies outside the program is a parameter: the hash, the service
  under test with its network, the Docker engine, the file system, the clock.

  \<^bold>\<open>What is shown.\<close>

  \<^item> Both servers implement the specification: every request is answered as it says and changes the table
    as it says, an error answer leaves the table alone, and once a lock is granted every unforced
    request of somebody else is refused until it is released or taken over by force.
  \<^item> Interleaved goroutines on the single map are linearizable, free of data races and never deadlock.
  \<^item> The sharded server never panics on an index, whatever the hash, and answers every sequence of requests
    as the single-map server does from the merged store. At the grain of memory accesses its goroutines
    refine the steps on whole shards, do not race within a shard and never deadlock. A listing that runs
    beside updates reports what was held at some moment of the call and misses nothing that was held
    throughout, but need not be a snapshot.
  \<^item> Validation accepts both servers from every store in which the test key is free and leaves their locks
    as they were; for an arbitrary service, what it accepts is characterised by the replies to its eight
    requests. Its last step cannot tell a missing entry from a listing that failed.
  \<^item> Scenarios return, and their rates and percentiles are in order for every service and interleaving. The
    end of a phase fails requests under way and can leave locks behind, but when requests fail for no other
    reason, a scenario against the single-map server, and the list-heavy scenario against the sharded
    one, counts at most one failed request for each goroutine, leaves at most two new locks for each
    worker, and reports the locks that are left; so does the whole benchmark of the single-map server.
    Workers of a partitioned scenario have disjoint keys and, when all keys are free at the start, never
    meet a conflict, even when messages get lost; but a lock leaked by one scenario can make the next one
    report conflicts. A percentile is the order statistic one expects, although its index is computed in
    floating point.
  \<^item> Waiting for a service returns and is right about its answer; a benchmark of a solution stops and removes
    its container on every path after it started. A failed start leaves its container behind. The benchmark
    network stays after every run inside Docker: a successful run tries to remove it while still attached
    to it, which Docker refuses, and a failing one exits without trying.
  \<^item> The build archive is complete, the outcome of a build is that of its messages, the comparison
    tables show each solution's own results when names differ, and the summary's columns line up.

  \<^bold>\<open>Bounds and fuel.\<close> The latency channel holds \<open>2 ^ 20\<close> samples as in the code; what does not fit is dropped.
  After the deadline of a phase eight turns for each goroutine are enough for it to finish: one request that
  is under way, its release, and the counting. \<open>RunContainer\<close> inspects at most 52 times (5 s, once in 100 ms,
  and the last look) and \<open>WaitHealthy\<close> polls at most once in 100 ms of its timeout and two more times, given a
  clock that waiting advances, where the timeout is a 64-bit duration and wraps around as in the code
  (\<open>int64\<close>); fuel that runs out is \<^const>\<open>None\<close>, and the theorems say that this does not happen. The order
  statistic holds for up to \<open>2 ^ 39\<close> samples, far beyond the channel; integers up to \<open>2 ^ 53\<close> are exact
  floats. Counters are natural numbers, as \<^verbatim>\<open>int64\<close> would wrap only after \<open>2 ^ 63\<close> requests; hashes and shard
  indices are 64-bit words.

  \<^bold>\<open>Not modelled.\<close> Sockets and the loop of \<^verbatim>\<open>http.ListenAndServe\<close>; the text of JSON as bytes (a body is the
  value the decoder finds, or the failure); the rapidhash package, the Docker client and \<^verbatim>\<open>archive/tar\<close>'s
  encoding, which are third-party or library code and parameters here; the shortest printing of floats in the JSON
  report; named pipes in a build context; flag parsing, progress output and log printing; letters outside ASCII in \<^verbatim>\<open>strings.ToLower\<close>;
  infinities, NaNs and subnormal floats, which the computed quantities do not reach. The solutions in other
  languages (C, C#, TypeScript, Zig) implement the same interface and are not part of this development.
\<close>

end
